theory Spec2Isabelle
  imports Main "HOL-Library.Word"
begin

unbundle bit_operations_syntax

section \<open>Machine integers, constants and errors\<close>

text \<open>
  The two programs, \<^verbatim>\<open>mkfs_builder.c\<close> and \<^verbatim>\<open>mkfs_adder.c\<close>, work on packed
  little-endian records inside byte buffers. Fixed-width C integers are words, buffers are
  lists of bytes. The macros \<^verbatim>\<open>BS\<close> and \<^verbatim>\<open>INODE_SIZE\<close> are the numerals 4096 and 128.
\<close>

type_synonym u8 = "8 word"
type_synonym u16 = "16 word"
type_synonym u32 = "32 word"
type_synonym u64 = "64 word"

abbreviation (input) BS :: "'a::numeral" where "BS \<equiv> 4096"
abbreviation (input) INODE_SIZE :: "'a::numeral" where "INODE_SIZE \<equiv> 128"

text \<open>
  Every \<^verbatim>\<open>exit(EXIT_FAILURE)\<close> of the two programs is one constructor. \<open>OutOfBounds\<close>
  stands for a read or write outside the object or buffer a pointer refers to, which is
  undefined behaviour in C and an error in this total embedding.
\<close>

datatype error =
    Usage
  | LayoutTooSmall
  | SizeMismatch
  | OpenInputFailed
  | ReadSuperblockFailed
  | BadMagic
  | ReadInodeBitmapFailed
  | ReadDataBitmapFailed
  | ReadInodeTableFailed
  | ReadDataRegionFailed
  | NoFreeInodes
  | OpenFileFailed
  | FileTooLarge
  | NoFreeDataBlocks
  | ReadFileFailed
  | RootDirectoryFull
  | CreateOutputFailed
  | OutOfBounds

section \<open>Little-endian byte codecs\<close>

fun le_bytes :: "nat \<Rightarrow> 'a::len word \<Rightarrow> u8 list" where
  "le_bytes 0 w = []"
| "le_bytes (Suc n) w = ucast w # le_bytes n (drop_bit 8 w)"

fun rd_le :: "u8 list \<Rightarrow> 'a::len word" where
  "rd_le [] = 0"
| "rd_le (b # bs) = ucast b OR push_bit 8 (rd_le bs)"

definition le16 :: "u16 \<Rightarrow> u8 list" where "le16 w = le_bytes 2 w"
definition le32 :: "u32 \<Rightarrow> u8 list" where "le32 w = le_bytes 4 w"
definition le64 :: "u64 \<Rightarrow> u8 list" where "le64 w = le_bytes 8 w"

text \<open>Reading a field of a packed record: \<open>n\<close> bytes at offset \<open>off\<close>.\<close>

definition field :: "u8 list \<Rightarrow> nat \<Rightarrow> nat \<Rightarrow> u8 list" where
  "field bs off n = take n (drop off bs)"

definition rd16 :: "u8 list \<Rightarrow> nat \<Rightarrow> u16" where "rd16 bs off = rd_le (field bs off 2)"
definition rd32 :: "u8 list \<Rightarrow> nat \<Rightarrow> u32" where "rd32 bs off = rd_le (field bs off 4)"
definition rd64 :: "u8 list \<Rightarrow> nat \<Rightarrow> u64" where "rd64 bs off = rd_le (field bs off 8)"

section \<open>Checksums\<close>

text \<open>
  \<^verbatim>\<open>crc32_init\<close> fills the global table \<^verbatim>\<open>CRC32_TAB\<close>; both programs call it first, so
  the table is the constant it computes.
\<close>

definition crc32_tab_step :: "u32 \<Rightarrow> u32" where
  "crc32_tab_step c = (if c AND 1 \<noteq> 0 then 0xEDB88320 XOR drop_bit 1 c else drop_bit 1 c)"

definition crc32_tab_entry :: "nat \<Rightarrow> u32" where
  "crc32_tab_entry i = (crc32_tab_step ^^ 8) (of_nat i)"

definition CRC32_TAB :: "u32 list" where
  "CRC32_TAB = map crc32_tab_entry [0..<256]"

text \<open>The loop of \<^verbatim>\<open>crc32\<close> over the bytes it reads, with the running value \<open>c\<close>.\<close>

fun crc32_loop :: "u8 list \<Rightarrow> u32 \<Rightarrow> u32" where
  "crc32_loop [] c = c"
| "crc32_loop (b # bs) c =
     crc32_loop bs (CRC32_TAB ! unat ((c XOR ucast b) AND 0xFF) XOR drop_bit 8 c)"

text \<open>
  \<^verbatim>\<open>crc32(data, n)\<close>: \<open>p\<close> is the memory the pointer may read, from its address to the
  end of the object; reading \<open>n\<close> bytes from a shorter object is out of bounds.
\<close>

definition crc32 :: "u8 list \<Rightarrow> nat \<Rightarrow> error + u32" where
  "crc32 p n =
     (if n \<le> length p then Inr (crc32_loop (take n p) 0xFFFFFFFF XOR 0xFFFFFFFF)
      else Inl OutOfBounds)"

section \<open>On-disk records\<close>

record superblock =
  magic :: u32
  version :: u32
  block_size :: u32
  total_blocks :: u64
  inode_count :: u64
  inode_bitmap_start :: u64
  inode_bitmap_blocks :: u64
  data_bitmap_start :: u64
  data_bitmap_blocks :: u64
  inode_table_start :: u64
  inode_table_blocks :: u64
  data_region_start :: u64
  data_region_blocks :: u64
  root_inode :: u64
  mtime_epoch :: u64
  flags :: u32
  checksum :: u32

text \<open>The 116 bytes of a packed \<^verbatim>\<open>superblock_t\<close>.\<close>

definition superblock_bytes :: "superblock \<Rightarrow> u8 list" where
  "superblock_bytes sb =
     le32 (magic sb) @ le32 (version sb) @ le32 (block_size sb) @
     le64 (total_blocks sb) @ le64 (inode_count sb) @
     le64 (inode_bitmap_start sb) @ le64 (inode_bitmap_blocks sb) @
     le64 (data_bitmap_start sb) @ le64 (data_bitmap_blocks sb) @
     le64 (inode_table_start sb) @ le64 (inode_table_blocks sb) @
     le64 (data_region_start sb) @ le64 (data_region_blocks sb) @
     le64 (root_inode sb) @ le64 (mtime_epoch sb) @
     le32 (flags sb) @ le32 (superblock.checksum sb)"

definition superblock_of :: "u8 list \<Rightarrow> superblock" where
  "superblock_of bs =
     \<lparr> magic = rd32 bs 0, version = rd32 bs 4, block_size = rd32 bs 8,
       total_blocks = rd64 bs 12, inode_count = rd64 bs 20,
       inode_bitmap_start = rd64 bs 28, inode_bitmap_blocks = rd64 bs 36,
       data_bitmap_start = rd64 bs 44, data_bitmap_blocks = rd64 bs 52,
       inode_table_start = rd64 bs 60, inode_table_blocks = rd64 bs 68,
       data_region_start = rd64 bs 76, data_region_blocks = rd64 bs 84,
       root_inode = rd64 bs 92, mtime_epoch = rd64 bs 100,
       flags = rd32 bs 108, checksum = rd32 bs 112 \<rparr>"

record inode =
  mode :: u16
  links :: u16
  uid :: u32
  gid :: u32
  size_bytes :: u64
  atime :: u64
  mtime :: u64
  ctime :: u64
  direct :: "u32 list"
  reserved_0 :: u32
  reserved_1 :: u32
  reserved_2 :: u32
  proj_id :: u32
  uid16_gid16 :: u32
  xattr_ptr :: u64
  inode_crc :: u64

text \<open>
  \<^verbatim>\<open>direct\<close> is an array of exactly 12 entries: the bytes take the first 12 elements of
  the list, with 0 for any that the list lacks.
\<close>

definition direct_bytes :: "u32 list \<Rightarrow> u8 list" where
  "direct_bytes d = concat (map (\<lambda>i. le32 (if i < length d then d ! i else 0)) [0..<12])"

text \<open>The 128 bytes of a packed \<^verbatim>\<open>inode_t\<close>; the first 120 precede \<^verbatim>\<open>inode_crc\<close>.\<close>

definition inode_head :: "inode \<Rightarrow> u8 list" where
  "inode_head ino =
     le16 (mode ino) @ le16 (links ino) @ le32 (uid ino) @ le32 (gid ino) @
     le64 (size_bytes ino) @ le64 (atime ino) @ le64 (mtime ino) @ le64 (ctime ino) @
     direct_bytes (direct ino) @
     le32 (reserved_0 ino) @ le32 (reserved_1 ino) @ le32 (reserved_2 ino) @
     le32 (proj_id ino) @ le32 (uid16_gid16 ino) @ le64 (xattr_ptr ino)"

definition inode_bytes :: "inode \<Rightarrow> u8 list" where
  "inode_bytes ino = inode_head ino @ le64 (inode_crc ino)"

definition inode_of :: "u8 list \<Rightarrow> inode" where
  "inode_of bs =
     \<lparr> mode = rd16 bs 0, links = rd16 bs 2, uid = rd32 bs 4, gid = rd32 bs 8,
       size_bytes = rd64 bs 12, atime = rd64 bs 20, mtime = rd64 bs 28, ctime = rd64 bs 36,
       direct = map (\<lambda>i. rd32 bs (44 + 4 * i)) [0..<12],
       reserved_0 = rd32 bs 92, reserved_1 = rd32 bs 96, reserved_2 = rd32 bs 100,
       proj_id = rd32 bs 104, uid16_gid16 = rd32 bs 108, xattr_ptr = rd64 bs 112,
       inode_crc = rd64 bs 120 \<rparr>"

record dirent64 =
  inode_no :: u32
  type :: u8
  name :: "u8 list"
  checksum :: u8

text \<open>
  \<^verbatim>\<open>name\<close> is an array of exactly 58 bytes: the bytes take the first 58 elements of the
  list, padded with 0.
\<close>

definition name_bytes :: "u8 list \<Rightarrow> u8 list" where
  "name_bytes n = take 58 (n @ replicate 58 0)"

definition dirent_head :: "dirent64 \<Rightarrow> u8 list" where
  "dirent_head de = le32 (inode_no de) @ [type de] @ name_bytes (name de)"

definition dirent_bytes :: "dirent64 \<Rightarrow> u8 list" where
  "dirent_bytes de = dirent_head de @ [dirent64.checksum de]"

definition dirent_of :: "u8 list \<Rightarrow> dirent64" where
  "dirent_of bs =
     \<lparr> inode_no = rd32 bs 0, type = bs ! 4, name = field bs 5 58, checksum = bs ! 63 \<rparr>"

section \<open>Finalizing checksums\<close>

text \<open>
  \<^verbatim>\<open>superblock_crc_finalize\<close> (mkfs_builder.c, lines 106 to 111) passes the address
  of the record and the length \<^verbatim>\<open>BS - 4\<close> to \<^verbatim>\<open>crc32\<close>. The parameter \<open>beyond\<close> is
  the memory that follows the record and that the read can reach: it is empty when reads
  are confined to the record itself.
\<close>

definition superblock_crc_finalize :: "superblock \<Rightarrow> u8 list \<Rightarrow> error + superblock" where
  "superblock_crc_finalize sb beyond =
     (let sb0 = sb\<lparr>superblock.checksum := 0\<rparr> in
      case crc32 (superblock_bytes sb0 @ beyond) (BS - 4) of
        Inl e \<Rightarrow> Inl e
      | Inr s \<Rightarrow> Inr (sb0\<lparr>superblock.checksum := s\<rparr>))"

text \<open>
  \<^verbatim>\<open>inode_crc_finalize\<close>: copy the record into \<^verbatim>\<open>tmp\<close>, zero its last 8 bytes, store
  the CRC of the first 120 bytes, widened to 64 bits.
\<close>

definition inode_crc_finalize :: "inode \<Rightarrow> error + inode" where
  "inode_crc_finalize ino =
     (let tmp = inode_bytes ino;
          tmp = take 120 tmp @ replicate 8 0 in
      case crc32 tmp 120 of
        Inl e \<Rightarrow> Inl e
      | Inr c \<Rightarrow> Inr (ino\<lparr>inode_crc := ucast c\<rparr>))"

text \<open>\<^verbatim>\<open>dirent_checksum_finalize\<close>: XOR of the bytes 0 to 62 of the record.\<close>

definition xor_bytes :: "u8 list \<Rightarrow> u8" where
  "xor_bytes bs = fold (\<lambda>b x. x XOR b) bs 0"

definition dirent_checksum_finalize :: "dirent64 \<Rightarrow> dirent64" where
  "dirent_checksum_finalize de =
     de\<lparr>dirent64.checksum := xor_bytes (take 63 (dirent_bytes de))\<rparr>"

section \<open>Buffers, C strings and streams\<close>

text \<open>Sequencing of steps that may fail: the first error ends the run.\<close>

definition and_then :: "error + 'a \<Rightarrow> ('a \<Rightarrow> error + 'b) \<Rightarrow> error + 'b" where
  "and_then r f = (case r of Inl e \<Rightarrow> Inl e | Inr x \<Rightarrow> f x)"

text \<open>
  Access to \<open>n\<close> bytes at offset \<open>off\<close> of a heap buffer, as the pointer arithmetic
  and \<^verbatim>\<open>memcpy\<close> of the source do it; outside the buffer it is the error.
\<close>

definition buf_read :: "u8 list \<Rightarrow> nat \<Rightarrow> nat \<Rightarrow> error + u8 list" where
  "buf_read buf off n =
     (if off + n \<le> length buf then Inr (take n (drop off buf)) else Inl OutOfBounds)"

definition buf_write :: "u8 list \<Rightarrow> nat \<Rightarrow> u8 list \<Rightarrow> error + u8 list" where
  "buf_write buf off bs =
     (if off + length bs \<le> length buf
      then Inr (take off buf @ bs @ drop (off + length bs) buf)
      else Inl OutOfBounds)"

text \<open>A C string ends at its first zero byte.\<close>

definition c_string :: "u8 list \<Rightarrow> u8 list" where
  "c_string s = takeWhile (\<lambda>c. c \<noteq> 0) s"

definition strlen :: "u8 list \<Rightarrow> nat" where
  "strlen s = length (c_string s)"

text \<open>
  \<^verbatim>\<open>strncpy(dst, src, n)\<close> on a destination array \<open>dst\<close> of at least \<open>n\<close> bytes: at most
  \<open>n\<close> bytes of the string, then zero bytes up to \<open>n\<close>; the rest of \<open>dst\<close> stays.
\<close>

definition strncpy :: "u8 list \<Rightarrow> u8 list \<Rightarrow> nat \<Rightarrow> u8 list" where
  "strncpy dst src n =
     take n (c_string src) @ replicate (n - strlen src) 0 @ drop n dst"

text \<open>A conversion of a 64-bit unsigned value to \<^verbatim>\<open>int\<close> keeps the low 32 bits, signed.\<close>

definition int_of_u64 :: "u64 \<Rightarrow> int" where
  "int_of_u64 w = sint (ucast w :: u32)"

text \<open>
  A \<^verbatim>\<open>FILE\<close> stream over the bytes of a file. \<^verbatim>\<open>fseek(fp, off, SEEK_SET)\<close> takes a
  \<^verbatim>\<open>long\<close> (64 bits): a negative offset fails and leaves the position, and the source
  never checks the result. \<^verbatim>\<open>fread(buf, n, 1, fp)\<close> returns 1 only when \<open>n\<close> is not 0
  and \<open>n\<close> bytes are left; \<^verbatim>\<open>fwrite\<close> past the end fills the gap with zero bytes.
\<close>

record stream =
  contents :: "u8 list"
  pos :: nat

definition fseek_set :: "stream \<Rightarrow> u64 \<Rightarrow> stream" where
  "fseek_set fp off = (if sint off < 0 then fp else fp\<lparr>pos := unat off\<rparr>)"

definition fread1 :: "stream \<Rightarrow> nat \<Rightarrow> (u8 list \<times> stream) option" where
  "fread1 fp n =
     (if n \<noteq> 0 \<and> pos fp + n \<le> length (contents fp)
      then Some (take n (drop (pos fp) (contents fp)), fp\<lparr>pos := pos fp + n\<rparr>)
      else None)"

definition fwrite1 :: "stream \<Rightarrow> u8 list \<Rightarrow> stream" where
  "fwrite1 fp bs =
     (if bs = [] then fp
      else let d = contents fp @ replicate (pos fp - length (contents fp)) 0 in
        \<lparr> contents = take (pos fp) d @ bs @ drop (pos fp + length bs) d,
          pos = pos fp + length bs \<rparr>)"

section \<open>mkfs\_builder\<close>

text \<open>
  The argument check and the geometry of \<^verbatim>\<open>main\<close> (mkfs_builder.c, lines 163 to 177), on
  the two numbers. All arithmetic is on \<^verbatim>\<open>uint64_t\<close>.
\<close>

record geometry =
  g_total_blocks :: u64
  g_inode_table_blocks :: u64
  g_data_region_start :: u64
  g_data_region_blocks :: u64

definition compute_geometry :: "u64 \<Rightarrow> u64 \<Rightarrow> error + geometry" where
  "compute_geometry size_kib inodes =
     (if size_kib < 180 \<or> size_kib > 4096 \<or> inodes < 128 \<or> inodes > 512 \<or> size_kib mod 4 \<noteq> 0
      then Inl Usage
      else
        let total_blocks = size_kib * 1024 div BS;
            inode_table_blocks = (inodes * INODE_SIZE + BS - 1) div BS;
            data_region_start = 3 + inode_table_blocks;
            data_region_blocks = total_blocks - data_region_start
        in if data_region_blocks < 1 then Inl LayoutTooSmall
           else Inr \<lparr> g_total_blocks = total_blocks,
                      g_inode_table_blocks = inode_table_blocks,
                      g_data_region_start = data_region_start,
                      g_data_region_blocks = data_region_blocks \<rparr>)"

text \<open>The superblock initializer of lines 181 to 198; the checksum field starts as 0.\<close>

definition initial_superblock :: "geometry \<Rightarrow> u64 \<Rightarrow> u64 \<Rightarrow> superblock" where
  "initial_superblock g inodes now =
     \<lparr> magic = 0x4D565346, version = 1, block_size = BS,
       total_blocks = g_total_blocks g, inode_count = inodes,
       inode_bitmap_start = 1, inode_bitmap_blocks = 1,
       data_bitmap_start = 2, data_bitmap_blocks = 1,
       inode_table_start = 3, inode_table_blocks = g_inode_table_blocks g,
       data_region_start = g_data_region_start g,
       data_region_blocks = g_data_region_blocks g,
       root_inode = 1, mtime_epoch = now, flags = 0, checksum = 0 \<rparr>"

text \<open>
  The root inode, written into slot 0 of the zeroed inode table (lines 248 to 260): the
  fields the source does not assign keep the zero bytes of \<^verbatim>\<open>calloc\<close>.
\<close>

definition builder_root_inode :: "u8 list \<Rightarrow> u64 \<Rightarrow> u64 \<Rightarrow> error + u8 list" where
  "builder_root_inode table region_start now =
     and_then (buf_read table 0 INODE_SIZE) (\<lambda>bs.
     and_then (inode_crc_finalize
        ((inode_of bs)\<lparr> mode := 0x4000, links := 2, uid := 0, gid := 0,
           size_bytes := 2 * 64, atime := now, mtime := now, ctime := now,
           direct := ucast region_start # replicate 11 0,
           proj_id := 1234 \<rparr>)) (\<lambda>root.
     buf_write table 0 (inode_bytes root)))"

text \<open>
  One seeded directory entry (lines 287 to 290 and 295 to 298): \<open>i\<close> is its index in the
  zeroed data region, \<open>nm\<close> the string copied by \<^verbatim>\<open>strncpy\<close> over the 58-byte field.
\<close>

definition builder_dirent :: "u8 list \<Rightarrow> nat \<Rightarrow> u8 list \<Rightarrow> error + u8 list" where
  "builder_dirent region i nm =
     and_then (buf_read region (i * 64) 64) (\<lambda>bs.
     buf_write region (i * 64)
       (dirent_bytes (dirent_checksum_finalize
          ((dirent_of bs)\<lparr> inode_no := 1, type := 2,
             name := strncpy (name (dirent_of bs)) nm 58 \<rparr>))))"

text \<open>
  \<^verbatim>\<open>main\<close> of mkfs_builder.c. \<open>imageName\<close> is the \<^verbatim>\<open>--image\<close> option if given,
  \<open>now\<close> the value of \<^verbatim>\<open>time(NULL)\<close>, \<open>beyond\<close> the memory after the local variable
  \<^verbatim>\<open>sb\<close> that the checksum routine reads, \<open>can_create\<close> whether \<^verbatim>\<open>fopen\<close> of the image
  succeeds. \<^verbatim>\<open>calloc\<close> and \<^verbatim>\<open>fwrite\<close> are taken to succeed. The result is the content
  of the image file.
\<close>

definition mkfs_builder ::
    "string option \<Rightarrow> u64 \<Rightarrow> u64 \<Rightarrow> u64 \<Rightarrow> u8 list \<Rightarrow> bool \<Rightarrow> error + u8 list" where
  "mkfs_builder imageName size_kib inodes now beyond can_create =
     (if imageName = None then Inl Usage
      else
        and_then (compute_geometry size_kib inodes) (\<lambda>g.
        and_then (superblock_crc_finalize (initial_superblock g inodes now) beyond) (\<lambda>s.
        if \<not> can_create then Inl CreateOutputFailed
        else
          let superblock_buffer = superblock_bytes s @ replicate (BS - 116) 0;
              ibitmap = (replicate BS 0)[0 := 0x01];
              dbitmap = (replicate BS 0)[0 := 0x01];
              fp = fwrite1 \<lparr>contents = [], pos = 0\<rparr> superblock_buffer;
              fp = fwrite1 fp ibitmap;
              fp = fwrite1 fp dbitmap
          in
          and_then (builder_root_inode
              (replicate (unat (g_inode_table_blocks g * BS)) 0)
              (g_data_region_start g) now) (\<lambda>itable.
          let fp = fwrite1 fp itable in
          and_then (builder_dirent
              (replicate (unat (g_data_region_blocks g * BS)) 0) 0 [0x2E]) (\<lambda>dregion.
          and_then (builder_dirent dregion 1 [0x2E, 0x2E]) (\<lambda>dregion.
          let fp = fwrite1 fp dregion in
          if int (pos fp) \<noteq> sint (g_total_blocks g * BS) then Inl SizeMismatch
          else Inr (contents fp)))))))"

section \<open>mkfs\_adder\<close>

text \<open>
  The loop shared by \<^verbatim>\<open>find_free_inode\<close> and \<^verbatim>\<open>find_free_data_block\<close>: the first
  index below \<open>n\<close>, from \<open>initial\<close> on, whose bit is clear.
\<close>

function scan_bitmap :: "u8 list \<Rightarrow> nat \<Rightarrow> nat \<Rightarrow> error + nat option" where
  "scan_bitmap bitmap n initial =
     (if initial < n then
        (if initial div 8 < length bitmap then
           (if bitmap ! (initial div 8) AND push_bit (initial mod 8) 1 = 0
            then Inr (Some initial)
            else scan_bitmap bitmap n (Suc initial))
         else Inl OutOfBounds)
      else Inr None)"
  by pat_completeness auto
termination
  by (relation "measure (\<lambda>(bitmap, n, initial). n - initial)") auto

definition find_free_inode :: "u8 list \<Rightarrow> u64 \<Rightarrow> error + int" where
  "find_free_inode bitmap count =
     and_then (scan_bitmap bitmap (unat count) 0) (\<lambda>r.
       case r of
         Some initial \<Rightarrow> Inr (int_of_u64 (of_nat initial + 1))
       | None \<Rightarrow> Inr (- 1))"

definition find_free_data_block :: "u8 list \<Rightarrow> u64 \<Rightarrow> error + int" where
  "find_free_data_block bitmap data_blocks =
     and_then (scan_bitmap bitmap (unat data_blocks) 0) (\<lambda>r.
       case r of
         Some initial \<Rightarrow> Inr (int_of_u64 (of_nat initial))
       | None \<Rightarrow> Inr (- 1))"

text \<open>\<^verbatim>\<open>bitmap[i / 8] |= (1 << (i % 8))\<close> for an \<^verbatim>\<open>int\<close> index \<open>i\<close>.\<close>

definition set_bit_at :: "u8 list \<Rightarrow> int \<Rightarrow> error + u8 list" where
  "set_bit_at bitmap i =
     (if 0 \<le> i \<and> nat i div 8 < length bitmap
      then Inr (bitmap[nat i div 8 := bitmap ! (nat i div 8) OR push_bit (nat i mod 8) 1])
      else Inl OutOfBounds)"

text \<open>The variables of \<^verbatim>\<open>main\<close> that hold the image in memory.\<close>

record image =
  sb :: superblock
  inode_bitmap :: "u8 list"
  data_bitmap :: "u8 list"
  inode_table :: "u8 list"
  data_region :: "u8 list"

text \<open>Reading the input image (mkfs_adder.c, lines 169 to 229).\<close>

definition load_image :: "u8 list \<Rightarrow> error + image" where
  "load_image input =
     (let fp_in = \<lparr>contents = input, pos = 0\<rparr> in
      case fread1 fp_in 116 of
        None \<Rightarrow> Inl ReadSuperblockFailed
      | Some (sb_bytes, fp_in) \<Rightarrow>
      let s = superblock_of sb_bytes in
      if magic s \<noteq> 0x4D565346 then Inl BadMagic
      else
      case fread1 (fseek_set fp_in (inode_bitmap_start s * BS)) BS of
        None \<Rightarrow> Inl ReadInodeBitmapFailed
      | Some (ibitmap, fp_in) \<Rightarrow>
      case fread1 (fseek_set fp_in (data_bitmap_start s * BS)) BS of
        None \<Rightarrow> Inl ReadDataBitmapFailed
      | Some (dbitmap, fp_in) \<Rightarrow>
      case fread1 (fseek_set fp_in (inode_table_start s * BS))
             (unat (inode_table_blocks s * BS)) of
        None \<Rightarrow> Inl ReadInodeTableFailed
      | Some (itable, fp_in) \<Rightarrow>
      case fread1 (fseek_set fp_in (data_region_start s * BS))
             (unat (data_region_blocks s * BS)) of
        None \<Rightarrow> Inl ReadDataRegionFailed
      | Some (dregion, fp_in) \<Rightarrow>
      Inr \<lparr> sb = s, inode_bitmap = ibitmap, data_bitmap = dbitmap,
            inode_table = itable, data_region = dregion \<rparr>)"

text \<open>
  The allocation loop (lines 267 to 279): \<open>initial\<close> is the loop counter; each round
  stores the absolute block number, truncated to 32 bits, and sets the bit.
\<close>

function alloc_data_blocks ::
    "superblock \<Rightarrow> nat \<Rightarrow> nat \<Rightarrow> u32 list \<Rightarrow> u8 list \<Rightarrow> error + (u32 list \<times> u8 list)" where
  "alloc_data_blocks s needed_blocks initial data_blocks bitmap =
     (if initial < needed_blocks then
        and_then (find_free_data_block bitmap (data_region_blocks s)) (\<lambda>free_block.
          if free_block = - 1 then Inl NoFreeDataBlocks
          else
            and_then (set_bit_at bitmap free_block) (\<lambda>bitmap'.
              alloc_data_blocks s needed_blocks (Suc initial)
                (data_blocks[initial := ucast (data_region_start s + of_int free_block)])
                bitmap'))
      else Inr (data_blocks, bitmap))"
  by pat_completeness auto
termination
  by (relation "measure (\<lambda>(s, needed_blocks, initial, data_blocks, bitmap).
        needed_blocks - initial)") auto

text \<open>
  The copy loop (lines 294 to 299): block \<open>initial\<close> of the file goes to the data-region
  offset derived from the stored block number; the last block copies the remainder.
\<close>

function write_file_blocks ::
    "superblock \<Rightarrow> u64 \<Rightarrow> u8 list \<Rightarrow> u32 list \<Rightarrow> nat \<Rightarrow> nat \<Rightarrow> u8 list \<Rightarrow> error + u8 list" where
  "write_file_blocks s file_size file_content data_blocks needed_blocks initial region =
     (if initial < needed_blocks then
        (let offset = (ucast (data_blocks ! initial) - data_region_start s) * BS;
             copy_size = (if initial = needed_blocks - 1
                          then file_size - of_nat initial * BS else BS) in
         and_then (buf_read file_content (initial * BS) (unat copy_size)) (\<lambda>chunk.
         and_then (buf_write region (unat offset) chunk) (\<lambda>region.
           write_file_blocks s file_size file_content data_blocks needed_blocks
             (Suc initial) region)))
      else Inr region)"
  by pat_completeness auto
termination
  by (relation "measure (\<lambda>(s, file_size, file_content, data_blocks, needed_blocks,
        initial, region). needed_blocks - initial)") auto

text \<open>
  The new inode (lines 303 to 318), at byte offset \<^verbatim>\<open>(free_inode - 1) * INODE_SIZE\<close> of
  the inode table; the product is computed in 32-bit unsigned arithmetic.
\<close>

definition new_inode_offset :: "int \<Rightarrow> nat" where
  "new_inode_offset free_inode = unat ((of_int (free_inode - 1) :: u32) * INODE_SIZE)"

definition create_inode ::
    "u8 list \<Rightarrow> int \<Rightarrow> u64 \<Rightarrow> u64 \<Rightarrow> nat \<Rightarrow> u32 list \<Rightarrow> error + u8 list" where
  "create_inode table free_inode file_size now needed_blocks data_blocks =
     and_then (buf_read table (new_inode_offset free_inode) INODE_SIZE) (\<lambda>bs.
     and_then (inode_crc_finalize
        ((inode_of bs)\<lparr> mode := 0x8000, links := 1, uid := 0, gid := 0,
           size_bytes := file_size, atime := now, mtime := now, ctime := now,
           direct := map (\<lambda>initial. if initial < needed_blocks
                                     then data_blocks ! initial else 0) [0..<12],
           proj_id := 1234 \<rparr>)) (\<lambda>new_inode.
     buf_write table (new_inode_offset free_inode) (inode_bytes new_inode)))"

text \<open>
  Lines 324 to 326: the root inode is slot 0 of the inode table; its first direct pointer
  gives the byte offset of the root directory block, with the block index truncated to
  32 bits and the product with \<^verbatim>\<open>BS\<close> taken in 32-bit unsigned arithmetic.
\<close>

definition root_entries_offset :: "superblock \<Rightarrow> inode \<Rightarrow> nat" where
  "root_entries_offset s root =
     (let root_data_block = (ucast (ucast (direct root ! 0) - data_region_start s :: u64) :: u32)
      in unat (root_data_block * BS))"

text \<open>The scan of lines 331 to 336 for the first entry whose inode number is 0.\<close>

function scan_root_entries :: "u8 list \<Rightarrow> nat \<Rightarrow> nat \<Rightarrow> nat \<Rightarrow> error + nat option" where
  "scan_root_entries region root_off entry_count i =
     (if i < entry_count then
        and_then (buf_read region (root_off + i * 64) 4) (\<lambda>bs.
          if (rd_le bs :: u32) = 0 then Inr (Some i)
          else scan_root_entries region root_off entry_count (Suc i))
      else Inr None)"
  by pat_completeness auto
termination
  by (relation "measure (\<lambda>(region, root_off, entry_count, i). entry_count - i)") auto

text \<open>
  Lines 324 to 350: the index \<^verbatim>\<open>free_entry\<close> of the slot for the new entry, the byte
  offset of \<^verbatim>\<open>root_entries\<close> in the data region, and the inode table, in which the root
  inode has grown by one entry when the slot is appended.
\<close>

definition find_root_slot :: "image \<Rightarrow> error + (int \<times> nat \<times> u8 list)" where
  "find_root_slot m =
     and_then (buf_read (inode_table m) 0 INODE_SIZE) (\<lambda>bs.
     let root = inode_of bs;
         root_off = root_entries_offset (sb m) root;
         entry_count = size_bytes root div 64 in
     and_then (scan_root_entries (data_region m) root_off (unat entry_count) 0) (\<lambda>r.
     let free_entry = (case r of Some i \<Rightarrow> int_of_u64 (of_nat i) | None \<Rightarrow> - 1) in
     if free_entry = - 1 then
       (if entry_count \<ge> 64 then Inl RootDirectoryFull
        else
          and_then (inode_crc_finalize
             (root\<lparr>size_bytes := size_bytes root + 64\<rparr>)) (\<lambda>root.
          and_then (buf_write (inode_table m) 0 (inode_bytes root)) (\<lambda>table.
          Inr (int_of_u64 entry_count, root_off, table))))
     else Inr (free_entry, root_off, inode_table m)))"

text \<open>
  Lines 352 to 363: the entry at index \<^verbatim>\<open>free_entry\<close> of the root directory block. The
  name is cleared, then at most 57 bytes of \<^verbatim>\<open>file_name\<close> are copied and terminated.
\<close>

definition write_dirent :: "u8 list \<Rightarrow> nat \<Rightarrow> int \<Rightarrow> int \<Rightarrow> u8 list \<Rightarrow> error + u8 list" where
  "write_dirent region root_off free_entry free_inode file_name =
     (if free_entry < 0 then Inl OutOfBounds
      else
        and_then (buf_read region (root_off + nat free_entry * 64) 64) (\<lambda>bs.
        let name_len = (if strlen file_name > 57 then 57 else strlen file_name);
            nm = strncpy (replicate 58 0) file_name name_len;
            nm = nm[name_len := 0]
        in buf_write region (root_off + nat free_entry * 64)
             (dirent_bytes (dirent_checksum_finalize
                ((dirent_of bs)\<lparr> inode_no := of_int free_inode, type := 1, name := nm \<rparr>)))))"

text \<open>Lines 365 and 366: one more link on the root inode, and its checksum.\<close>

definition bump_root_links :: "u8 list \<Rightarrow> error + u8 list" where
  "bump_root_links table =
     and_then (buf_read table 0 INODE_SIZE) (\<lambda>bs.
     and_then (inode_crc_finalize ((inode_of bs)\<lparr>links := links (inode_of bs) + 1\<rparr>))
       (\<lambda>root. buf_write table 0 (inode_bytes root)))"

text \<open>
  Lines 234 to 366 on the loaded image. \<open>file\<close> is the content of the file to add if it
  can be opened; its size is what \<^verbatim>\<open>ftell\<close> reports at its end.
\<close>

definition insert_file :: "image \<Rightarrow> u8 list option \<Rightarrow> u8 list \<Rightarrow> u64 \<Rightarrow> error + image" where
  "insert_file m file file_name now =
     and_then (find_free_inode (inode_bitmap m) (inode_count (sb m))) (\<lambda>free_inode.
     if free_inode = - 1 then Inl NoFreeInodes
     else
     case file of
       None \<Rightarrow> Inl OpenFileFailed
     | Some bytes \<Rightarrow>
     let file_size = (of_nat (length bytes) :: u64);
         needed_blocks = (file_size + BS - 1) div BS in
     if needed_blocks > 12 then Inl FileTooLarge
     else
     and_then (alloc_data_blocks (sb m) (unat needed_blocks) 0 (replicate 12 0)
                 (data_bitmap m)) (\<lambda>(data_blocks, dbitmap).
     case fread1 \<lparr>contents = bytes, pos = 0\<rparr> (unat file_size) of
       None \<Rightarrow> Inl ReadFileFailed
     | Some (file_content, file_fp) \<Rightarrow>
     and_then (write_file_blocks (sb m) file_size file_content data_blocks
                 (unat needed_blocks) 0 (data_region m)) (\<lambda>dregion.
     and_then (create_inode (inode_table m) free_inode file_size now
                 (unat needed_blocks) data_blocks) (\<lambda>itable.
     and_then (set_bit_at (inode_bitmap m) (free_inode - 1)) (\<lambda>ibitmap.
     let m = m\<lparr> inode_bitmap := ibitmap, data_bitmap := dbitmap,
                inode_table := itable, data_region := dregion \<rparr> in
     and_then (find_root_slot m) (\<lambda>(free_entry, root_off, itable).
     and_then (write_dirent dregion root_off free_entry free_inode file_name) (\<lambda>dregion.
     and_then (bump_root_links itable) (\<lambda>itable.
     Inr (m\<lparr> inode_table := itable, data_region := dregion \<rparr>)))))))))"

text \<open>
  Writing the output image (lines 378 to 394): the 116 bytes of the superblock variable,
  then each region at the offset its start field gives.
\<close>

definition persist :: "image \<Rightarrow> u8 list" where
  "persist m =
     (let fp_out = fwrite1 \<lparr>contents = [], pos = 0\<rparr> (superblock_bytes (sb m));
          fp_out = fwrite1 (fseek_set fp_out (inode_bitmap_start (sb m) * BS)) (inode_bitmap m);
          fp_out = fwrite1 (fseek_set fp_out (data_bitmap_start (sb m) * BS)) (data_bitmap m);
          fp_out = fwrite1 (fseek_set fp_out (inode_table_start (sb m) * BS)) (inode_table m);
          fp_out = fwrite1 (fseek_set fp_out (data_region_start (sb m) * BS)) (data_region m)
      in contents fp_out)"

text \<open>
  \<^verbatim>\<open>main\<close> of mkfs_adder.c, for a command line that names the three files. \<open>input\<close>
  and \<open>file\<close> are the contents of the input image and of the file to add, \<open>None\<close> when
  \<^verbatim>\<open>fopen\<close> fails; \<open>file_name\<close> is the \<^verbatim>\<open>--file\<close> argument; \<open>now\<close> is the value of
  \<^verbatim>\<open>time(NULL)\<close>; \<open>can_create\<close> tells whether \<^verbatim>\<open>fopen\<close> of the output succeeds.
  \<^verbatim>\<open>malloc\<close> is taken to succeed. The result \<open>Inr\<close> is the content of the output image;
  \<open>Inl\<close> is an exit with \<^verbatim>\<open>EXIT_FAILURE\<close>, and every such exit comes before the output
  file is opened for writing or right when that fails, so no output is written.
\<close>

definition mkfs_adder ::
    "u8 list option \<Rightarrow> u8 list option \<Rightarrow> u8 list \<Rightarrow> u64 \<Rightarrow> bool \<Rightarrow> error + u8 list" where
  "mkfs_adder input file file_name now can_create =
     (case input of
        None \<Rightarrow> Inl OpenInputFailed
      | Some bytes \<Rightarrow>
        and_then (load_image bytes) (\<lambda>m.
        and_then (insert_file m file file_name now) (\<lambda>m.
        if \<not> can_create then Inl CreateOutputFailed else Inr (persist m))))"

section \<open>Reading an image\<close>

text \<open>
  The vocabulary of the statements below. \<open>bit_at\<close> is the test both search functions
  apply to a bitmap; \<open>direct12\<close> is a list of block pointers as the 12-element array holds
  it. The \<open>image_\<close> functions read the parts of an image file at the offsets its
  superblock gives: the bitmaps, the 128-byte slot \<open>j\<close> of the inode table, block \<open>k\<close> of
  the data region, and entry \<open>i\<close> of the root directory block, which the first direct
  pointer of the root inode (slot 0) names.
\<close>

definition bit_at :: "u8 list \<Rightarrow> nat \<Rightarrow> bool" where
  "bit_at bitmap i = (bitmap ! (i div 8) AND push_bit (i mod 8) 1 \<noteq> 0)"

definition bits_set :: "u8 list \<Rightarrow> nat set" where
  "bits_set bitmap = {i. i < 8 * length bitmap \<and> bit_at bitmap i}"

definition direct12 :: "u32 list \<Rightarrow> u32 list" where
  "direct12 d = map (\<lambda>i. if i < length d then d ! i else 0) [0..<12]"

definition image_superblock :: "u8 list \<Rightarrow> superblock" where
  "image_superblock img = superblock_of (field img 0 116)"

definition image_inode_bitmap :: "u8 list \<Rightarrow> u8 list" where
  "image_inode_bitmap img =
     field img (unat (inode_bitmap_start (image_superblock img)) * BS) BS"

definition image_data_bitmap :: "u8 list \<Rightarrow> u8 list" where
  "image_data_bitmap img =
     field img (unat (data_bitmap_start (image_superblock img)) * BS) BS"

definition image_inode_slot :: "u8 list \<Rightarrow> nat \<Rightarrow> u8 list" where
  "image_inode_slot img j =
     field img (unat (inode_table_start (image_superblock img)) * BS + j * INODE_SIZE) INODE_SIZE"

definition image_inode :: "u8 list \<Rightarrow> nat \<Rightarrow> inode" where
  "image_inode img j = inode_of (image_inode_slot img j)"

definition image_data_block :: "u8 list \<Rightarrow> nat \<Rightarrow> u8 list" where
  "image_data_block img k =
     field img ((unat (data_region_start (image_superblock img)) + k) * BS) BS"

definition image_root_block :: "u8 list \<Rightarrow> nat" where
  "image_root_block img =
     unat (direct (image_inode img 0) ! 0) - unat (data_region_start (image_superblock img))"

definition image_dirent :: "u8 list \<Rightarrow> nat \<Rightarrow> dirent64" where
  "image_dirent img i = dirent_of (field (image_data_block img (image_root_block img)) (i * 64) 64)"

text \<open>
  A valid superblock has the magic number and the fixed layout: the bitmaps in blocks 1
  and 2, the inode table from block 3, the data region right after it and up to the end of
  the image, which has at most the 1024 blocks of the largest size the builder accepts.
  A valid image has a valid superblock and its length, the bit of the root inode set in
  the inode bitmap, a root inode whose directory block lies in the data region and
  whose size is at most the one block, and an inode count that the inode table has the
  slots for (32 in each of its blocks).
\<close>

definition valid_superblock :: "superblock \<Rightarrow> bool" where
  "valid_superblock s =
     (magic s = 0x4D565346
      \<and> inode_bitmap_start s = 1 \<and> data_bitmap_start s = 2 \<and> inode_table_start s = 3
      \<and> 1 \<le> unat (inode_table_blocks s)
      \<and> unat (data_region_start s) = 3 + unat (inode_table_blocks s)
      \<and> 1 \<le> unat (data_region_blocks s)
      \<and> unat (total_blocks s) = unat (data_region_start s) + unat (data_region_blocks s)
      \<and> unat (total_blocks s) \<le> 1024)"

definition valid_image :: "u8 list \<Rightarrow> bool" where
  "valid_image img =
     (valid_superblock (image_superblock img)
      \<and> length img = unat (total_blocks (image_superblock img)) * BS
      \<and> bit_at (image_inode_bitmap img) 0
      \<and> unat (data_region_start (image_superblock img)) \<le> unat (direct (image_inode img 0) ! 0)
      \<and> unat (direct (image_inode img 0) ! 0) < unat (total_blocks (image_superblock img))
      \<and> unat (size_bytes (image_inode img 0)) \<le> BS
      \<and> unat (inode_count (image_superblock img)) * INODE_SIZE
          \<le> unat (inode_table_blocks (image_superblock img)) * BS)"

text \<open>
  A sequence of insert operations, each on the output image of the one before; a
  request is the file name, the file content and the time of the run. The sequence stops at
  the first run that fails.
\<close>

fun insert_all :: "u8 list \<Rightarrow> (u8 list \<times> u8 list \<times> u64) list \<Rightarrow> error + u8 list" where
  "insert_all img [] = Inr img"
| "insert_all img ((file_name, bytes, now) # rest) =
     and_then (mkfs_adder (Some img) (Some bytes) file_name now True) (\<lambda>img'.
       insert_all img' rest)"

text \<open>
  A bitmap of one block in which exactly the first \<open>d\<close> bits are set: the state the
  first-fit allocation keeps, since nothing ever clears a bit.
\<close>

definition dense :: "u8 list \<Rightarrow> nat \<Rightarrow> bool" where
  "dense bitmap d = (length bitmap = 4096 \<and> (\<forall>j<32768. bit_at bitmap j = (j < d)))"

text \<open>
  The inode number stored in entry \<open>i\<close> of the directory that starts at byte \<open>root_off\<close>
  of a data region, and the two quantities of the copy loop: the byte offset in the data
  region that the stored block number \<open>j\<close> leads to, and the number of bytes copied there.
\<close>

definition entry_inode_no :: "u8 list \<Rightarrow> nat \<Rightarrow> nat \<Rightarrow> u32" where
  "entry_inode_no region root_off i = rd32 region (root_off + i * 64)"

definition block_offset :: "superblock \<Rightarrow> u32 list \<Rightarrow> nat \<Rightarrow> nat" where
  "block_offset s data_blocks j = unat ((ucast (data_blocks ! j) - data_region_start s) * (BS :: u64))"

definition copy_size :: "u64 \<Rightarrow> nat \<Rightarrow> nat \<Rightarrow> nat" where
  "copy_size file_size needed_blocks j =
     unat (if j = needed_blocks - 1 then file_size - of_nat j * BS else (BS :: u64))"

text \<open>
  The root inode as slot 0 of an inode table holds it, the number of directory entries
  its size stands for, and an inode with the checksum that \<^verbatim>\<open>inode_crc_finalize\<close> stores.
\<close>

definition root_of :: "u8 list \<Rightarrow> inode" where
  "root_of table = inode_of (field table 0 INODE_SIZE)"

definition entry_count_of :: "inode \<Rightarrow> nat" where
  "entry_count_of root = unat (size_bytes root div 64)"

definition finalized :: "inode \<Rightarrow> inode" where
  "finalized ino = ino\<lparr>inode_crc := ucast (crc32_loop (inode_head ino) 0xFFFFFFFF XOR 0xFFFFFFFF)\<rparr>"

text \<open>
  The content of the 58-byte name field of a new directory entry: the file name cut to at
  most 57 bytes, then zero bytes.
\<close>

definition stored_name :: "u8 list \<Rightarrow> u8 list" where
  "stored_name file_name =
     take 57 (c_string file_name) @ replicate (58 - length (take 57 (c_string file_name))) 0"

text \<open>
  The image that a successful run of the builder writes (the image name plays no part in
  its content), and the two records the builder seeds it with: the root inode and a
  directory entry of the root directory.
\<close>

definition fresh_image :: "u64 \<Rightarrow> u64 \<Rightarrow> u64 \<Rightarrow> u8 list \<Rightarrow> u8 list" where
  "fresh_image size_kib inodes now beyond =
     (case mkfs_builder (Some []) size_kib inodes now beyond True of
        Inr img \<Rightarrow> img
      | Inl e \<Rightarrow> [])"

definition fresh_root :: "u64 \<Rightarrow> u64 \<Rightarrow> inode" where
  "fresh_root region_start now =
     finalized ((inode_of (replicate 128 0))\<lparr> mode := 0x4000, links := 2, uid := 0, gid := 0,
           size_bytes := 2 * 64, atime := now, mtime := now, ctime := now,
           direct := ucast region_start # replicate 11 0,
           proj_id := 1234 \<rparr>)"

definition seeded_dirent :: "u8 list \<Rightarrow> dirent64" where
  "seeded_dirent nm =
     dirent_checksum_finalize
       ((dirent_of (replicate 64 0))\<lparr> inode_no := 1, type := 2,
          name := strncpy (name (dirent_of (replicate 64 0))) nm 58 \<rparr>)"

definition patched :: "u8 list \<Rightarrow> nat \<Rightarrow> u8 list \<Rightarrow> u8 list" where
  "patched buf off bs = take off buf @ bs @ drop (off + length bs) buf"

text \<open>The regions of a raw image, as the input phase reads them.\<close>

definition loaded :: "u8 list \<Rightarrow> image" where
  "loaded img =
     (let s = image_superblock img in
      \<lparr> sb = s,
        inode_bitmap = field img 4096 4096,
        data_bitmap = field img 8192 4096,
        inode_table = field img 12288 (unat (inode_table_blocks s) * 4096),
        data_region = field img (12288 + unat (inode_table_blocks s) * 4096)
                        (unat (data_region_blocks s) * 4096) \<rparr>)"

text \<open>The entry that \<^verbatim>\<open>main\<close> writes over the 64 bytes \<open>old\<close> of a directory slot.\<close>

definition new_dirent :: "u8 list \<Rightarrow> int \<Rightarrow> u8 list \<Rightarrow> dirent64" where
  "new_dirent old free_inode file_name =
     dirent_checksum_finalize
       ((dirent_of old)\<lparr> inode_no := of_int free_inode, type := 1, name := stored_name file_name \<rparr>)"

text \<open>The inode that \<^verbatim>\<open>main\<close> writes over the 128 bytes \<open>old\<close> of the new inode's slot.\<close>

definition new_inode :: "u8 list \<Rightarrow> u64 \<Rightarrow> u64 \<Rightarrow> nat \<Rightarrow> u32 list \<Rightarrow> inode" where
  "new_inode old file_size now needed_blocks data_blocks =
     finalized ((inode_of old)\<lparr> mode := 0x8000, links := 1, uid := 0, gid := 0,
           size_bytes := file_size, atime := now, mtime := now, ctime := now,
           direct := map (\<lambda>initial. if initial < needed_blocks
                                     then data_blocks ! initial else 0) [0..<12],
           proj_id := 1234 \<rparr>)"

text \<open>The regions of the image of a successful build.\<close>

definition fresh_regions :: "superblock \<Rightarrow> u64 \<Rightarrow> image" where
  "fresh_regions s now =
     \<lparr> sb = s,
       inode_bitmap = (replicate 4096 0)[0 := 1],
       data_bitmap = (replicate 4096 0)[0 := 1],
       inode_table = patched (replicate (unat (inode_table_blocks s) * 4096) 0) 0
         (inode_bytes (fresh_root (data_region_start s) now)),
       data_region = patched (patched (replicate (unat (data_region_blocks s) * 4096) 0) 0
           (dirent_bytes (seeded_dirent [0x2E]))) 64
         (dirent_bytes (seeded_dirent [0x2E, 0x2E])) \<rparr>"

text \<open>
  The images that inserts into a new image go through: \<open>a\<close> inodes and \<open>d\<close> data blocks in
  use, the first ones, and a root directory at the start of the data region whose \<open>n\<close>
  entries are all taken.
\<close>

definition packed :: "image \<Rightarrow> nat \<Rightarrow> nat \<Rightarrow> nat \<Rightarrow> bool" where
  "packed m a d n =
     (valid_superblock (sb m)
      \<and> dense (inode_bitmap m) a \<and> dense (data_bitmap m) d
      \<and> length (inode_table m) = unat (inode_table_blocks (sb m)) * 4096
      \<and> length (data_region m) = unat (data_region_blocks (sb m)) * 4096
      \<and> 1 \<le> a \<and> 1 \<le> d
      \<and> direct (root_of (inode_table m)) ! 0 = ucast (data_region_start (sb m))
      \<and> size_bytes (root_of (inode_table m)) = of_nat (n * 64)
      \<and> n \<le> 64
      \<and> (\<forall>j<n. entry_inode_no (data_region m) 0 j \<noteq> 0)
      \<and> unat (inode_count (sb m)) * 128 \<le> length (inode_table m))"

text \<open>
  The reference for the checksums, stated apart from the code. CRC-32 is the bit-serial
  division by the polynomial \<open>0x04C11DB7\<close>, here in its reflected form \<open>0xEDB88320\<close>:
  each byte is added to the low bits of the register, which is then shifted right eight
  times, the polynomial being subtracted whenever a 1 falls out; the register starts
  with all bits set and is complemented at the end. The XOR of a list of bytes folds
  the bytes from the right.
\<close>

definition crc32_reference_shift :: "u32 \<Rightarrow> u32" where
  "crc32_reference_shift c = (if bit c 0 then drop_bit 1 c XOR 0xEDB88320 else drop_bit 1 c)"

definition crc32_reference_byte :: "u32 \<Rightarrow> u8 \<Rightarrow> u32" where
  "crc32_reference_byte c b = (crc32_reference_shift ^^ 8) (c XOR ucast b)"

definition crc32_reference :: "u8 list \<Rightarrow> u32" where
  "crc32_reference bs = NOT (foldl crc32_reference_byte (NOT 0) bs)"

definition xor_reference :: "u8 list \<Rightarrow> u8" where
  "xor_reference bs = foldr (XOR) bs 0"

text \<open>
  The layout of the images that inserts into a new image go through, without the
  condition on the entries of the root directory: an entry may have been freed.
\<close>

definition laid_out :: "image \<Rightarrow> nat \<Rightarrow> nat \<Rightarrow> nat \<Rightarrow> bool" where
  "laid_out m a d n =
     (valid_superblock (sb m)
      \<and> dense (inode_bitmap m) a \<and> dense (data_bitmap m) d
      \<and> length (inode_table m) = unat (inode_table_blocks (sb m)) * 4096
      \<and> length (data_region m) = unat (data_region_blocks (sb m)) * 4096
      \<and> 1 \<le> a \<and> 1 \<le> d
      \<and> direct (root_of (inode_table m)) ! 0 = ucast (data_region_start (sb m))
      \<and> size_bytes (root_of (inode_table m)) = of_nat (n * 64)
      \<and> n \<le> 64
      \<and> unat (inode_count (sb m)) * 128 \<le> length (inode_table m))"

text \<open>
  An image for concrete instances: the image \<open>img\<close> with the second entry of its first
  data block cleared, as a removal of that entry would leave it.
\<close>

definition with_freed_entry :: "u8 list \<Rightarrow> u8 list" where
  "with_freed_entry img =
     persist ((loaded img)\<lparr>data_region := patched (data_region (loaded img)) 64 (replicate 64 0)\<rparr>)"

section \<open>Codec facts\<close>

lemma length_le_bytes [simp]: "length (le_bytes n w) = n"
  by (induction n arbitrary: w) auto

lemma length_le16 [simp]: "length (le16 w) = 2"
  by (simp add: le16_def)

lemma length_le32 [simp]: "length (le32 w) = 4"
  by (simp add: le32_def)

lemma length_le64 [simp]: "length (le64 w) = 8"
  by (simp add: le64_def)

lemma length_superblock_bytes [simp]: "length (superblock_bytes s) = 116"
  by (simp add: superblock_bytes_def)

lemma length_direct_bytes [simp]: "length (direct_bytes d) = 48"
  by (simp add: direct_bytes_def length_concat comp_def sum_list_triv)

lemma length_inode_head [simp]: "length (inode_head ino) = 120"
  by (simp add: inode_head_def)

lemma length_inode_bytes [simp]: "length (inode_bytes ino) = 128"
  by (simp add: inode_bytes_def)

lemma length_name_bytes [simp]: "length (name_bytes n) = 58"
  by (simp add: name_bytes_def)

lemma length_dirent_head [simp]: "length (dirent_head de) = 63"
  by (simp add: dirent_head_def)

lemma length_dirent_bytes [simp]: "length (dirent_bytes de) = 64"
  by (simp add: dirent_bytes_def)

lemma inode_crc_finalize_eq:
  "inode_crc_finalize ino =
     Inr (ino\<lparr>inode_crc := ucast (crc32_loop (inode_head ino) 0xFFFFFFFF XOR 0xFFFFFFFF)\<rparr>)"
  by (simp add: inode_crc_finalize_def crc32_def inode_bytes_def Let_def)

section \<open>Claims about the checksum routines\<close>

text \<open>
  C1: the claim is that \<^verbatim>\<open>superblock_crc_finalize\<close> reads only the 116 bytes of the
  superblock record. The routine asks \<^verbatim>\<open>crc32\<close> for \<^verbatim>\<open>BS - 4 = 4092\<close> bytes from a
  record of 116 bytes: for every superblock, with reads confined to the record, the result
  is the out-of-bounds error, and the read reaches exactly the first 3976 bytes that
  follow the record.
\<close>

theorem superblock_crc_finalize_reads_past_record:
  "superblock_crc_finalize s [] = Inl OutOfBounds
   \<and> length (superblock_bytes (s\<lparr>superblock.checksum := 0\<rparr>)) = 116
   \<and> (superblock_crc_finalize s beyond = Inl OutOfBounds) = (length beyond < 3976)"
  by (simp add: superblock_crc_finalize_def crc32_def Let_def split: sum.splits)

section \<open>Sequencing and word arithmetic\<close>

lemma and_then_Inl [simp]: "and_then (Inl e) f = Inl e"
  by (simp add: and_then_def)

lemma and_then_Inr [simp]: "and_then (Inr x) f = f x"
  by (simp add: and_then_def)

lemma and_then_fails: "(\<And>x. \<exists>e. f x = Inl e) \<Longrightarrow> \<exists>e. and_then r f = Inl e"
  by (cases r) auto

lemma unat_mul_small:
  fixes x :: u64
  assumes "unat x * k < 2 ^ 64"
  shows "unat (x * of_nat k) = unat x * k"
proof (cases "unat x = 0")
  case True
  then show ?thesis by (simp add: unat_eq_0)
next
  case False
  then have "k \<le> unat x * k" by (cases "unat x") simp_all
  from this assms have "k < 2 ^ 64" by (rule le_less_trans)
  then have "unat (of_nat k :: u64) = k" by (simp add: unat_of_nat)
  then show ?thesis using assms unat_mult_lem [of x "of_nat k"] by simp
qed

section \<open>The geometry of a new image\<close>

lemma geometry_in_bounds:
  fixes size_kib inodes :: u64
  assumes "180 \<le> size_kib" "size_kib \<le> 4096" "size_kib mod 4 = 0"
    and "128 \<le> inodes" "inodes \<le> 512"
  shows "\<exists>g. compute_geometry size_kib inodes = Inr g
      \<and> unat (g_total_blocks g) = unat size_kib * 1024 div 4096
      \<and> unat (g_inode_table_blocks g) = (unat inodes * 128 + 4095) div 4096
      \<and> unat (g_data_region_start g) = 3 + unat (g_inode_table_blocks g)
      \<and> unat (g_data_region_start g) + unat (g_data_region_blocks g) = unat (g_total_blocks g)
      \<and> 1 \<le> unat (g_data_region_blocks g)"
proof -
  have s: "180 \<le> unat size_kib" "unat size_kib \<le> 4096"
    using assms by (simp_all add: word_le_nat_alt)
  have n: "128 \<le> unat inodes" "unat inodes \<le> 512"
    using assms by (simp_all add: word_le_nat_alt)
  let ?tb = "size_kib * 1024 div 4096"
  let ?itb = "(inodes * 128 + 4095) div 4096"
  have tb: "unat ?tb = unat size_kib * 1024 div 4096"
    using s by (simp add: unat_div unat_mul_small [of size_kib 1024, simplified])
  have "unat (inodes * 128 + 4095) = unat inodes * 128 + 4095"
    using n unat_add_lem [of "inodes * 128" 4095]
    by (simp add: unat_mul_small [of inodes 128, simplified])
  then have itb: "unat ?itb = (unat inodes * 128 + 4095) div 4096"
    by (simp only: unat_div) simp
  have itb_b: "unat ?itb \<le> 16" "4 \<le> unat ?itb"
    using n unfolding itb by simp_all
  have tb_b: "45 \<le> unat ?tb"
    using s unfolding tb by simp
  have drs: "unat (3 + ?itb) = 3 + unat ?itb"
    using itb_b unat_add_lem [of 3 ?itb] by simp
  have le: "3 + ?itb \<le> ?tb"
    using drs tb_b itb_b by (simp add: word_le_nat_alt)
  have drb: "unat (?tb - (3 + ?itb)) = unat ?tb - (3 + unat ?itb)"
    using le drs by (simp add: unat_sub)
  have nz: "\<not> (?tb - (3 + ?itb) < 1)"
    using drb tb_b itb_b by (simp add: word_less_nat_alt)
  have fin: "unat (3 + ?itb) + unat (?tb - (3 + ?itb)) = unat ?tb"
    "1 \<le> unat (?tb - (3 + ?itb))"
    using drb drs tb_b itb_b by linarith+
  have "compute_geometry size_kib inodes =
      Inr \<lparr> g_total_blocks = ?tb, g_inode_table_blocks = ?itb,
            g_data_region_start = 3 + ?itb,
            g_data_region_blocks = ?tb - (3 + ?itb) \<rparr>"
    using assms nz by (simp add: compute_geometry_def Let_def not_less add.commute)
  then show ?thesis
    using tb itb drs fin by (simp del: unat_div)
qed

lemma geometry_out_of_bounds:
  fixes size_kib inodes :: u64
  assumes "\<not> (180 \<le> size_kib \<and> size_kib \<le> 4096 \<and> size_kib mod 4 = 0
      \<and> 128 \<le> inodes \<and> inodes \<le> 512)"
  shows "compute_geometry size_kib inodes = Inl Usage"
  using assms by (auto simp add: compute_geometry_def not_le)

text \<open>
  C4: for \<open>size_kib\<close> in 180 to 4096 and a multiple of 4, and \<open>inodes\<close> in 128 to 512, the
  geometry is computed without error and without wrap-around: \<open>total_blocks\<close> is
  \<open>size_kib * 1024 / 4096\<close>, \<open>inode_table_blocks\<close> is \<open>inodes * 128 / 4096\<close> rounded up,
  \<open>data_region_start\<close> is 3 more, and \<open>data_region_blocks\<close> is the rest of the image and
  at least 1. Every other pair is rejected with the usage error.
\<close>

theorem compute_geometry_on_bounds:
  fixes size_kib inodes :: u64
  shows "(180 \<le> size_kib \<and> size_kib \<le> 4096 \<and> size_kib mod 4 = 0
            \<and> 128 \<le> inodes \<and> inodes \<le> 512 \<longrightarrow>
          (\<exists>g. compute_geometry size_kib inodes = Inr g
            \<and> unat (g_total_blocks g) = unat size_kib * 1024 div 4096
            \<and> unat (g_inode_table_blocks g) = (unat inodes * 128 + 4095) div 4096
            \<and> unat (g_data_region_start g) = 3 + unat (g_inode_table_blocks g)
            \<and> unat (g_data_region_start g) + unat (g_data_region_blocks g)
                = unat (g_total_blocks g)
            \<and> 1 \<le> unat (g_data_region_blocks g)))
       \<and> (\<not> (180 \<le> size_kib \<and> size_kib \<le> 4096 \<and> size_kib mod 4 = 0
              \<and> 128 \<le> inodes \<and> inodes \<le> 512) \<longrightarrow>
          compute_geometry size_kib inodes = Inl Usage)"
proof (intro conjI impI)
  assume "180 \<le> size_kib \<and> size_kib \<le> 4096 \<and> size_kib mod 4 = 0
      \<and> 128 \<le> inodes \<and> inodes \<le> 512"
  then show "\<exists>g. compute_geometry size_kib inodes = Inr g
      \<and> unat (g_total_blocks g) = unat size_kib * 1024 div 4096
      \<and> unat (g_inode_table_blocks g) = (unat inodes * 128 + 4095) div 4096
      \<and> unat (g_data_region_start g) = 3 + unat (g_inode_table_blocks g)
      \<and> unat (g_data_region_start g) + unat (g_data_region_blocks g) = unat (g_total_blocks g)
      \<and> 1 \<le> unat (g_data_region_blocks g)"
    by (elim conjE) (rule geometry_in_bounds)
next
  assume "\<not> (180 \<le> size_kib \<and> size_kib \<le> 4096 \<and> size_kib mod 4 = 0
      \<and> 128 \<le> inodes \<and> inodes \<le> 512)"
  then show "compute_geometry size_kib inodes = Inl Usage"
    by (rule geometry_out_of_bounds)
qed

theorem compute_geometry_on_bounds_witness:
  "(\<exists>g. compute_geometry 180 128 = Inr g
      \<and> unat (g_total_blocks g) = unat (180 :: u64) * 1024 div 4096
      \<and> unat (g_inode_table_blocks g) = (unat (128 :: u64) * 128 + 4095) div 4096
      \<and> unat (g_data_region_start g) = 3 + unat (g_inode_table_blocks g)
      \<and> unat (g_data_region_start g) + unat (g_data_region_blocks g) = unat (g_total_blocks g)
      \<and> 1 \<le> unat (g_data_region_blocks g))
   \<and> compute_geometry 178 128 = Inl Usage
   \<and> compute_geometry 4096 513 = Inl Usage"
proof -
  have a: "180 \<le> (180 :: u64) \<and> (180 :: u64) \<le> 4096 \<and> (180 :: u64) mod 4 = 0
      \<and> 128 \<le> (128 :: u64) \<and> (128 :: u64) \<le> 512"
    by simp
  have b: "\<not> (180 \<le> (178 :: u64) \<and> (178 :: u64) \<le> 4096 \<and> (178 :: u64) mod 4 = 0
      \<and> 128 \<le> (128 :: u64) \<and> (128 :: u64) \<le> 512)"
    by simp
  have c: "\<not> (180 \<le> (4096 :: u64) \<and> (4096 :: u64) \<le> 4096 \<and> (4096 :: u64) mod 4 = 0
      \<and> 128 \<le> (513 :: u64) \<and> (513 :: u64) \<le> 512)"
    by simp
  note 1 = compute_geometry_on_bounds [of 180 128, THEN conjunct1, THEN mp, OF a]
  note 2 = compute_geometry_on_bounds [of 178 128, THEN conjunct2, THEN mp, OF b]
  note 3 = compute_geometry_on_bounds [of 4096 513, THEN conjunct2, THEN mp, OF c]
  show ?thesis
    using 1 2 3 by (intro conjI)
qed

section \<open>Files beyond the twelve direct blocks\<close>

lemma needed_blocks_large:
  fixes bytes :: "u8 list"
  assumes "49152 < length bytes" "length bytes < 2 ^ 63"
  shows "((of_nat (length bytes) :: u64) + 4096 - 1) div 4096 > 12"
proof -
  let ?fs = "of_nat (length bytes) :: u64"
  have u: "unat ?fs = length bytes"
    using assms by (simp add: unat_of_nat)
  have "unat (?fs + 4095) = unat ?fs + 4095"
    using assms u unat_add_lem [of ?fs 4095] by simp
  then have "unat ((?fs + 4095) div 4096) = (length bytes + 4095) div 4096"
    using u by (simp only: unat_div) simp
  moreover have "13 \<le> (length bytes + 4095) div 4096"
    using assms by simp
  ultimately have "12 < unat ((?fs + 4095) div 4096)"
    by simp
  then have "12 < (?fs + 4095) div 4096"
    by (simp add: word_less_nat_alt)
  then show ?thesis
    by (simp add: add.commute)
qed

lemma insert_file_too_large:
  assumes "49152 < length bytes" "length bytes < 2 ^ 63"
  shows "\<exists>e. insert_file m (Some bytes) file_name now = Inl e"
  unfolding insert_file_def
  apply (rule and_then_fails)
  using needed_blocks_large [OF assms]
  apply (simp add: Let_def)
  done

section \<open>Round trips of the codecs\<close>

lemma rd_le_le_bytes: "rd_le (le_bytes n w) = take_bit (8 * n) w"
proof (induction n arbitrary: w)
  case 0
  show ?case by simp
next
  case (Suc n)
  have "ucast (ucast w :: u8) OR push_bit 8 (take_bit (8 * n) (drop_bit 8 w))
      = take_bit (8 * Suc n) w"
  proof (rule bit_word_eqI)
    fix m
    assume m: "m < LENGTH('a)"
    show "bit (ucast (ucast w :: u8) OR push_bit 8 (take_bit (8 * n) (drop_bit 8 w))) m
        = bit (take_bit (8 * Suc n) w) m"
    proof (cases "m < 8")
      case True
      with m show ?thesis by (simp add: bit_simps)
    next
      case False
      then have "8 + (m - 8) = m" by simp
      with False m show ?thesis by (auto simp add: bit_simps)
    qed
  qed
  then show ?case by (simp add: Suc)
qed

lemma le_bytes_take_bit:
  fixes w :: "'a::len word"
  shows "8 * n \<le> k \<Longrightarrow> le_bytes n (take_bit k w) = le_bytes n w"
proof (induction n arbitrary: k w)
  case 0
  show ?case by simp
next
  case (Suc n)
  have a: "(ucast (take_bit k w) :: u8) = ucast w"
    using Suc.prems by (intro bit_word_eqI) (auto simp: bit_simps)
  have b: "drop_bit 8 (take_bit k w) = take_bit (k - 8) (drop_bit 8 w)"
    using Suc.prems by (intro bit_word_eqI) (auto simp: bit_simps)
  show ?case
    using Suc.prems by (simp add: a b Suc.IH)
qed

lemma le_bytes_rd_le:
  "8 * length bs \<le> LENGTH('a::len) \<Longrightarrow> le_bytes (length bs) (rd_le bs :: 'a word) = bs"
proof (induction bs)
  case Nil
  show ?case by simp
next
  case (Cons b bs)
  let ?r = "rd_le bs :: 'a word"
  from Cons.prems have L: "8 \<le> LENGTH('a)" by simp
  have 1: "ucast (ucast b OR push_bit 8 ?r) = b"
  proof (rule bit_word_eqI)
    fix m
    assume "m < LENGTH(8)"
    then have "m < 8" by simp
    with L show "bit (ucast (ucast b OR push_bit 8 ?r) :: u8) m = bit b m"
      by (simp add: bit_simps)
  qed
  have 2: "drop_bit 8 (ucast b OR push_bit 8 ?r) = take_bit (LENGTH('a) - 8) ?r"
  proof (rule bit_word_eqI)
    fix m
    assume "m < LENGTH('a)"
    then show "bit (drop_bit 8 (ucast b OR push_bit 8 ?r)) m
        = bit (take_bit (LENGTH('a) - 8) ?r) m"
      by (auto simp add: bit_simps dest: bit_imp_le_length)
  qed
  have 3: "8 * length bs \<le> LENGTH('a) - 8"
    using Cons.prems by simp
  have IH: "le_bytes (length bs) ?r = bs"
    using Cons.prems Cons.IH by simp
  have "le_bytes (length (b # bs)) (rd_le (b # bs) :: 'a word)
      = ucast (ucast b OR push_bit 8 ?r)
        # le_bytes (length bs) (drop_bit 8 (ucast b OR push_bit 8 ?r))"
    by (simp only: rd_le.simps length_Cons le_bytes.simps)
  also have "\<dots> = b # le_bytes (length bs) (take_bit (LENGTH('a) - 8) ?r)"
    by (simp only: 1 2)
  also have "\<dots> = b # bs"
    by (simp only: le_bytes_take_bit [OF 3] IH)
  finally show ?case .
qed

lemma rd_le16 [simp]: "(rd_le (le16 w) :: u16) = w"
  by (simp add: le16_def rd_le_le_bytes take_bit_word_eq_self)

lemma rd_le32 [simp]: "(rd_le (le32 w) :: u32) = w"
  by (simp add: le32_def rd_le_le_bytes take_bit_word_eq_self)

lemma rd_le64 [simp]: "(rd_le (le64 w) :: u64) = w"
  by (simp add: le64_def rd_le_le_bytes take_bit_word_eq_self)

lemma le16_rd_le: "length bs = 2 \<Longrightarrow> le16 (rd_le bs) = bs"
  using le_bytes_rd_le [of bs, where 'a = 16] by (simp add: le16_def)

lemma le32_rd_le: "length bs = 4 \<Longrightarrow> le32 (rd_le bs) = bs"
  using le_bytes_rd_le [of bs, where 'a = 32] by (simp add: le32_def)

lemma le64_rd_le: "length bs = 8 \<Longrightarrow> le64 (rd_le bs) = bs"
  using le_bytes_rd_le [of bs, where 'a = 64] by (simp add: le64_def)

lemma field_append_left: "off + n \<le> length xs \<Longrightarrow> field (xs @ ys) off n = field xs off n"
  by (simp add: field_def)

lemma field_append_right:
  "length xs \<le> off \<Longrightarrow> field (xs @ ys) off n = field ys (off - length xs) n"
  by (simp add: field_def)

lemma field_all: "length xs = n \<Longrightarrow> field xs 0 n = xs"
  by (simp add: field_def)

lemma field_head: "length xs = n \<Longrightarrow> field (xs @ ys) 0 n = xs"
  by (simp add: field_def)

lemma superblock_of_bytes [simp]: "superblock_of (superblock_bytes s) = s"
  by (cases s) (simp add: superblock_of_def superblock_bytes_def rd32_def rd64_def
      field_append_right field_head field_all)

lemma take_drop_chain: "take n (drop k xs) @ drop (k + n) xs = drop k xs"
  by (metis add.commute append_take_drop_id drop_drop)

lemma superblock_bytes_of:
  assumes "length bs = 116"
  shows "superblock_bytes (superblock_of bs) = bs"
proof -
  have last: "take 4 (drop 112 bs) = drop 112 bs"
    using assms by simp
  have "superblock_bytes (superblock_of bs) =
      take 4 (drop 0 bs) @ take 4 (drop 4 bs) @ take 4 (drop 8 bs) @ take 8 (drop 12 bs)
      @ take 8 (drop 20 bs) @ take 8 (drop 28 bs) @ take 8 (drop 36 bs) @ take 8 (drop 44 bs)
      @ take 8 (drop 52 bs) @ take 8 (drop 60 bs) @ take 8 (drop 68 bs) @ take 8 (drop 76 bs)
      @ take 8 (drop 84 bs) @ take 8 (drop 92 bs) @ take 8 (drop 100 bs) @ take 4 (drop 108 bs)
      @ take 4 (drop 112 bs)"
    using assms
    by (simp add: superblock_bytes_def superblock_of_def rd32_def rd64_def field_def
        le32_rd_le le64_rd_le)
  also have "\<dots> = bs"
    unfolding last
    using take_drop_chain [of 4 108 bs] take_drop_chain [of 8 100 bs]
      take_drop_chain [of 8 92 bs] take_drop_chain [of 8 84 bs] take_drop_chain [of 8 76 bs]
      take_drop_chain [of 8 68 bs] take_drop_chain [of 8 60 bs] take_drop_chain [of 8 52 bs]
      take_drop_chain [of 8 44 bs] take_drop_chain [of 8 36 bs] take_drop_chain [of 8 28 bs]
      take_drop_chain [of 8 20 bs] take_drop_chain [of 8 12 bs] take_drop_chain [of 4 8 bs]
      take_drop_chain [of 4 4 bs] take_drop_chain [of 4 0 bs]
    by simp
  finally show ?thesis .
qed

lemma upt_12: "[0..<12] = [0, 1, 2, 3, 4, 5, 6, 7, 8, 9, 10, 11 :: nat]"
  by (simp add: upt_rec)

lemma direct12_id: "length d = 12 \<Longrightarrow> direct12 d = d"
  unfolding direct12_def
  by (rule nth_equalityI) simp_all

lemma length_direct12 [simp]: "length (direct12 d) = 12"
  by (simp add: direct12_def)

lemma direct_bytes_direct12: "direct_bytes (direct12 d) = direct_bytes d"
  unfolding direct_bytes_def direct12_def
  by (rule arg_cong [where f = concat], rule map_cong) simp_all

lemma inode_of_bytes: "inode_of (inode_bytes ino) = ino\<lparr>direct := direct12 (direct ino)\<rparr>"
  apply (cases ino)
  apply (simp add: inode_of_def inode_bytes_def inode_head_def direct_bytes_def direct12_def
      upt_12 rd16_def rd32_def rd64_def field_append_right field_head field_all)
  done

lemma dirent_of_bytes: "dirent_of (dirent_bytes de) = de\<lparr>name := name_bytes (name de)\<rparr>"
proof -
  have a: "dirent_bytes de ! 4 = type de"
    by (simp add: dirent_bytes_def dirent_head_def nth_append)
  have b: "dirent_bytes de ! 63 = dirent64.checksum de"
    by (simp add: dirent_bytes_def nth_append)
  have c: "field (dirent_bytes de) 5 58 = name_bytes (name de)"
    by (simp add: dirent_bytes_def dirent_head_def field_def)
  have d: "rd32 (dirent_bytes de) 0 = inode_no de"
    by (simp add: dirent_bytes_def dirent_head_def rd32_def field_def)
  have "dirent_of (dirent_bytes de) =
      \<lparr> inode_no = inode_no de, type = type de, name = name_bytes (name de),
        checksum = dirent64.checksum de \<rparr>"
    by (simp add: dirent_of_def a b c d)
  then show ?thesis
    by (cases de) simp
qed

section \<open>Signed readings\<close>

lemma sint_u64_small:
  fixes w :: u64
  assumes "unat w < 2 ^ 63"
  shows "sint w = int (unat w)"
proof -
  have "int (unat w) < int (2 ^ 63)"
    using assms by (simp only: of_nat_less_iff)
  then have lt: "uint w < 2 ^ 63"
    by simp
  have "- (2 ^ 63) \<le> (0 :: int)"
    by simp
  also have "0 \<le> uint w"
    by simp
  finally have ge: "- (2 ^ 63) \<le> uint w" .
  have "signed_take_bit 63 (uint w) = uint w"
    using ge lt by (rule signed_take_bit_int_eq_self)
  then have "sint w = uint w"
    by (simp add: sint_uint)
  then show ?thesis
    by simp
qed

lemma int_of_u64_small:
  assumes "i < 2 ^ 31"
  shows "int_of_u64 (of_nat i) = int i"
proof -
  have i64: "i < 2 ^ 64" and i32: "i < 2 ^ 32"
    using assms by simp_all
  have c: "(ucast (of_nat i :: u64) :: u32) = of_nat i"
    using i64 by (simp add: unsigned_of_nat take_bit_nat_eq_self)
  have "unat (of_nat i :: u32) = i"
    using i32 by (simp add: unat_of_nat)
  then have u: "uint (of_nat i :: u32) = int i"
    by (simp only: uint_nat)
  have "int i < int (2 ^ 31)"
    using assms by (simp only: of_nat_less_iff)
  then have lt: "int i < 2 ^ 31"
    by simp
  have "- (2 ^ 31) \<le> (0 :: int)"
    by simp
  also have "0 \<le> int i"
    by simp
  finally have ge: "- (2 ^ 31) \<le> int i" .
  have "signed_take_bit 31 (int i) = int i"
    using ge lt by (rule signed_take_bit_int_eq_self)
  then have "sint (of_nat i :: u32) = int i"
    by (simp only: sint_uint u) simp
  then show ?thesis
    by (simp only: int_of_u64_def c)
qed

lemma unat_times_BS:
  fixes x :: u64
  assumes "unat x \<le> 1024"
  shows "unat (x * 4096) = unat x * 4096" and "\<not> sint (x * 4096) < 0"
proof -
  show u: "unat (x * 4096) = unat x * 4096"
    using assms unat_mul_small [of x 4096] by simp
  have "unat (x * 4096) < 2 ^ 63"
    using assms u by simp
  then show "\<not> sint (x * 4096) < 0"
    by (simp add: sint_u64_small)
qed

section \<open>Buffers\<close>

lemma buf_read_Inr: "off + n \<le> length buf \<Longrightarrow> buf_read buf off n = Inr (field buf off n)"
  by (simp add: buf_read_def field_def)

lemma buf_read_cases:
  "buf_read buf off n = Inr bs \<Longrightarrow> off + n \<le> length buf \<and> bs = field buf off n"
  by (simp add: buf_read_def field_def split: if_splits)

lemma length_field: "off + n \<le> length buf \<Longrightarrow> length (field buf off n) = n"
  by (simp add: field_def)

lemma buf_write_Inr:
  "off + length bs \<le> length buf \<Longrightarrow>
     buf_write buf off bs = Inr (take off buf @ bs @ drop (off + length bs) buf)"
  by (simp add: buf_write_def)

lemma buf_write_cases:
  "buf_write buf off bs = Inr buf' \<Longrightarrow>
     off + length bs \<le> length buf \<and> buf' = take off buf @ bs @ drop (off + length bs) buf"
  by (simp add: buf_write_def split: if_splits)

lemma length_patched: "off + length bs \<le> length buf \<Longrightarrow> length (patched buf off bs) = length buf"
  by (simp add: patched_def)

lemma nth_patched_outside:
  assumes "off + length bs \<le> length buf" "p < off \<or> off + length bs \<le> p" "p < length buf"
  shows "patched buf off bs ! p = buf ! p"
proof (cases "p < off")
  case True
  then show ?thesis using assms by (simp add: patched_def nth_append)
next
  case False
  with assms have ge: "off + length bs \<le> p" by simp
  then have "\<not> p - off < length bs" by simp
  moreover have "off + length bs + (p - off - length bs) = p"
    using ge by simp
  ultimately show ?thesis
    using assms False by (simp add: patched_def nth_append)
qed

lemma field_patched_same:
  "off + length bs \<le> length buf \<Longrightarrow> field (patched buf off bs) off (length bs) = bs"
  by (simp add: patched_def field_def)

lemma field_cong_nth:
  assumes "off + n \<le> length xs" "off + n \<le> length ys"
    and "\<And>p. off \<le> p \<Longrightarrow> p < off + n \<Longrightarrow> xs ! p = ys ! p"
  shows "field xs off n = field ys off n"
proof (rule nth_equalityI)
  show "length (field xs off n) = length (field ys off n)"
    using assms(1,2) by (simp add: field_def)
next
  fix i
  assume "i < length (field xs off n)"
  then have i: "i < n"
    by (simp add: field_def)
  then have "xs ! (off + i) = ys ! (off + i)"
    by (intro assms(3)) simp_all
  then show "field xs off n ! i = field ys off n ! i"
    using i assms(1,2) by (simp add: field_def)
qed

lemma field_patched_outside:
  assumes "off + length bs \<le> length buf" "o2 + n \<le> length buf"
    and "o2 + n \<le> off \<or> off + length bs \<le> o2"
  shows "field (patched buf off bs) o2 n = field buf o2 n"
proof (rule field_cong_nth)
  show "o2 + n \<le> length (patched buf off bs)"
    using assms by (simp add: length_patched)
  show "o2 + n \<le> length buf"
    by (rule assms)
next
  fix p
  assume "o2 \<le> p" "p < o2 + n"
  with assms have "p < off \<or> off + length bs \<le> p" "p < length buf"
    by auto
  with assms(1) show "patched buf off bs ! p = buf ! p"
    by (intro nth_patched_outside)
qed

lemma field_field:
  assumes "o2 + n \<le> m" "off + m \<le> length buf"
  shows "field (field buf off m) o2 n = field buf (off + o2) n"
proof (rule nth_equalityI)
  show "length (field (field buf off m) o2 n) = length (field buf (off + o2) n)"
    using assms by (simp add: field_def)
next
  fix i
  assume "i < length (field (field buf off m) o2 n)"
  then have "i < n"
    by (simp add: field_def)
  then show "field (field buf off m) o2 n ! i = field buf (off + o2) n ! i"
    using assms by (simp add: field_def add.assoc)
qed

lemma buf_write_patched:
  "off + length bs \<le> length buf \<Longrightarrow> buf_write buf off bs = Inr (patched buf off bs)"
  by (simp add: buf_write_def patched_def)

lemma buf_write_result:
  "buf_write buf off bs = Inr buf' \<Longrightarrow>
     off + length bs \<le> length buf \<and> buf' = patched buf off bs"
  by (simp add: buf_write_def patched_def split: if_splits)

section \<open>Streams\<close>

lemma fwrite1_append:
  "fwrite1 \<lparr>contents = c, pos = length c\<rparr> bs = \<lparr>contents = c @ bs, pos = length c + length bs\<rparr>"
  by (simp add: fwrite1_def Let_def)

lemma fread1_Some:
  "n \<noteq> 0 \<Longrightarrow> p + n \<le> length c \<Longrightarrow>
     fread1 \<lparr>contents = c, pos = p\<rparr> n = Some (field c p n, \<lparr>contents = c, pos = p + n\<rparr>)"
  by (simp add: fread1_def field_def)

lemma fseek_set_ok:
  "\<not> sint off < 0 \<Longrightarrow> fseek_set \<lparr>contents = c, pos = p\<rparr> off = \<lparr>contents = c, pos = unat off\<rparr>"
  by (simp add: fseek_set_def)

section \<open>Images with a valid superblock\<close>

lemma valid_superblock_offsets:
  assumes "valid_superblock s"
  shows "unat (inode_bitmap_start s * 4096) = 4096" "\<not> sint (inode_bitmap_start s * 4096) < 0"
    and "unat (data_bitmap_start s * 4096) = 8192" "\<not> sint (data_bitmap_start s * 4096) < 0"
    and "unat (inode_table_start s * 4096) = 12288" "\<not> sint (inode_table_start s * 4096) < 0"
    and "unat (inode_table_blocks s * 4096) = unat (inode_table_blocks s) * 4096"
    and "unat (data_region_start s * 4096) = 12288 + unat (inode_table_blocks s) * 4096"
    and "\<not> sint (data_region_start s * 4096) < 0"
    and "unat (data_region_blocks s * 4096) = unat (data_region_blocks s) * 4096"
    and "unat (total_blocks s) * 4096 =
      12288 + unat (inode_table_blocks s) * 4096 + unat (data_region_blocks s) * 4096"
proof -
  have v: "inode_bitmap_start s = 1" "data_bitmap_start s = 2" "inode_table_start s = 3"
    "1 \<le> unat (inode_table_blocks s)"
    "unat (data_region_start s) = 3 + unat (inode_table_blocks s)"
    "1 \<le> unat (data_region_blocks s)"
    "unat (total_blocks s) = unat (data_region_start s) + unat (data_region_blocks s)"
    "unat (total_blocks s) \<le> 1024"
    using assms by (simp_all add: valid_superblock_def)
  show "unat (inode_bitmap_start s * 4096) = 4096" "\<not> sint (inode_bitmap_start s * 4096) < 0"
    "unat (data_bitmap_start s * 4096) = 8192" "\<not> sint (data_bitmap_start s * 4096) < 0"
    "unat (inode_table_start s * 4096) = 12288" "\<not> sint (inode_table_start s * 4096) < 0"
    by (simp_all add: v)
  have b: "unat (inode_table_blocks s) \<le> 1024" "unat (data_region_start s) \<le> 1024"
    "unat (data_region_blocks s) \<le> 1024"
    using v by simp_all
  show "unat (inode_table_blocks s * 4096) = unat (inode_table_blocks s) * 4096"
    using unat_times_BS(1) [OF b(1)] .
  show "unat (data_region_start s * 4096) = 12288 + unat (inode_table_blocks s) * 4096"
    using unat_times_BS(1) [OF b(2)] v by simp
  show "\<not> sint (data_region_start s * 4096) < 0"
    using unat_times_BS(2) [OF b(2)] .
  show "unat (data_region_blocks s * 4096) = unat (data_region_blocks s) * 4096"
    using unat_times_BS(1) [OF b(3)] .
  show "unat (total_blocks s) * 4096 =
      12288 + unat (inode_table_blocks s) * 4096 + unat (data_region_blocks s) * 4096"
    using v by simp
qed

lemma load_image_valid:
  assumes v: "valid_superblock (image_superblock img)"
    and len: "length img = unat (total_blocks (image_superblock img)) * 4096"
  shows "load_image img = Inr (loaded img)"
proof -
  let ?s = "image_superblock img"
  note o = valid_superblock_offsets [OF v]
  have itb: "1 \<le> unat (inode_table_blocks ?s)" and drb: "1 \<le> unat (data_region_blocks ?s)"
    and mg: "magic ?s = 0x4D565346"
    using v by (simp_all add: valid_superblock_def)
  have L: "length img = 12288 + unat (inode_table_blocks ?s) * 4096
      + unat (data_region_blocks ?s) * 4096"
    using len o(11) by simp
  have r0: "fread1 \<lparr>contents = img, pos = 0\<rparr> 116
      = Some (field img 0 116, \<lparr>contents = img, pos = 116\<rparr>)"
    using L fread1_Some [of 116 0 img] by simp
  have r1: "fread1 (fseek_set \<lparr>contents = img, pos = 116\<rparr> (inode_bitmap_start ?s * 4096)) 4096
      = Some (field img 4096 4096, \<lparr>contents = img, pos = 8192\<rparr>)"
    using L fread1_Some [of 4096 4096 img] by (simp add: fseek_set_ok o)
  have r2: "fread1 (fseek_set \<lparr>contents = img, pos = 8192\<rparr> (data_bitmap_start ?s * 4096)) 4096
      = Some (field img 8192 4096, \<lparr>contents = img, pos = 12288\<rparr>)"
    using L fread1_Some [of 4096 8192 img] by (simp add: fseek_set_ok o)
  have r3: "fread1 (fseek_set \<lparr>contents = img, pos = 12288\<rparr> (inode_table_start ?s * 4096))
        (unat (inode_table_blocks ?s * 4096))
      = Some (field img 12288 (unat (inode_table_blocks ?s) * 4096),
          \<lparr>contents = img, pos = 12288 + unat (inode_table_blocks ?s) * 4096\<rparr>)"
    using L itb fread1_Some [of "unat (inode_table_blocks ?s) * 4096" 12288 img]
    by (simp add: fseek_set_ok o)
  have r4: "fread1 (fseek_set \<lparr>contents = img, pos = 12288 + unat (inode_table_blocks ?s) * 4096\<rparr>
          (data_region_start ?s * 4096)) (unat (data_region_blocks ?s * 4096))
      = Some (field img (12288 + unat (inode_table_blocks ?s) * 4096)
            (unat (data_region_blocks ?s) * 4096),
          \<lparr>contents = img, pos = 12288 + unat (inode_table_blocks ?s) * 4096
            + unat (data_region_blocks ?s) * 4096\<rparr>)"
    using L drb fread1_Some [of "unat (data_region_blocks ?s) * 4096"
        "12288 + unat (inode_table_blocks ?s) * 4096" img]
    by (simp add: fseek_set_ok o)
  have sbe: "superblock_of (field img 0 116) = ?s"
    by (simp add: image_superblock_def)
  show ?thesis
    unfolding load_image_def Let_def r0 option.case prod.case sbe
    using mg
    by (simp only: r1 r2 r3 r4 option.case prod.case loaded_def Let_def if_False simp_thms)
qed

lemma fwrite1_gap:
  assumes "length c \<le> p" "bs \<noteq> []"
  shows "fwrite1 \<lparr>contents = c, pos = p\<rparr> bs
    = \<lparr>contents = c @ replicate (p - length c) 0 @ bs, pos = p + length bs\<rparr>"
  using assms by (simp add: fwrite1_def Let_def)

lemma persist_layout:
  assumes v: "valid_superblock (sb m)"
    and l: "length (inode_bitmap m) = 4096" "length (data_bitmap m) = 4096"
      "length (inode_table m) = unat (inode_table_blocks (sb m)) * 4096"
      "length (data_region m) = unat (data_region_blocks (sb m)) * 4096"
  shows "persist m = superblock_bytes (sb m) @ replicate 3980 0 @ inode_bitmap m
      @ data_bitmap m @ inode_table m @ data_region m"
proof -
  let ?s = "sb m"
  note o = valid_superblock_offsets [OF v]
  have itb: "1 \<le> unat (inode_table_blocks ?s)" and drb: "1 \<le> unat (data_region_blocks ?s)"
    using v by (simp_all add: valid_superblock_def)
  have ne: "inode_bitmap m \<noteq> []" "data_bitmap m \<noteq> []" "inode_table m \<noteq> []" "data_region m \<noteq> []"
    using l itb drb by auto
  let ?c0 = "superblock_bytes ?s"
  let ?c1 = "?c0 @ replicate 3980 0 @ inode_bitmap m"
  let ?c2 = "?c1 @ data_bitmap m"
  let ?c3 = "?c2 @ inode_table m"
  have w0: "fwrite1 \<lparr>contents = [], pos = 0\<rparr> ?c0 = \<lparr>contents = ?c0, pos = 116\<rparr>"
    using fwrite1_append [of "[]" ?c0] by simp
  have w1: "fwrite1 (fseek_set \<lparr>contents = ?c0, pos = 116\<rparr> (inode_bitmap_start ?s * 4096))
      (inode_bitmap m) = \<lparr>contents = ?c1, pos = 8192\<rparr>"
    using fwrite1_gap [of ?c0 4096 "inode_bitmap m"] ne l
    by (simp add: fseek_set_ok o)
  have w2: "fwrite1 (fseek_set \<lparr>contents = ?c1, pos = 8192\<rparr> (data_bitmap_start ?s * 4096))
      (data_bitmap m) = \<lparr>contents = ?c2, pos = 12288\<rparr>"
    using fwrite1_append [of ?c1 "data_bitmap m"] l
    by (simp add: fseek_set_ok o)
  have w3: "fwrite1 (fseek_set \<lparr>contents = ?c2, pos = 12288\<rparr> (inode_table_start ?s * 4096))
      (inode_table m) = \<lparr>contents = ?c3, pos = 12288 + unat (inode_table_blocks ?s) * 4096\<rparr>"
    using fwrite1_append [of ?c2 "inode_table m"] l
    by (simp add: fseek_set_ok o)
  have w4: "fwrite1 (fseek_set \<lparr>contents = ?c3, pos = 12288 + unat (inode_table_blocks ?s) * 4096\<rparr>
        (data_region_start ?s * 4096)) (data_region m)
      = \<lparr>contents = ?c3 @ data_region m,
          pos = 12288 + unat (inode_table_blocks ?s) * 4096 + length (data_region m)\<rparr>"
    using fwrite1_append [of ?c3 "data_region m"] l
    by (simp add: fseek_set_ok o)
  show ?thesis
    unfolding persist_def Let_def w0 w1 w2 w3 w4
    by simp
qed

lemma and_then_Inr_iff: "and_then r f = Inr y \<longleftrightarrow> (\<exists>x. r = Inr x \<and> f x = Inr y)"
  by (cases r) simp_all


lemma if_Inl_eq_Inr: "((if c then Inl e else r) = Inr y) = (\<not> c \<and> r = Inr y)"
  by simp

lemma case_option_eq_Inr:
  "((case x of None \<Rightarrow> Inl e | Some b \<Rightarrow> f b) = Inr y) = (\<exists>b. x = Some b \<and> f b = Inr y)"
  by (cases x) simp_all

lemma case_prod_eq_Inr:
  "((case p of (a, b) \<Rightarrow> f a b) = Inr y) = (\<exists>a b. p = (a, b) \<and> f a b = Inr y)"
  by (cases p) simp

lemma insert_file_steps:
  assumes "insert_file m file file_name now = Inr m'"
  shows "\<exists>free_inode bytes data_blocks dbitmap file_content file_fp dregion1 itable1 ibitmap
      free_entry root_off itable2 dregion2 itable3.
      find_free_inode (inode_bitmap m) (inode_count (sb m)) = Inr free_inode
    \<and> free_inode \<noteq> - 1
    \<and> file = Some bytes
    \<and> \<not> ((of_nat (length bytes) :: u64) + 4096 - 1) div 4096 > 12
    \<and> alloc_data_blocks (sb m) (unat (((of_nat (length bytes) :: u64) + 4096 - 1) div 4096)) 0
         (replicate 12 0) (data_bitmap m) = Inr (data_blocks, dbitmap)
    \<and> fread1 \<lparr>contents = bytes, pos = 0\<rparr> (unat (of_nat (length bytes) :: u64))
         = Some (file_content, file_fp)
    \<and> write_file_blocks (sb m) (of_nat (length bytes)) file_content data_blocks
         (unat (((of_nat (length bytes) :: u64) + 4096 - 1) div 4096)) 0 (data_region m)
         = Inr dregion1
    \<and> create_inode (inode_table m) free_inode (of_nat (length bytes)) now
         (unat (((of_nat (length bytes) :: u64) + 4096 - 1) div 4096)) data_blocks = Inr itable1
    \<and> set_bit_at (inode_bitmap m) (free_inode - 1) = Inr ibitmap
    \<and> find_root_slot (m\<lparr> inode_bitmap := ibitmap, data_bitmap := dbitmap,
                inode_table := itable1, data_region := dregion1 \<rparr>)
         = Inr (free_entry, root_off, itable2)
    \<and> write_dirent dregion1 root_off free_entry free_inode file_name = Inr dregion2
    \<and> bump_root_links itable2 = Inr itable3
    \<and> m' = m\<lparr> inode_bitmap := ibitmap, data_bitmap := dbitmap,
                inode_table := itable3, data_region := dregion2 \<rparr>"
proof -
  note a = assms [unfolded insert_file_def Let_def and_then_Inr_iff if_Inl_eq_Inr
      case_option_eq_Inr case_prod_eq_Inr sum.inject]
  from a show ?thesis
    by (elim exE conjE, hypsubst) (intro exI conjI; (assumption | rule refl | simp))
qed

lemma insert_file_keeps_superblock:
  assumes "insert_file m file file_name now = Inr m'"
  shows "sb m' = sb m"
proof -
  from insert_file_steps [OF assms] obtain ibitmap dbitmap itable3 dregion2 where
    "m' = m\<lparr> inode_bitmap := ibitmap, data_bitmap := dbitmap,
                inode_table := itable3, data_region := dregion2 \<rparr>"
    by (elim exE conjE)
  then show ?thesis by simp
qed

declare scan_bitmap.simps [simp del]
declare alloc_data_blocks.simps [simp del]
declare write_file_blocks.simps [simp del]
declare scan_root_entries.simps [simp del]

section \<open>Bitmaps\<close>

lemma bit_at_iff: "bit_at bitmap i \<longleftrightarrow> bit (bitmap ! (i div 8)) (i mod 8)"
  by (simp add: bit_at_def and_exp_eq_0_iff_not_bit)

lemma bit_at_update:
  assumes "k div 8 < length bitmap"
  shows "bit_at (bitmap[k div 8 := bitmap ! (k div 8) OR push_bit (k mod 8) 1]) j
    \<longleftrightarrow> j = k \<or> bit_at bitmap j"
proof (cases "j div 8 = k div 8")
  case True
  have m: "j mod 8 < 8" "k mod 8 < 8"
    by simp_all
  have e: "j = k \<longleftrightarrow> j mod 8 = k mod 8"
    using True by (metis div_mult_mod_eq)
  have "bit (push_bit (k mod 8) 1 :: u8) (j mod 8) \<longleftrightarrow> j mod 8 = k mod 8"
    using m by (auto simp add: bit_simps)
  then show ?thesis
    using True assms e by (auto simp add: bit_at_iff bit_or_iff)
next
  case False
  then have "j \<noteq> k" by auto
  with False show ?thesis
    using assms by (simp add: bit_at_iff)
qed

lemma set_bit_at_result:
  assumes "set_bit_at bitmap i = Inr bitmap'"
  shows "0 \<le> i" "nat i div 8 < length bitmap" "length bitmap' = length bitmap"
    and "\<And>j. bit_at bitmap' j \<longleftrightarrow> j = nat i \<or> bit_at bitmap j"
proof -
  from assms have a: "0 \<le> i" "nat i div 8 < length bitmap"
    and b: "bitmap' = bitmap[nat i div 8 := bitmap ! (nat i div 8) OR push_bit (nat i mod 8) 1]"
    by (simp_all add: set_bit_at_def split: if_splits)
  show "0 \<le> i" "nat i div 8 < length bitmap"
    by (rule a)+
  show "length bitmap' = length bitmap"
    by (simp add: b)
  show "bit_at bitmap' j \<longleftrightarrow> j = nat i \<or> bit_at bitmap j" for j
    unfolding b using a(2) by (rule bit_at_update)
qed

lemma set_bit_at_Inr:
  "0 \<le> i \<Longrightarrow> nat i div 8 < length bitmap \<Longrightarrow> \<exists>bitmap'. set_bit_at bitmap i = Inr bitmap'"
  by (simp add: set_bit_at_def)

lemma scan_bitmap_Some:
  "scan_bitmap bitmap n i = Inr (Some f) \<Longrightarrow>
     i \<le> f \<and> f < n \<and> f div 8 < length bitmap \<and> \<not> bit_at bitmap f
     \<and> (\<forall>j. i \<le> j \<and> j < f \<longrightarrow> bit_at bitmap j)"
proof (induction bitmap n i rule: scan_bitmap.induct)
  case (1 bitmap n initial)
  from "1.prems" have lt: "initial < n" and r: "initial div 8 < length bitmap"
    by (subst (asm) scan_bitmap.simps, simp split: if_splits)+
  show ?case
  proof (cases "bit_at bitmap initial")
    case False
    with "1.prems" lt r have "f = initial"
      by (subst (asm) scan_bitmap.simps) (simp add: bit_at_def)
    with False lt r show ?thesis by auto
  next
    case True
    with "1.prems" lt r have s: "scan_bitmap bitmap n (Suc initial) = Inr (Some f)"
      by (subst (asm) scan_bitmap.simps) (simp add: bit_at_def)
    from True have nz: "\<not> bitmap ! (initial div 8) AND push_bit (initial mod 8) 1 = 0"
      by (simp add: bit_at_def)
    from "1.IH" [OF lt r nz s]
    have ih: "Suc initial \<le> f" "f < n" "f div 8 < length bitmap" "\<not> bit_at bitmap f"
      "\<forall>j. Suc initial \<le> j \<and> j < f \<longrightarrow> bit_at bitmap j"
      by simp_all
    have "bit_at bitmap j" if "initial \<le> j" "j < f" for j
    proof (cases "j = initial")
      case True
      then show ?thesis using \<open>bit_at bitmap initial\<close> by simp
    next
      case False
      with that have "Suc initial \<le> j" by simp
      with ih(5) that show ?thesis by simp
    qed
    with ih show ?thesis by simp
  qed
qed

lemma scan_bitmap_finds:
  assumes "i \<le> f" "f < n" "f div 8 < length bitmap" "\<not> bit_at bitmap f"
    and "\<And>j. i \<le> j \<Longrightarrow> j < f \<Longrightarrow> bit_at bitmap j"
  shows "scan_bitmap bitmap n i = Inr (Some f)"
  using assms
proof (induction "f - i" arbitrary: i)
  case 0
  then have "i = f" by simp
  with 0 show ?case
    by (subst scan_bitmap.simps) (simp add: bit_at_def)
next
  case (Suc d)
  then have lt: "i < f" by simp
  then have b: "bit_at bitmap i"
    using Suc.prems by simp
  have r: "i div 8 < length bitmap"
    using lt Suc.prems(3) by (meson div_le_mono le_less_trans less_imp_le)
  have "scan_bitmap bitmap n (Suc i) = Inr (Some f)"
  proof (rule Suc.hyps(1))
    show "d = f - Suc i" using Suc.hyps(2) by simp
    show "Suc i \<le> f" using lt by simp
    show "bit_at bitmap j" if "Suc i \<le> j" "j < f" for j
      using that Suc.prems(5) [of j] by simp
  qed (use Suc.prems in simp_all)
  then show ?case
    using lt b r Suc.prems(2)
    by (subst scan_bitmap.simps) (simp add: bit_at_def)
qed

lemma scan_bitmap_None:
  "scan_bitmap bitmap n i = Inr None \<Longrightarrow> (\<forall>j. i \<le> j \<and> j < n \<longrightarrow> bit_at bitmap j)"
proof (induction bitmap n i rule: scan_bitmap.induct)
  case (1 bitmap n initial)
  show ?case
  proof (cases "initial < n")
    case False
    then show ?thesis by auto
  next
    case lt: True
    from "1.prems" lt have r: "initial div 8 < length bitmap"
      by (subst (asm) scan_bitmap.simps, simp split: if_splits)
    from "1.prems" lt r have b: "bit_at bitmap initial"
      by (subst (asm) scan_bitmap.simps) (simp add: bit_at_def split: if_splits)
    then have nz: "\<not> bitmap ! (initial div 8) AND push_bit (initial mod 8) 1 = 0"
      by (simp add: bit_at_def)
    from "1.prems" lt r nz have s: "scan_bitmap bitmap n (Suc initial) = Inr None"
      by (subst (asm) scan_bitmap.simps) simp
    from "1.IH" [OF lt r nz s] have ih: "\<forall>j. Suc initial \<le> j \<and> j < n \<longrightarrow> bit_at bitmap j" .
    have "bit_at bitmap j" if "initial \<le> j" "j < n" for j
      using that b ih by (cases "j = initial") auto
    then show ?thesis by simp
  qed
qed

lemma bitmap_index_small: "f div 8 < length bitmap \<Longrightarrow> length bitmap = 4096 \<Longrightarrow> f < 32768"
  by (simp add: div_less_iff_less_mult)

lemma find_free_data_block_result:
  assumes "length bitmap = 4096" "find_free_data_block bitmap cnt = Inr free_block"
    and "free_block \<noteq> - 1"
  shows "\<exists>f. free_block = int f \<and> f < unat cnt \<and> f < 32768 \<and> \<not> bit_at bitmap f
    \<and> (\<forall>j. j < f \<longrightarrow> bit_at bitmap j)"
proof -
  from assms(2,3) obtain f where s: "scan_bitmap bitmap (unat cnt) 0 = Inr (Some f)"
    and fb: "free_block = int_of_u64 (of_nat f)"
    by (auto simp add: find_free_data_block_def and_then_Inr_iff split: option.splits)
  from scan_bitmap_Some [OF s] have p: "f < unat cnt" "f div 8 < length bitmap"
    "\<not> bit_at bitmap f" "\<forall>j. j < f \<longrightarrow> bit_at bitmap j"
    by simp_all
  have small: "f < 32768"
    using p(2) assms(1) by (rule bitmap_index_small)
  then have "f < 2 ^ 31" by simp
  then have "free_block = int f"
    unfolding fb by (rule int_of_u64_small)
  with p small show ?thesis by blast
qed

lemma find_free_data_block_finds:
  assumes "length bitmap = 4096" "f < unat cnt" "f < 32768" "\<not> bit_at bitmap f"
    and "\<And>j. j < f \<Longrightarrow> bit_at bitmap j"
  shows "find_free_data_block bitmap cnt = Inr (int f)"
proof -
  have r: "f div 8 < length bitmap"
    using assms(1,3) by (simp add: div_less_iff_less_mult)
  have "scan_bitmap bitmap (unat cnt) 0 = Inr (Some f)"
    using assms r by (intro scan_bitmap_finds) simp_all
  moreover have "int_of_u64 (of_nat f) = int f"
    using assms(3) by (intro int_of_u64_small) simp
  ultimately show ?thesis
    by (simp add: find_free_data_block_def)
qed

lemma find_free_inode_result:
  assumes "length bitmap = 4096" "find_free_inode bitmap cnt = Inr free_inode"
    and "free_inode \<noteq> - 1"
  shows "\<exists>f. free_inode = int f + 1 \<and> f < unat cnt \<and> f < 32768 \<and> \<not> bit_at bitmap f
    \<and> (\<forall>j. j < f \<longrightarrow> bit_at bitmap j)"
proof -
  from assms(2,3) obtain f where s: "scan_bitmap bitmap (unat cnt) 0 = Inr (Some f)"
    and fb: "free_inode = int_of_u64 (of_nat f + 1)"
    by (auto simp add: find_free_inode_def and_then_Inr_iff split: option.splits)
  from scan_bitmap_Some [OF s] have p: "f < unat cnt" "f div 8 < length bitmap"
    "\<not> bit_at bitmap f" "\<forall>j. j < f \<longrightarrow> bit_at bitmap j"
    by simp_all
  have small: "f < 32768"
    using p(2) assms(1) by (rule bitmap_index_small)
  then have "Suc f < 2 ^ 31" by simp
  then have "int_of_u64 (of_nat (Suc f)) = int (Suc f)"
    by (rule int_of_u64_small)
  then have "free_inode = int f + 1"
    unfolding fb by (simp add: add.commute)
  with p small show ?thesis by blast
qed

lemma find_free_inode_finds:
  assumes "length bitmap = 4096" "f < unat cnt" "f < 32768" "\<not> bit_at bitmap f"
    and "\<And>j. j < f \<Longrightarrow> bit_at bitmap j"
  shows "find_free_inode bitmap cnt = Inr (int f + 1)"
proof -
  have r: "f div 8 < length bitmap"
    using assms(1,3) by (simp add: div_less_iff_less_mult)
  have "scan_bitmap bitmap (unat cnt) 0 = Inr (Some f)"
    using assms r by (intro scan_bitmap_finds) simp_all
  moreover have "int_of_u64 (of_nat (Suc f)) = int (Suc f)"
    using assms(3) by (intro int_of_u64_small) simp
  ultimately show ?thesis
    by (simp add: find_free_inode_def add.commute)
qed

lemma alloc_data_blocks_result:
  assumes "alloc_data_blocks s n i blocks bitmap = Inr (blocks', bitmap')"
    and "length bitmap = 4096"
  shows "length bitmap' = 4096 \<and> length blocks' = length blocks
    \<and> (\<forall>j. bit_at bitmap j \<longrightarrow> bit_at bitmap' j)
    \<and> (\<forall>j. j < i \<longrightarrow> blocks' ! j = blocks ! j)
    \<and> (\<forall>j. i \<le> j \<and> j < n \<and> j < length blocks \<longrightarrow>
          (\<exists>f. blocks' ! j = ucast (data_region_start s + of_nat f)
             \<and> f < unat (data_region_blocks s) \<and> f < 32768
             \<and> \<not> bit_at bitmap f \<and> bit_at bitmap' f))"
  using assms
proof (induction "n - i" arbitrary: i blocks bitmap)
  case 0
  then have "\<not> i < n" by simp
  with "0.prems" show ?case
    by (subst (asm) alloc_data_blocks.simps) auto
next
  case (Suc k)
  then have lt: "i < n" by simp
  from Suc.prems(1) lt obtain free_block bitmap1 where
    ff: "find_free_data_block bitmap (data_region_blocks s) = Inr free_block"
    and nf: "free_block \<noteq> - 1"
    and sb: "set_bit_at bitmap free_block = Inr bitmap1"
    and rec: "alloc_data_blocks s n (Suc i)
       (blocks[i := ucast (data_region_start s + of_int free_block)]) bitmap1
       = Inr (blocks', bitmap')"
    by (subst (asm) alloc_data_blocks.simps)
      (auto simp add: and_then_Inr_iff if_Inl_eq_Inr split: if_splits)
  from find_free_data_block_result [OF Suc.prems(2) ff nf] obtain f where
    f: "free_block = int f" "f < unat (data_region_blocks s)" "f < 32768" "\<not> bit_at bitmap f"
    by blast
  note sr = set_bit_at_result [OF sb]
  have l1: "length bitmap1 = 4096"
    using sr(3) Suc.prems(2) by simp
  have b1: "bit_at bitmap1 j \<longleftrightarrow> j = f \<or> bit_at bitmap j" for j
    using sr(4) [of j] f(1) by simp
  have k: "k = n - Suc i"
    using Suc.hyps(2) by simp
  note ih = Suc.hyps(1) [OF k rec l1]
  let ?blocks1 = "blocks[i := ucast (data_region_start s + of_int free_block)]"
  have A: "length bitmap' = 4096" and B: "length blocks' = length blocks"
    and C: "\<And>j. bit_at bitmap1 j \<Longrightarrow> bit_at bitmap' j"
    and D: "\<And>j. j < Suc i \<Longrightarrow> blocks' ! j = ?blocks1 ! j"
    and E: "\<And>j. Suc i \<le> j \<Longrightarrow> j < n \<Longrightarrow> j < length blocks \<Longrightarrow>
          (\<exists>f. blocks' ! j = ucast (data_region_start s + of_nat f)
             \<and> f < unat (data_region_blocks s) \<and> f < 32768
             \<and> \<not> bit_at bitmap1 f \<and> bit_at bitmap' f)"
    using ih by simp_all
  have mono: "bit_at bitmap' j" if "bit_at bitmap j" for j
    using that C b1 by simp
  have keep: "blocks' ! j = blocks ! j" if "j < i" for j
    using D [of j] that by simp
  have new: "\<exists>f. blocks' ! j = ucast (data_region_start s + of_nat f)
             \<and> f < unat (data_region_blocks s) \<and> f < 32768
             \<and> \<not> bit_at bitmap f \<and> bit_at bitmap' f"
    if "i \<le> j" "j < n" "j < length blocks" for j
  proof (cases "j = i")
    case True
    have "blocks' ! i = ucast (data_region_start s + of_nat f)"
      using D [of i] that True f(1) by simp
    moreover have "bit_at bitmap' f"
      using C b1 by simp
    ultimately show ?thesis
      using True f by blast
  next
    case False
    with that have "Suc i \<le> j" by simp
    from E [OF this that(2,3)] obtain g where
      g: "blocks' ! j = ucast (data_region_start s + of_nat g)"
      "g < unat (data_region_blocks s)" "g < 32768" "\<not> bit_at bitmap1 g" "bit_at bitmap' g"
      by blast
    from g(4) have "\<not> bit_at bitmap g"
      using b1 by simp
    with g show ?thesis by blast
  qed
  show ?case
    using A B mono keep new by blast
qed

section \<open>The root directory scan\<close>

lemma scan_root_entries_step:
  "scan_root_entries region root_off entry_count i =
     (if i < entry_count then
        (if root_off + i * 64 + 4 \<le> length region then
           (if entry_inode_no region root_off i = 0 then Inr (Some i)
            else scan_root_entries region root_off entry_count (Suc i))
         else Inl OutOfBounds)
      else Inr None)"
  by (subst scan_root_entries.simps)
    (simp add: buf_read_def entry_inode_no_def rd32_def field_def)

lemma scan_root_entries_finds:
  assumes "i \<le> f" "f < entry_count" "root_off + f * 64 + 4 \<le> length region"
    and "entry_inode_no region root_off f = 0"
    and "\<And>j. i \<le> j \<Longrightarrow> j < f \<Longrightarrow> entry_inode_no region root_off j \<noteq> 0"
  shows "scan_root_entries region root_off entry_count i = Inr (Some f)"
  using assms
proof (induction "f - i" arbitrary: i)
  case 0
  then have "i = f" by simp
  with 0 show ?case
    by (subst scan_root_entries_step) simp
next
  case (Suc d)
  then have lt: "i < f" by simp
  then have nz: "entry_inode_no region root_off i \<noteq> 0"
    using Suc.prems by simp
  have "i * 64 \<le> f * 64"
    using lt by simp
  then have r: "root_off + i * 64 + 4 \<le> length region"
    using Suc.prems(3) by linarith
  have "scan_root_entries region root_off entry_count (Suc i) = Inr (Some f)"
  proof (rule Suc.hyps(1))
    show "d = f - Suc i" using Suc.hyps(2) by simp
    show "Suc i \<le> f" using lt by simp
    show "entry_inode_no region root_off j \<noteq> 0" if "Suc i \<le> j" "j < f" for j
      using that Suc.prems(5) [of j] by simp
  qed (use Suc.prems in simp_all)
  then show ?case
    using lt nz r Suc.prems(2)
    by (subst scan_root_entries_step) simp
qed

lemma scan_root_entries_none:
  assumes "root_off + entry_count * 64 \<le> length region"
    and "\<And>j. i \<le> j \<Longrightarrow> j < entry_count \<Longrightarrow> entry_inode_no region root_off j \<noteq> 0"
  shows "scan_root_entries region root_off entry_count i = Inr None"
  using assms
proof (induction "entry_count - i" arbitrary: i)
  case 0
  then show ?case
    by (subst scan_root_entries_step) simp
next
  case (Suc d)
  then have lt: "i < entry_count" by simp
  then have "Suc i * 64 \<le> entry_count * 64"
    by (intro mult_le_mono1) simp
  then have r: "root_off + i * 64 + 4 \<le> length region"
    using Suc.prems(1) by simp
  have nz: "entry_inode_no region root_off i \<noteq> 0"
    using lt Suc.prems(2) by simp
  have "scan_root_entries region root_off entry_count (Suc i) = Inr None"
  proof (rule Suc.hyps(1))
    show "d = entry_count - Suc i" using Suc.hyps(2) by simp
    show "entry_inode_no region root_off j \<noteq> 0" if "Suc i \<le> j" "j < entry_count" for j
      using that Suc.prems(2) [of j] by simp
  qed (use Suc.prems in simp_all)
  then show ?case
    using lt nz r by (subst scan_root_entries_step) simp
qed

lemma scan_root_entries_Some:
  "scan_root_entries region root_off entry_count i = Inr (Some f) \<Longrightarrow>
     i \<le> f \<and> f < entry_count \<and> root_off + f * 64 + 4 \<le> length region
     \<and> entry_inode_no region root_off f = 0
     \<and> (\<forall>j. i \<le> j \<and> j < f \<longrightarrow> entry_inode_no region root_off j \<noteq> 0)"
proof (induction "entry_count - i" arbitrary: i)
  case 0
  then show ?case
    by (subst (asm) scan_root_entries_step) simp
next
  case (Suc d)
  then have lt: "i < entry_count" by simp
  from Suc.prems lt have r: "root_off + i * 64 + 4 \<le> length region"
    by (subst (asm) scan_root_entries_step) (simp split: if_splits)
  show ?case
  proof (cases "entry_inode_no region root_off i = 0")
    case True
    with Suc.prems lt r have "f = i"
      by (subst (asm) scan_root_entries_step) simp
    with True lt r show ?thesis by auto
  next
    case False
    with Suc.prems lt r have s: "scan_root_entries region root_off entry_count (Suc i) = Inr (Some f)"
      by (subst (asm) scan_root_entries_step) simp
    have "d = entry_count - Suc i" using Suc.hyps(2) by simp
    from Suc.hyps(1) [OF this s]
    have ih: "Suc i \<le> f" "f < entry_count" "root_off + f * 64 + 4 \<le> length region"
      "entry_inode_no region root_off f = 0"
      "\<forall>j. Suc i \<le> j \<and> j < f \<longrightarrow> entry_inode_no region root_off j \<noteq> 0"
      by simp_all
    have "entry_inode_no region root_off j \<noteq> 0" if "i \<le> j" "j < f" for j
      using that False ih(5) by (cases "j = i") auto
    with ih show ?thesis by auto
  qed
qed

lemma scan_root_entries_None:
  "scan_root_entries region root_off entry_count i = Inr None \<Longrightarrow>
     (\<forall>j. i \<le> j \<and> j < entry_count \<longrightarrow> entry_inode_no region root_off j \<noteq> 0)"
proof (induction "entry_count - i" arbitrary: i)
  case 0
  then show ?case by auto
next
  case (Suc d)
  then have lt: "i < entry_count" by simp
  from Suc.prems lt have r: "root_off + i * 64 + 4 \<le> length region"
    by (subst (asm) scan_root_entries_step) (simp split: if_splits)
  from Suc.prems lt r have nz: "entry_inode_no region root_off i \<noteq> 0"
    by (subst (asm) scan_root_entries_step) (simp split: if_splits)
  from Suc.prems lt r nz have s: "scan_root_entries region root_off entry_count (Suc i) = Inr None"
    by (subst (asm) scan_root_entries_step) simp
  have "d = entry_count - Suc i" using Suc.hyps(2) by simp
  from Suc.hyps(1) [OF this s]
  have ih: "\<forall>j. Suc i \<le> j \<and> j < entry_count \<longrightarrow> entry_inode_no region root_off j \<noteq> 0" .
  have "entry_inode_no region root_off j \<noteq> 0" if "i \<le> j" "j < entry_count" for j
    using that nz ih by (cases "j = i") auto
  then show ?case by auto
qed

lemma inode_crc_finalize_finalized [simp]: "inode_crc_finalize ino = Inr (finalized ino)"
  by (simp add: inode_crc_finalize_eq finalized_def)

lemma int_of_u64_unat:
  assumes "unat w < 2 ^ 31"
  shows "int_of_u64 w = int (unat w)"
  using int_of_u64_small [OF assms] by simp

lemma entry_count_ge_64: "(size_bytes root div 64 \<ge> 64) = (64 \<le> entry_count_of root)"
  by (simp add: entry_count_of_def word_le_nat_alt)

lemma find_root_slot_unfold:
  assumes "128 \<le> length (inode_table m)"
  shows "find_root_slot m =
     and_then (scan_root_entries (data_region m) (root_entries_offset (sb m) (root_of (inode_table m)))
        (entry_count_of (root_of (inode_table m))) 0) (\<lambda>r.
     let free_entry = (case r of Some i \<Rightarrow> int_of_u64 (of_nat i) | None \<Rightarrow> - 1) in
     if free_entry = - 1 then
       (if 64 \<le> entry_count_of (root_of (inode_table m)) then Inl RootDirectoryFull
        else Inr (int_of_u64 (size_bytes (root_of (inode_table m)) div 64),
                root_entries_offset (sb m) (root_of (inode_table m)),
                patched (inode_table m) 0
                  (inode_bytes (finalized ((root_of (inode_table m))
                     \<lparr>size_bytes := size_bytes (root_of (inode_table m)) + 64\<rparr>)))))
     else Inr (free_entry, root_entries_offset (sb m) (root_of (inode_table m)), inode_table m))"
proof -
  have r: "buf_read (inode_table m) 0 128 = Inr (field (inode_table m) 0 128)"
    using assms by (simp add: buf_read_Inr)
  have w: "buf_write (inode_table m) 0 (inode_bytes ino) = Inr (patched (inode_table m) 0 (inode_bytes ino))"
    for ino
    using assms by (simp add: buf_write_patched)
  show ?thesis
    unfolding find_root_slot_def r and_then_Inr Let_def
    by (simp only: root_of_def [symmetric] entry_count_of_def [symmetric] entry_count_ge_64
        inode_crc_finalize_finalized and_then_Inr w)
qed

lemma find_root_slot_reuse:
  assumes "128 \<le> length (inode_table m)"
    and "i < entry_count_of (root_of (inode_table m))" "i < 2 ^ 31"
    and "root_entries_offset (sb m) (root_of (inode_table m)) + i * 64 + 4 \<le> length (data_region m)"
    and "entry_inode_no (data_region m) (root_entries_offset (sb m) (root_of (inode_table m))) i = 0"
    and "\<And>j. j < i \<Longrightarrow>
      entry_inode_no (data_region m) (root_entries_offset (sb m) (root_of (inode_table m))) j \<noteq> 0"
  shows "find_root_slot m =
    Inr (int i, root_entries_offset (sb m) (root_of (inode_table m)), inode_table m)"
proof -
  have s: "scan_root_entries (data_region m) (root_entries_offset (sb m) (root_of (inode_table m)))
        (entry_count_of (root_of (inode_table m))) 0 = Inr (Some i)"
    using assms by (intro scan_root_entries_finds) simp_all
  have c: "int_of_u64 (of_nat i) = int i"
    using assms(3) by (rule int_of_u64_small)
  show ?thesis
    unfolding find_root_slot_unfold [OF assms(1)] s
    by (simp add: c)
qed

lemma find_root_slot_append:
  assumes "128 \<le> length (inode_table m)"
    and "entry_count_of (root_of (inode_table m)) < 64"
    and "root_entries_offset (sb m) (root_of (inode_table m))
        + entry_count_of (root_of (inode_table m)) * 64 \<le> length (data_region m)"
    and "\<And>j. j < entry_count_of (root_of (inode_table m)) \<Longrightarrow>
      entry_inode_no (data_region m) (root_entries_offset (sb m) (root_of (inode_table m))) j \<noteq> 0"
  shows "find_root_slot m =
    Inr (int (entry_count_of (root_of (inode_table m))),
         root_entries_offset (sb m) (root_of (inode_table m)),
         patched (inode_table m) 0
           (inode_bytes (finalized ((root_of (inode_table m))
              \<lparr>size_bytes := size_bytes (root_of (inode_table m)) + 64\<rparr>))))"
proof -
  have s: "scan_root_entries (data_region m) (root_entries_offset (sb m) (root_of (inode_table m)))
        (entry_count_of (root_of (inode_table m))) 0 = Inr None"
    using assms by (intro scan_root_entries_none) simp_all
  have "unat (size_bytes (root_of (inode_table m)) div 64) < 2 ^ 31"
    using assms(2) by (simp add: entry_count_of_def)
  then have c: "int_of_u64 (size_bytes (root_of (inode_table m)) div 64)
      = int (entry_count_of (root_of (inode_table m)))"
    unfolding entry_count_of_def by (rule int_of_u64_unat)
  show ?thesis
    unfolding find_root_slot_unfold [OF assms(1)] s
    using assms(2) by (simp add: c)
qed

lemma find_root_slot_full:
  assumes "128 \<le> length (inode_table m)"
    and "64 \<le> entry_count_of (root_of (inode_table m))"
    and "root_entries_offset (sb m) (root_of (inode_table m))
        + entry_count_of (root_of (inode_table m)) * 64 \<le> length (data_region m)"
    and "\<And>j. j < entry_count_of (root_of (inode_table m)) \<Longrightarrow>
      entry_inode_no (data_region m) (root_entries_offset (sb m) (root_of (inode_table m))) j \<noteq> 0"
  shows "find_root_slot m = Inl RootDirectoryFull"
proof -
  have s: "scan_root_entries (data_region m) (root_entries_offset (sb m) (root_of (inode_table m)))
        (entry_count_of (root_of (inode_table m))) 0 = Inr None"
    using assms by (intro scan_root_entries_none) simp_all
  show ?thesis
    unfolding find_root_slot_unfold [OF assms(1)] s
    using assms(2) by simp
qed

lemma length_stored_name [simp]: "length (stored_name file_name) = 58"
  by (simp add: stored_name_def)

lemma name_bytes_stored_name [simp]: "name_bytes (stored_name file_name) = stored_name file_name"
  by (simp add: name_bytes_def)

lemma copied_name:
  "(strncpy (replicate 58 0) file_name (if strlen file_name > 57 then 57 else strlen file_name))
      [(if strlen file_name > 57 then 57 else strlen file_name) := 0]
   = stored_name file_name"
proof (cases "strlen file_name > 57")
  case True
  then have "strncpy (replicate 58 0) file_name 57 = take 57 (c_string file_name) @ [0]"
    by (simp add: strncpy_def strlen_def)
  moreover have "length (take 57 (c_string file_name)) = 57"
    using True by (simp add: strlen_def)
  ultimately show ?thesis
    using True by (simp add: stored_name_def list_update_append)
next
  case False
  let ?n = "strlen file_name"
  have t: "take ?n (c_string file_name) = c_string file_name"
    "take 57 (c_string file_name) = c_string file_name"
    using False by (simp_all add: strlen_def)
  have "strncpy (replicate 58 0) file_name ?n = c_string file_name @ replicate (58 - ?n) 0"
    using False by (simp add: strncpy_def t)
  moreover have "(c_string file_name @ replicate (58 - ?n) 0)[?n := 0]
      = c_string file_name @ replicate (58 - ?n) 0"
    using False
    by (intro nth_equalityI) (auto simp add: strlen_def nth_list_update nth_append)
  ultimately show ?thesis
    using False by (simp add: stored_name_def t) (simp add: strlen_def)
qed

lemma new_dirent_fields [simp]:
  "inode_no (new_dirent old free_inode file_name) = of_int free_inode"
  "type (new_dirent old free_inode file_name) = 1"
  "name (new_dirent old free_inode file_name) = stored_name file_name"
  by (simp_all add: new_dirent_def dirent_checksum_finalize_def)

lemma write_dirent_unfold:
  assumes "0 \<le> free_entry" "root_off + nat free_entry * 64 + 64 \<le> length region"
  shows "write_dirent region root_off free_entry free_inode file_name =
    Inr (patched region (root_off + nat free_entry * 64)
      (dirent_bytes (new_dirent (field region (root_off + nat free_entry * 64) 64)
         free_inode file_name)))"
proof -
  have r: "buf_read region (root_off + nat free_entry * 64) 64
      = Inr (field region (root_off + nat free_entry * 64) 64)"
    using assms by (simp add: buf_read_Inr)
  show ?thesis
    unfolding write_dirent_def r and_then_Inr Let_def copied_name
    using assms by (simp add: buf_write_patched new_dirent_def)
qed

lemma write_dirent_result:
  assumes "write_dirent region root_off free_entry free_inode file_name = Inr region'"
  shows "0 \<le> free_entry" "root_off + nat free_entry * 64 + 64 \<le> length region"
    and "region' = patched region (root_off + nat free_entry * 64)
      (dirent_bytes (new_dirent (field region (root_off + nat free_entry * 64) 64)
         free_inode file_name))"
proof -
  from assms show a: "0 \<le> free_entry"
    by (simp add: write_dirent_def split: if_splits)
  from assms a show b: "root_off + nat free_entry * 64 + 64 \<le> length region"
    by (simp add: write_dirent_def and_then_Inr_iff buf_read_def split: if_splits)
  from assms show "region' = patched region (root_off + nat free_entry * 64)
      (dirent_bytes (new_dirent (field region (root_off + nat free_entry * 64) 64)
         free_inode file_name))"
    unfolding write_dirent_unfold [OF a b] by simp
qed

lemma bump_root_links_unfold:
  assumes "128 \<le> length table"
  shows "bump_root_links table =
    Inr (patched table 0 (inode_bytes (finalized ((root_of table)\<lparr>links := links (root_of table) + 1\<rparr>))))"
proof -
  have r: "buf_read table 0 128 = Inr (field table 0 128)"
    using assms by (simp add: buf_read_Inr)
  show ?thesis
    unfolding bump_root_links_def r and_then_Inr inode_crc_finalize_finalized
    using assms by (simp add: buf_write_patched root_of_def)
qed

lemma bump_root_links_result:
  assumes "bump_root_links table = Inr table'"
  shows "128 \<le> length table"
    and "table' = patched table 0
      (inode_bytes (finalized ((root_of table)\<lparr>links := links (root_of table) + 1\<rparr>)))"
proof -
  from assms show a: "128 \<le> length table"
    by (simp add: bump_root_links_def and_then_Inr_iff buf_read_def split: if_splits)
  from assms show "table' = patched table 0
      (inode_bytes (finalized ((root_of table)\<lparr>links := links (root_of table) + 1\<rparr>)))"
    unfolding bump_root_links_unfold [OF a] by simp
qed

lemma create_inode_unfold:
  assumes "new_inode_offset free_inode + 128 \<le> length table"
  shows "create_inode table free_inode file_size now needed_blocks data_blocks =
    Inr (patched table (new_inode_offset free_inode)
      (inode_bytes (new_inode (field table (new_inode_offset free_inode) 128)
         file_size now needed_blocks data_blocks)))"
proof -
  have r: "buf_read table (new_inode_offset free_inode) 128
      = Inr (field table (new_inode_offset free_inode) 128)"
    using assms by (simp add: buf_read_Inr)
  show ?thesis
    unfolding create_inode_def r and_then_Inr inode_crc_finalize_finalized
    using assms by (simp add: buf_write_patched new_inode_def)
qed

lemma create_inode_result:
  assumes "create_inode table free_inode file_size now needed_blocks data_blocks = Inr table'"
  shows "new_inode_offset free_inode + 128 \<le> length table"
    and "table' = patched table (new_inode_offset free_inode)
      (inode_bytes (new_inode (field table (new_inode_offset free_inode) 128)
         file_size now needed_blocks data_blocks))"
proof -
  from assms show a: "new_inode_offset free_inode + 128 \<le> length table"
    by (simp add: create_inode_def and_then_Inr_iff buf_read_def split: if_splits)
  from assms show "table' = patched table (new_inode_offset free_inode)
      (inode_bytes (new_inode (field table (new_inode_offset free_inode) 128)
         file_size now needed_blocks data_blocks))"
    unfolding create_inode_unfold [OF a] by simp
qed

lemma rd_le_zeros [simp]: "rd_le (replicate n 0) = 0"
  by (induction n) simp_all

lemma field_replicate: "field (replicate k x) off n = replicate (min n (k - off)) x"
  by (simp add: field_def)

lemma dirent_of_new_dirent:
  "dirent_of (dirent_bytes (new_dirent old free_inode file_name)) = new_dirent old free_inode file_name"
  by (simp add: dirent_of_bytes)

lemma rd32_zeros [simp]: "rd32 (replicate k 0) off = 0"
  by (simp add: rd32_def field_replicate)

lemma rd64_zeros [simp]: "rd64 (replicate k 0) off = 0"
  by (simp add: rd64_def field_replicate)

section \<open>The copy loop\<close>

lemma write_file_blocks_step:
  "write_file_blocks s file_size file_content data_blocks n i region =
     (if i < n then
        and_then (buf_read file_content (i * 4096) (copy_size file_size n i)) (\<lambda>chunk.
        and_then (buf_write region (block_offset s data_blocks i) chunk) (\<lambda>region'.
          write_file_blocks s file_size file_content data_blocks n (Suc i) region'))
      else Inr region)"
  by (subst write_file_blocks.simps) (simp add: Let_def block_offset_def copy_size_def)

lemma write_file_blocks_result:
  assumes "write_file_blocks s file_size file_content data_blocks n i region = Inr region'"
  shows "length region' = length region
    \<and> (\<forall>p<length region.
          (\<forall>j. i \<le> j \<and> j < n \<longrightarrow>
             p < block_offset s data_blocks j
             \<or> block_offset s data_blocks j + copy_size file_size n j \<le> p) \<longrightarrow>
          region' ! p = region ! p)"
  using assms
proof (induction "n - i" arbitrary: i region)
  case 0
  then show ?case
    by (subst (asm) write_file_blocks_step) simp
next
  case (Suc k)
  then have lt: "i < n" by simp
  from Suc.prems lt obtain chunk region1 where
    rd: "buf_read file_content (i * 4096) (copy_size file_size n i) = Inr chunk"
    and wr: "buf_write region (block_offset s data_blocks i) chunk = Inr region1"
    and rec: "write_file_blocks s file_size file_content data_blocks n (Suc i) region1 = Inr region'"
    by (subst (asm) write_file_blocks_step) (auto simp add: and_then_Inr_iff)
  from buf_read_cases [OF rd] have cl: "length chunk = copy_size file_size n i"
    using length_field [of "i * 4096" "copy_size file_size n i" file_content] by simp
  from buf_write_result [OF wr] have w: "block_offset s data_blocks i + length chunk \<le> length region"
    "region1 = patched region (block_offset s data_blocks i) chunk"
    by simp_all
  have l1: "length region1 = length region"
    using w by (simp add: length_patched)
  have k: "k = n - Suc i"
    using Suc.hyps(2) by simp
  from Suc.hyps(1) [OF k rec]
  have ih: "length region' = length region1"
    "\<And>p. p < length region1 \<Longrightarrow>
          (\<forall>j. Suc i \<le> j \<and> j < n \<longrightarrow>
             p < block_offset s data_blocks j
             \<or> block_offset s data_blocks j + copy_size file_size n j \<le> p) \<Longrightarrow>
          region' ! p = region1 ! p"
    by simp_all
  have "region' ! p = region ! p"
    if p: "p < length region"
      and out: "\<forall>j. i \<le> j \<and> j < n \<longrightarrow>
             p < block_offset s data_blocks j
             \<or> block_offset s data_blocks j + copy_size file_size n j \<le> p"
    for p
  proof -
    have "region' ! p = region1 ! p"
      using p l1 out by (intro ih(2)) auto
    moreover have "p < block_offset s data_blocks i
        \<or> block_offset s data_blocks i + length chunk \<le> p"
      using out lt cl by auto
    then have "region1 ! p = region ! p"
      unfolding w(2) using w(1) p by (intro nth_patched_outside)
    ultimately show ?thesis by simp
  qed
  then show ?case
    using ih(1) l1 by simp
qed

section \<open>What an insert leaves in place\<close>

lemma find_root_slot_result:
  assumes "find_root_slot m = Inr (free_entry, root_off, table')"
  shows "128 \<le> length (inode_table m)"
    and "root_off = root_entries_offset (sb m) (root_of (inode_table m))"
    and "length table' = length (inode_table m)"
    and "\<And>p. 128 \<le> p \<Longrightarrow> p < length (inode_table m) \<Longrightarrow> table' ! p = inode_table m ! p"
proof -
  from assms show a: "128 \<le> length (inode_table m)"
    by (simp add: find_root_slot_def and_then_Inr_iff buf_read_def split: if_splits)
  note u = assms [unfolded find_root_slot_unfold [OF a]]
  from u show "root_off = root_entries_offset (sb m) (root_of (inode_table m))"
    by (auto simp add: and_then_Inr_iff Let_def split: if_splits)
  from u have c: "table' = inode_table m \<or> (\<exists>ino. table' = patched (inode_table m) 0 (inode_bytes ino))"
    by (auto simp add: and_then_Inr_iff Let_def split: if_splits)
  then show "length table' = length (inode_table m)"
    using a by (auto simp add: length_patched)
  show "table' ! p = inode_table m ! p" if "128 \<le> p" "p < length (inode_table m)" for p
    using c that a by (auto intro!: nth_patched_outside)
qed

lemma insert_file_lengths:
  assumes "insert_file m file file_name now = Inr m'"
    and "length (inode_bitmap m) = 4096" "length (data_bitmap m) = 4096"
  shows "sb m' = sb m" "length (inode_bitmap m') = 4096" "length (data_bitmap m') = 4096"
    and "length (inode_table m') = length (inode_table m)"
    and "length (data_region m') = length (data_region m)"
proof -
  from insert_file_steps [OF assms(1)] obtain free_inode and bytes :: "u8 list"
      and data_blocks dbitmap file_content and file_fp :: stream
      and dregion1 itable1 ibitmap free_entry root_off itable2 dregion2 itable3
    where al: "alloc_data_blocks (sb m)
         (unat (((of_nat (length bytes) :: u64) + 4096 - 1) div 4096)) 0
         (replicate 12 0) (data_bitmap m) = Inr (data_blocks, dbitmap)"
    and wf: "write_file_blocks (sb m) (of_nat (length bytes)) file_content data_blocks
         (unat (((of_nat (length bytes) :: u64) + 4096 - 1) div 4096)) 0 (data_region m)
         = Inr dregion1"
    and ci: "create_inode (inode_table m) free_inode (of_nat (length bytes)) now
         (unat (((of_nat (length bytes) :: u64) + 4096 - 1) div 4096)) data_blocks = Inr itable1"
    and sbit: "set_bit_at (inode_bitmap m) (free_inode - 1) = Inr ibitmap"
    and fr: "find_root_slot (m\<lparr> inode_bitmap := ibitmap, data_bitmap := dbitmap,
                inode_table := itable1, data_region := dregion1 \<rparr>)
         = Inr (free_entry, root_off, itable2)"
    and wd: "write_dirent dregion1 root_off free_entry free_inode file_name = Inr dregion2"
    and bl: "bump_root_links itable2 = Inr itable3"
    and m': "m' = m\<lparr> inode_bitmap := ibitmap, data_bitmap := dbitmap,
                inode_table := itable3, data_region := dregion2 \<rparr>"
    by (elim exE conjE)
  show "sb m' = sb m"
    by (simp add: m')
  show "length (inode_bitmap m') = 4096"
    using set_bit_at_result(3) [OF sbit] assms(2) by (simp add: m')
  show "length (data_bitmap m') = 4096"
    using alloc_data_blocks_result [OF al assms(3)] by (simp add: m')
  have "length itable1 = length (inode_table m)"
    using create_inode_result [OF ci] by (simp add: length_patched)
  moreover have "length itable2 = length itable1"
    using find_root_slot_result(3) [OF fr] by simp
  moreover have "length itable3 = length itable2"
    using bump_root_links_result [OF bl] by (simp add: length_patched)
  ultimately show "length (inode_table m') = length (inode_table m)"
    by (simp add: m')
  have "length dregion1 = length (data_region m)"
    using write_file_blocks_result [OF wf] by simp
  moreover have "length dregion2 = length dregion1"
    using write_dirent_result [OF wd] by (simp add: length_patched)
  ultimately show "length (data_region m') = length (data_region m)"
    by (simp add: m')
qed

section \<open>Images and their regions\<close>

lemma loaded_simps [simp]:
  "sb (loaded img) = image_superblock img"
  "inode_bitmap (loaded img) = field img 4096 4096"
  "data_bitmap (loaded img) = field img 8192 4096"
  "inode_table (loaded img) = field img 12288 (unat (inode_table_blocks (image_superblock img)) * 4096)"
  "data_region (loaded img) = field img (12288 + unat (inode_table_blocks (image_superblock img)) * 4096)
      (unat (data_region_blocks (image_superblock img)) * 4096)"
  by (simp_all add: loaded_def Let_def)

lemma image_length:
  assumes "valid_superblock (image_superblock img)"
    and "length img = unat (total_blocks (image_superblock img)) * 4096"
  shows "length img = 12288 + unat (inode_table_blocks (image_superblock img)) * 4096
      + unat (data_region_blocks (image_superblock img)) * 4096"
  using assms(2) valid_superblock_offsets(11) [OF assms(1)] by simp

lemma loaded_lengths:
  assumes "valid_superblock (image_superblock img)"
    and "length img = unat (total_blocks (image_superblock img)) * 4096"
  shows "length (inode_bitmap (loaded img)) = 4096" "length (data_bitmap (loaded img)) = 4096"
    and "length (inode_table (loaded img)) = unat (inode_table_blocks (image_superblock img)) * 4096"
    and "length (data_region (loaded img)) = unat (data_region_blocks (image_superblock img)) * 4096"
  using image_length [OF assms] by (simp_all add: length_field)

lemma loaded_persist:
  assumes v: "valid_superblock (sb m)"
    and l: "length (inode_bitmap m) = 4096" "length (data_bitmap m) = 4096"
      "length (inode_table m) = unat (inode_table_blocks (sb m)) * 4096"
      "length (data_region m) = unat (data_region_blocks (sb m)) * 4096"
  shows "image_superblock (persist m) = sb m" and "loaded (persist m) = m"
    and "length (persist m) = unat (total_blocks (sb m)) * 4096"
proof -
  note p = persist_layout [OF v l]
  show s: "image_superblock (persist m) = sb m"
    by (simp add: image_superblock_def p field_head)
  have pad: "superblock_bytes (sb m) @ replicate 3980 0 @ xs
      = (superblock_bytes (sb m) @ replicate 3980 0) @ xs" for xs
    by simp
  have a: "field (persist m) 4096 4096 = inode_bitmap m"
    unfolding p pad by (simp add: field_append_right field_head l)
  have b: "field (persist m) 8192 4096 = data_bitmap m"
    unfolding p pad by (simp add: field_append_right field_head l)
  have c: "field (persist m) 12288 (unat (inode_table_blocks (sb m)) * 4096) = inode_table m"
    unfolding p pad by (simp add: field_append_right field_head l)
  have d: "field (persist m) (12288 + unat (inode_table_blocks (sb m)) * 4096)
      (unat (data_region_blocks (sb m)) * 4096) = data_region m"
    unfolding p pad by (simp add: field_append_right field_all l)
  have "loaded (persist m) = \<lparr> sb = sb m, inode_bitmap = inode_bitmap m,
      data_bitmap = data_bitmap m, inode_table = inode_table m, data_region = data_region m \<rparr>"
    by (simp add: loaded_def Let_def s a b c d)
  then show "loaded (persist m) = m"
    by simp
  show "length (persist m) = unat (total_blocks (sb m)) * 4096"
    unfolding p using l valid_superblock_offsets(11) [OF v] by simp
qed

lemma image_regions:
  assumes "valid_superblock (image_superblock img)"
    and "length img = unat (total_blocks (image_superblock img)) * 4096"
  shows "image_inode_bitmap img = inode_bitmap (loaded img)"
    and "image_data_bitmap img = data_bitmap (loaded img)"
    and "\<And>j. j * 128 + 128 \<le> length (inode_table (loaded img)) \<Longrightarrow>
      image_inode_slot img j = field (inode_table (loaded img)) (j * 128) 128"
    and "\<And>k. k * 4096 + 4096 \<le> length (data_region (loaded img)) \<Longrightarrow>
      image_data_block img k = field (data_region (loaded img)) (k * 4096) 4096"
proof -
  let ?s = "image_superblock img"
  have st: "inode_bitmap_start ?s = 1" "data_bitmap_start ?s = 2" "inode_table_start ?s = 3"
    "unat (data_region_start ?s) = 3 + unat (inode_table_blocks ?s)"
    using assms(1) by (simp_all add: valid_superblock_def)
  note L = image_length [OF assms]
  note ll = loaded_lengths [OF assms]
  show "image_inode_bitmap img = inode_bitmap (loaded img)"
    by (simp add: image_inode_bitmap_def st)
  show "image_data_bitmap img = data_bitmap (loaded img)"
    by (simp add: image_data_bitmap_def st)
  show "image_inode_slot img j = field (inode_table (loaded img)) (j * 128) 128"
    if "j * 128 + 128 \<le> length (inode_table (loaded img))" for j
  proof -
    have "field (field img 12288 (unat (inode_table_blocks ?s) * 4096)) (j * 128) 128
        = field img (12288 + j * 128) 128"
      using that ll(3) L by (intro field_field) simp_all
    then show ?thesis
      by (simp add: image_inode_slot_def st)
  qed
  show "image_data_block img k = field (data_region (loaded img)) (k * 4096) 4096"
    if "k * 4096 + 4096 \<le> length (data_region (loaded img))" for k
  proof -
    have "field (field img (12288 + unat (inode_table_blocks ?s) * 4096)
          (unat (data_region_blocks ?s) * 4096)) (k * 4096) 4096
        = field img (12288 + unat (inode_table_blocks ?s) * 4096 + k * 4096) 4096"
      using that ll(4) L by (intro field_field) simp_all
    moreover have "(unat (data_region_start ?s) + k) * 4096
        = 12288 + unat (inode_table_blocks ?s) * 4096 + k * 4096"
      by (simp add: st)
    ultimately show ?thesis
      by (simp add: image_data_block_def)
  qed
qed

lemma valid_image_parts:
  assumes "valid_image img"
  shows "valid_superblock (image_superblock img)"
    and "length img = unat (total_blocks (image_superblock img)) * 4096"
  using assms by (simp_all add: valid_image_def)

text \<open>A successful run, in terms of the regions of its input.\<close>

lemma mkfs_adder_success:
  assumes "valid_image img"
    and "mkfs_adder (Some img) file file_name now can_create = Inr out"
  shows "\<exists>m'. insert_file (loaded img) file file_name now = Inr m' \<and> out = persist m'
    \<and> sb m' = image_superblock img \<and> loaded out = m'
    \<and> image_superblock out = image_superblock img
    \<and> length out = length img
    \<and> length (inode_table m') = length (inode_table (loaded img))
    \<and> length (data_region m') = length (data_region (loaded img))"
proof -
  note v = valid_image_parts [OF assms(1)]
  have ld: "load_image img = Inr (loaded img)"
    using v by (rule load_image_valid)
  from assms(2) obtain m' where ins: "insert_file (loaded img) file file_name now = Inr m'"
    and out: "out = persist m'"
    by (auto simp add: mkfs_adder_def ld and_then_Inr_iff split: if_splits)
  note ll = loaded_lengths [OF v]
  note il = insert_file_lengths [OF ins ll(1,2)]
  have s: "sb m' = image_superblock img"
    using il(1) by simp
  have vs: "valid_superblock (sb m')"
    using v(1) s by simp
  have l': "length (inode_bitmap m') = 4096" "length (data_bitmap m') = 4096"
    "length (inode_table m') = unat (inode_table_blocks (sb m')) * 4096"
    "length (data_region m') = unat (data_region_blocks (sb m')) * 4096"
    using il ll s by simp_all
  note lp = loaded_persist [OF vs l']
  show ?thesis
    using ins out s lp il(4,5) v(2) by (intro exI [of _ m']) simp
qed

section \<open>The image the builder writes\<close>

lemma builder_root_inode_zeros:
  assumes "128 \<le> k"
  shows "builder_root_inode (replicate k 0) region_start now
    = Inr (patched (replicate k 0) 0 (inode_bytes (fresh_root region_start now)))"
proof -
  have r: "buf_read (replicate k 0) 0 128 = Inr (replicate 128 0)"
    using assms by (simp add: buf_read_Inr field_replicate)
  show ?thesis
    unfolding builder_root_inode_def r and_then_Inr inode_crc_finalize_finalized
    using assms by (simp add: buf_write_patched fresh_root_def)
qed

lemma builder_dirent_zeros:
  assumes "i * 64 + 64 \<le> length region" "field region (i * 64) 64 = replicate 64 0"
  shows "builder_dirent region i nm
    = Inr (patched region (i * 64) (dirent_bytes (seeded_dirent nm)))"
proof -
  have r: "buf_read region (i * 64) 64 = Inr (replicate 64 0)"
    using assms by (simp add: buf_read_Inr)
  show ?thesis
    unfolding builder_dirent_def r and_then_Inr
    using assms by (simp add: buf_write_patched seeded_dirent_def)
qed

lemma superblock_crc_finalize_reaches:
  assumes "3976 \<le> length beyond"
  shows "\<exists>c. superblock_crc_finalize s beyond = Inr (s\<lparr>superblock.checksum := c\<rparr>)"
proof -
  have "superblock_crc_finalize s beyond = Inr (s\<lparr>superblock.checksum :=
      crc32_loop (take 4092 (superblock_bytes (s\<lparr>superblock.checksum := 0\<rparr>) @ beyond))
        0xFFFFFFFF XOR 0xFFFFFFFF\<rparr>)"
    using assms by (simp add: superblock_crc_finalize_def crc32_def Let_def)
  then show ?thesis
    by (rule exI)
qed

lemma mkfs_builder_success:
  fixes size_kib inodes :: u64
  assumes "180 \<le> size_kib" "size_kib \<le> 4096" "size_kib mod 4 = 0"
    and "128 \<le> inodes" "inodes \<le> 512"
    and "3976 \<le> length beyond"
  shows "\<exists>s. mkfs_builder (Some image_name) size_kib inodes now beyond True
      = Inr (persist (fresh_regions s now))
    \<and> valid_superblock s \<and> inode_count s = inodes
    \<and> unat (total_blocks s) = unat size_kib * 1024 div 4096
    \<and> unat (inode_table_blocks s) = (unat inodes * 128 + 4095) div 4096"
proof -
  from geometry_in_bounds [OF assms(1-5)] obtain g where
    g: "compute_geometry size_kib inodes = Inr g"
    and tb: "unat (g_total_blocks g) = unat size_kib * 1024 div 4096"
    and itb: "unat (g_inode_table_blocks g) = (unat inodes * 128 + 4095) div 4096"
    and drs: "unat (g_data_region_start g) = 3 + unat (g_inode_table_blocks g)"
    and sum: "unat (g_data_region_start g) + unat (g_data_region_blocks g) = unat (g_total_blocks g)"
    and drb: "1 \<le> unat (g_data_region_blocks g)"
    by blast
  have s_b: "unat size_kib \<le> 4096" and n_b: "128 \<le> unat inodes"
    using assms by (simp_all add: word_le_nat_alt)
  have tb_b: "unat (g_total_blocks g) \<le> 1024"
    using s_b tb by simp
  have itb_b: "4 \<le> unat (g_inode_table_blocks g)"
    using n_b itb by simp
  from superblock_crc_finalize_reaches [OF assms(6)] obtain c where
    c: "superblock_crc_finalize (initial_superblock g inodes now) beyond
      = Inr ((initial_superblock g inodes now)\<lparr>superblock.checksum := c\<rparr>)"
    by blast
  let ?s = "(initial_superblock g inodes now)\<lparr>superblock.checksum := c\<rparr>"
  have f: "inode_table_blocks ?s = g_inode_table_blocks g"
    "data_region_blocks ?s = g_data_region_blocks g"
    "data_region_start ?s = g_data_region_start g"
    "total_blocks ?s = g_total_blocks g" "inode_count ?s = inodes"
    by (simp_all add: initial_superblock_def)
  have v: "valid_superblock ?s"
    using tb_b itb_b drs sum drb by (simp add: valid_superblock_def initial_superblock_def)
  note o = valid_superblock_offsets [OF v, unfolded f]
  let ?itab0 = "replicate (unat (g_inode_table_blocks g) * 4096) (0 :: u8)"
  let ?dreg0 = "replicate (unat (g_data_region_blocks g) * 4096) (0 :: u8)"
  let ?m = "fresh_regions ?s now"
  have ri: "builder_root_inode ?itab0 (g_data_region_start g) now = Inr (inode_table ?m)"
    using itb_b by (simp add: builder_root_inode_zeros fresh_regions_def f)
  let ?d1 = "patched ?dreg0 0 (dirent_bytes (seeded_dirent [0x2E]))"
  have d0: "builder_dirent ?dreg0 0 [0x2E] = Inr ?d1"
    using drb builder_dirent_zeros [of 0 ?dreg0 "[0x2E]"] by (simp add: field_replicate)
  have l1: "length ?d1 = unat (g_data_region_blocks g) * 4096"
    using drb by (simp add: length_patched)
  have "field ?d1 64 64 = field ?dreg0 64 64"
    using drb by (intro field_patched_outside) simp_all
  then have z1: "field ?d1 (1 * 64) 64 = replicate 64 0"
    using drb by (simp add: field_replicate)
  have d1: "builder_dirent ?d1 1 [0x2E, 0x2E] = Inr (data_region ?m)"
    using builder_dirent_zeros [of 1 ?d1 "[0x2E, 0x2E]"] z1 l1 drb
    by (simp add: fresh_regions_def f)
  have lm: "length (inode_bitmap ?m) = 4096" "length (data_bitmap ?m) = 4096"
    "length (inode_table ?m) = unat (inode_table_blocks (sb ?m)) * 4096"
    "length (data_region ?m) = unat (data_region_blocks (sb ?m)) * 4096"
    using itb_b drb by (simp_all add: fresh_regions_def length_patched f)
  have sm: "sb ?m = ?s"
    by (simp add: fresh_regions_def)
  have vm: "valid_superblock (sb ?m)"
    using v sm by simp
  note pl = persist_layout [OF vm lm]
  let ?c0 = "superblock_bytes ?s @ replicate 3980 0"
  let ?ib = "(replicate 4096 (0 :: u8))[0 := 1]"
  have bm: "inode_bitmap ?m = ?ib" "data_bitmap ?m = ?ib"
    by (simp_all add: fresh_regions_def)
  have P: "persist ?m = ?c0 @ ?ib @ ?ib @ inode_table ?m @ data_region ?m"
    using pl by (simp add: bm sm)
  have w0: "fwrite1 \<lparr>contents = [], pos = 0\<rparr> ?c0 = \<lparr>contents = ?c0, pos = 4096\<rparr>"
    using fwrite1_append [of "[]" ?c0] by simp
  have w1: "fwrite1 \<lparr>contents = ?c0, pos = 4096\<rparr> ?ib
      = \<lparr>contents = ?c0 @ ?ib, pos = 8192\<rparr>"
    using fwrite1_append [of ?c0 ?ib] by simp
  have w2: "fwrite1 \<lparr>contents = ?c0 @ ?ib, pos = 8192\<rparr> ?ib
      = \<lparr>contents = ?c0 @ ?ib @ ?ib, pos = 12288\<rparr>"
    using fwrite1_append [of "?c0 @ ?ib" ?ib] by simp
  have w3: "fwrite1 \<lparr>contents = ?c0 @ ?ib @ ?ib, pos = 12288\<rparr> (inode_table ?m)
      = \<lparr>contents = ?c0 @ ?ib @ ?ib @ inode_table ?m,
          pos = 12288 + unat (g_inode_table_blocks g) * 4096\<rparr>"
    using fwrite1_append [of "?c0 @ ?ib @ ?ib" "inode_table ?m"] lm
    by (simp add: sm f)
  have w4: "fwrite1 \<lparr>contents = ?c0 @ ?ib @ ?ib @ inode_table ?m,
          pos = 12288 + unat (g_inode_table_blocks g) * 4096\<rparr> (data_region ?m)
      = \<lparr>contents = persist ?m, pos = unat (g_total_blocks g) * 4096\<rparr>"
    using fwrite1_append [of "?c0 @ ?ib @ ?ib @ inode_table ?m" "data_region ?m"] lm o(11)
    by (simp add: sm f P)
  have "unat (g_total_blocks g * 4096) < 2 ^ 63"
    using tb_b unat_times_BS(1) [OF tb_b] by simp
  then have sz: "sint (g_total_blocks g * 4096) = int (unat (g_total_blocks g) * 4096)"
    using unat_times_BS(1) [OF tb_b] by (simp add: sint_u64_small)
  have "mkfs_builder (Some image_name) size_kib inodes now beyond True
      = (let fp = fwrite1 \<lparr>contents = [], pos = 0\<rparr> ?c0;
             fp = fwrite1 fp ?ib;
             fp = fwrite1 fp ?ib;
             fp = fwrite1 fp (inode_table ?m);
             fp = fwrite1 fp (data_region ?m)
         in if int (pos fp) \<noteq> sint (g_total_blocks g * 4096) then Inl SizeMismatch
            else Inr (contents fp))"
    unfolding mkfs_builder_def g c and_then_Inr o(7) o(10) ri d0 d1
    by (simp add: Let_def)
  also have "\<dots> = Inr (persist ?m)"
    unfolding Let_def w0 w1 w2 w3 w4 sz by simp
  finally have "mkfs_builder (Some image_name) size_kib inodes now beyond True
      = Inr (persist ?m)" .
  then show ?thesis
    using v f tb itb by (intro exI [of _ ?s]) simp
qed

section \<open>Allocation in a dense bitmap\<close>

lemma dense_set_next:
  assumes "dense bitmap d" "d < 32768"
  shows "\<exists>bitmap'. set_bit_at bitmap (int d) = Inr bitmap' \<and> dense bitmap' (Suc d)"
proof -
  have l: "length bitmap = 4096" and b: "\<And>j. j < 32768 \<Longrightarrow> bit_at bitmap j = (j < d)"
    using assms(1) by (simp_all add: dense_def)
  have r: "d div 8 < length bitmap"
    using assms(2) l by (simp add: div_less_iff_less_mult)
  then obtain bitmap' where s: "set_bit_at bitmap (int d) = Inr bitmap'"
    using set_bit_at_Inr [of "int d" bitmap] by auto
  note sr = set_bit_at_result [OF s]
  have "bit_at bitmap' j = (j < Suc d)" if "j < 32768" for j
    using sr(4) [of j] b [OF that] by auto
  then have "dense bitmap' (Suc d)"
    using sr(3) l by (simp add: dense_def)
  with s show ?thesis by blast
qed

lemma dense_first_free:
  assumes "dense bitmap d" "d < 32768" "d < unat cnt"
  shows "find_free_data_block bitmap cnt = Inr (int d)"
    and "find_free_inode bitmap cnt = Inr (int d + 1)"
proof -
  have l: "length bitmap = 4096" and b: "\<And>j. j < 32768 \<Longrightarrow> bit_at bitmap j = (j < d)"
    using assms(1) by (simp_all add: dense_def)
  have n: "\<not> bit_at bitmap d"
    using b [OF assms(2)] by simp
  have a: "bit_at bitmap j" if "j < d" for j
    using that b [of j] assms(2) by simp
  show "find_free_data_block bitmap cnt = Inr (int d)"
    using l assms(3,2) n a by (rule find_free_data_block_finds)
  show "find_free_inode bitmap cnt = Inr (int d + 1)"
    using l assms(3,2) n a by (rule find_free_inode_finds)
qed

lemma dense_full:
  assumes "dense bitmap d" "unat cnt \<le> d" "unat cnt \<le> 32768"
  shows "find_free_data_block bitmap cnt = Inr (- 1)"
    and "find_free_inode bitmap cnt = Inr (- 1)"
proof -
  have l: "length bitmap = 4096" and b: "\<And>j. j < 32768 \<Longrightarrow> bit_at bitmap j = (j < d)"
    using assms(1) by (simp_all add: dense_def)
  have "scan_bitmap bitmap (unat cnt) i = Inr None" for i
  proof (induction "unat cnt - i" arbitrary: i)
    case 0
    then show ?case
      by (subst scan_bitmap.simps) simp
  next
    case (Suc k)
    then have lt: "i < unat cnt" by simp
    then have i: "i < 32768" "i < d"
      using assms(2,3) by simp_all
    have r: "i div 8 < length bitmap"
      using i l by (simp add: div_less_iff_less_mult)
    have "bit_at bitmap i"
      using b [OF i(1)] i(2) by simp
    moreover have "scan_bitmap bitmap (unat cnt) (Suc i) = Inr None"
      using Suc.hyps(2) by (intro Suc.hyps(1)) simp
    ultimately show ?case
      using lt r by (subst scan_bitmap.simps) (simp add: bit_at_def)
  qed
  then show "find_free_data_block bitmap cnt = Inr (- 1)"
    and "find_free_inode bitmap cnt = Inr (- 1)"
    by (simp_all add: find_free_data_block_def find_free_inode_def)
qed

lemma alloc_data_blocks_dense:
  assumes "dense bitmap d" "d + (n - i) \<le> unat (data_region_blocks s)" "d + (n - i) \<le> 32768"
  shows "\<exists>blocks' bitmap'. alloc_data_blocks s n i blocks bitmap = Inr (blocks', bitmap')
    \<and> dense bitmap' (d + (n - i)) \<and> length blocks' = length blocks
    \<and> (\<forall>j. i \<le> j \<and> j < n \<and> j < length blocks \<longrightarrow>
          blocks' ! j = ucast (data_region_start s + of_nat (d + (j - i))))"
  using assms
proof (induction "n - i" arbitrary: i blocks bitmap d)
  case 0
  then show ?case
    by (subst alloc_data_blocks.simps) auto
next
  case (Suc k)
  then have lt: "i < n" and k: "k = n - Suc i" and ni: "n - i = Suc (n - Suc i)"
    by simp_all
  have d: "d < 32768" "d < unat (data_region_blocks s)"
    using Suc.prems(2,3) ni by simp_all
  note ff = dense_first_free(1) [OF Suc.prems(1) d]
  from dense_set_next [OF Suc.prems(1) d(1)] obtain bitmap1 where
    sb: "set_bit_at bitmap (int d) = Inr bitmap1" and d1: "dense bitmap1 (Suc d)"
    by blast
  let ?blocks1 = "blocks[i := ucast (data_region_start s + of_int (int d))]"
  have p2: "Suc d + (n - Suc i) \<le> unat (data_region_blocks s)" "Suc d + (n - Suc i) \<le> 32768"
    using Suc.prems(2,3) ni by simp_all
  from Suc.hyps(1) [OF k d1 p2, of ?blocks1] obtain blocks' bitmap' where
    rec: "alloc_data_blocks s n (Suc i) ?blocks1 bitmap1 = Inr (blocks', bitmap')"
    and dn: "dense bitmap' (Suc d + (n - Suc i))"
    and lb: "length blocks' = length ?blocks1"
    and nw: "\<forall>j. Suc i \<le> j \<and> j < n \<and> j < length ?blocks1 \<longrightarrow>
          blocks' ! j = ucast (data_region_start s + of_nat (Suc d + (j - Suc i)))"
    by blast
  have l1: "length bitmap1 = 4096"
    using d1 by (simp add: dense_def)
  from alloc_data_blocks_result [OF rec l1]
  have keep: "\<forall>j. j < Suc i \<longrightarrow> blocks' ! j = ?blocks1 ! j"
    by simp
  have eq: "alloc_data_blocks s n i blocks bitmap = Inr (blocks', bitmap')"
    using lt ff sb rec by (subst alloc_data_blocks.simps) simp
  have "blocks' ! j = ucast (data_region_start s + of_nat (d + (j - i)))"
    if "i \<le> j" "j < n" "j < length blocks" for j
  proof (cases "j = i")
    case True
    then show ?thesis
      using keep that by simp
  next
    case False
    with that have s: "Suc i \<le> j" by simp
    then have e: "Suc d + (j - Suc i) = d + (j - i)"
      by simp
    have "j < length ?blocks1"
      using that by simp
    with nw s that(2) have "blocks' ! j = ucast (data_region_start s + of_nat (Suc d + (j - Suc i)))"
      by blast
    then show ?thesis
      by (simp only: e)
  qed
  then have nw': "\<forall>j. i \<le> j \<and> j < n \<and> j < length blocks \<longrightarrow>
      blocks' ! j = ucast (data_region_start s + of_nat (d + (j - i)))"
    by blast
  have "Suc d + (n - Suc i) = d + (n - i)"
    using ni by simp
  with dn have dn': "dense bitmap' (d + (n - i))"
    by (simp only:)
  have lb': "length blocks' = length blocks"
    using lb by simp
  show ?case
    using eq dn' lb' nw' by blast
qed

section \<open>Sizes and offsets without wrap-around\<close>

lemma unat_of_nat_u64: "n < 2 ^ 64 \<Longrightarrow> unat (of_nat n :: u64) = n"
  by (simp add: unat_of_nat)

lemma unat_of_nat_u32: "n < 2 ^ 32 \<Longrightarrow> unat (of_nat n :: u32) = n"
  by (simp add: unat_of_nat)

lemma unat_ucast_u64_u32:
  fixes w :: u64
  assumes "unat w < 2 ^ 32"
  shows "unat (ucast w :: u32) = unat w"
  using assms by (simp add: unsigned_ucast_eq take_bit_nat_eq_self)

lemma unat_ucast_u32_u64:
  fixes w :: u32
  shows "unat (ucast w :: u64) = unat w"
proof -
  have "unat w < 2 ^ 32"
    using unsigned_less [of w] by simp
  then have "unat w < 2 ^ 64"
    by simp
  then show ?thesis
    by (simp add: unsigned_ucast_eq take_bit_nat_eq_self)
qed

lemma needed_blocks_small:
  assumes "S \<le> 49152"
  shows "unat (((of_nat S :: u64) + 4096 - 1) div 4096) = (S + 4095) div 4096"
    and "\<not> ((of_nat S :: u64) + 4096 - 1) div 4096 > 12"
proof -
  let ?fs = "of_nat S :: u64"
  have u: "unat ?fs = S"
    using assms by (intro unat_of_nat_u64) simp
  have "unat (?fs + 4095) = unat ?fs + 4095"
    using assms u unat_add_lem [of ?fs 4095] by simp
  then have d: "unat ((?fs + 4095) div 4096) = (S + 4095) div 4096"
    using u by (simp only: unat_div) simp
  have e: "?fs + 4096 - 1 = ?fs + 4095"
    by simp
  show "unat ((?fs + 4096 - 1) div 4096) = (S + 4095) div 4096"
    unfolding e by (rule d)
  have "(S + 4095) div 4096 \<le> 12"
    using assms by simp
  then have "\<not> 12 < unat ((?fs + 4095) div 4096)"
    using d by simp
  then show "\<not> (?fs + 4096 - 1) div 4096 > 12"
    unfolding e by (simp add: word_less_nat_alt)
qed

lemma copy_size_bounds:
  assumes "S \<le> 49152" "j < (S + 4095) div 4096"
  shows "j * 4096 + copy_size (of_nat S) ((S + 4095) div 4096) j \<le> S"
    and "copy_size (of_nat S) ((S + 4095) div 4096) j \<le> 4096"
proof -
  let ?nb = "(S + 4095) div 4096"
  have j: "j * 4096 < S"
    using assms(2) by arith
  have jb: "j < 13"
    using assms by simp
  have uS: "unat (of_nat S :: u64) = S"
    using assms(1) by (intro unat_of_nat_u64) simp
  have uj: "unat (of_nat j * 4096 :: u64) = j * 4096"
  proof -
    have "unat (of_nat j :: u64) = j"
      using jb by (intro unat_of_nat_u64) simp
    then show ?thesis
      using jb unat_mul_small [of "of_nat j" 4096] by simp
  qed
  have le: "(of_nat j * 4096 :: u64) \<le> of_nat S"
    using j uS uj by (simp add: word_le_nat_alt)
  have sub: "unat ((of_nat S :: u64) - of_nat j * 4096) = S - j * 4096"
    using le uS uj by (simp add: unat_sub)
  have last: "copy_size (of_nat S) ?nb j = S - j * 4096" if "j = ?nb - 1"
    unfolding copy_size_def if_P [OF that] by (rule sub)
  show "j * 4096 + copy_size (of_nat S) ?nb j \<le> S"
  proof (cases "j = ?nb - 1")
    case True
    show ?thesis
      unfolding last [OF True] using j by simp
  next
    case False
    with assms(2) have "Suc j < ?nb" by simp
    then have "j * 4096 + 4096 \<le> S"
      by arith
    with False show ?thesis
      by (simp add: copy_size_def)
  qed
  show "copy_size (of_nat S) ?nb j \<le> 4096"
  proof (cases "j = ?nb - 1")
    case True
    have "S - j * 4096 \<le> 4096"
      using True assms(2) by arith
    then show ?thesis
      unfolding last [OF True] .
  next
    case False
    then show ?thesis
      by (simp add: copy_size_def)
  qed
qed

lemma block_offset_of:
  assumes "data_blocks ! j = ucast (data_region_start s + of_nat f)"
    and "unat (data_region_start s) + f < 2 ^ 32"
  shows "block_offset s data_blocks j = f * 4096"
proof -
  let ?d = "data_region_start s"
  have f64: "f < 2 ^ 64" and f32: "f < 2 ^ 32"
    using assms(2) by simp_all
  have uf: "unat (of_nat f :: u64) = f"
    using f64 by (rule unat_of_nat_u64)
  have sum: "unat (?d + of_nat f) = unat ?d + f"
    using assms(2) uf unat_add_lem [of ?d "of_nat f"] by simp
  have "unat (ucast (ucast (?d + of_nat f) :: u32) :: u64) = unat (?d + of_nat f)"
    using assms(2) sum by (simp add: unat_ucast_u32_u64 unat_ucast_u64_u32)
  then have bk: "(ucast (ucast (?d + of_nat f) :: u32) :: u64) = ?d + of_nat f"
    by (simp only: word_unat_eq_iff)
  have "unat ((of_nat f :: u64) * 4096) = f * 4096"
    using unat_mul_small [of "of_nat f" 4096] uf f32 by simp
  then show ?thesis
    by (simp add: block_offset_def assms(1) bk)
qed

lemma new_inode_offset_next:
  assumes "a < 32768"
  shows "new_inode_offset (int a + 1) = a * 128"
proof -
  have "unat (of_nat a :: u32) = a"
    using assms by (intro unat_of_nat_u32) simp
  moreover from this have "unat (of_nat a :: u32) * unat (128 :: u32) < 2 ^ LENGTH(32)"
    using assms by simp
  ultimately have "unat ((of_nat a :: u32) * 128) = a * 128"
    using unat_mult_lem [of "of_nat a :: u32" 128] by simp
  then show ?thesis
    by (simp add: new_inode_offset_def)
qed

lemma root_entries_offset_valid:
  assumes "unat (data_region_start s) \<le> unat (direct root ! 0)"
    and "unat (direct root ! 0) - unat (data_region_start s) < 2 ^ 20"
  shows "root_entries_offset s root = (unat (direct root ! 0) - unat (data_region_start s)) * 4096"
proof -
  let ?d = "data_region_start s"
  let ?x = "ucast (direct root ! 0) :: u64"
  let ?k = "unat (direct root ! 0) - unat ?d"
  have ux: "unat ?x = unat (direct root ! 0)"
    by (rule unat_ucast_u32_u64)
  have le: "?d \<le> ?x"
    using assms(1) ux by (simp add: word_le_nat_alt)
  have sub: "unat (?x - ?d) = ?k"
    using le ux by (simp add: unat_sub)
  have "unat (ucast (?x - ?d) :: u32) = ?k"
    using assms(2) sub by (simp add: unat_ucast_u64_u32)
  moreover from this have "unat (ucast (?x - ?d) :: u32) * unat (4096 :: u32) < 2 ^ LENGTH(32)"
    using assms(2) by simp
  ultimately have "unat ((ucast (?x - ?d) :: u32) * 4096) = ?k * 4096"
    using unat_mult_lem [of "ucast (?x - ?d) :: u32" 4096] by simp
  then show ?thesis
    by (simp add: root_entries_offset_def Let_def)
qed

lemma root_entries_offset_at_start:
  assumes "direct root ! 0 = ucast (data_region_start s)" "unat (data_region_start s) < 2 ^ 32"
  shows "root_entries_offset s root = 0"
proof -
  have "unat (direct root ! 0) = unat (data_region_start s)"
    using assms by (simp add: unat_ucast_u64_u32)
  then show ?thesis
    using root_entries_offset_valid [of s root] by simp
qed

section \<open>The copy loop runs\<close>

lemma write_file_blocks_runs:
  assumes "\<And>j. i \<le> j \<Longrightarrow> j < n \<Longrightarrow>
      j * 4096 + copy_size file_size n j \<le> length file_content
      \<and> block_offset s data_blocks j + copy_size file_size n j \<le> length region"
  shows "\<exists>region'. write_file_blocks s file_size file_content data_blocks n i region = Inr region'"
  using assms
proof (induction "n - i" arbitrary: i region)
  case 0
  then show ?case
    by (subst write_file_blocks_step) simp
next
  case (Suc k)
  then have lt: "i < n" by simp
  from Suc.prems [of i] lt
  have a: "i * 4096 + copy_size file_size n i \<le> length file_content"
    and b: "block_offset s data_blocks i + copy_size file_size n i \<le> length region"
    by simp_all
  let ?chunk = "field file_content (i * 4096) (copy_size file_size n i)"
  have rd: "buf_read file_content (i * 4096) (copy_size file_size n i) = Inr ?chunk"
    using a by (rule buf_read_Inr)
  have cl: "length ?chunk = copy_size file_size n i"
    using a by (rule length_field)
  let ?r1 = "patched region (block_offset s data_blocks i) ?chunk"
  have wr: "buf_write region (block_offset s data_blocks i) ?chunk = Inr ?r1"
    using b cl by (intro buf_write_patched) simp
  have l1: "length ?r1 = length region"
    using b cl by (intro length_patched) simp
  have "\<exists>region'. write_file_blocks s file_size file_content data_blocks n (Suc i) ?r1 = Inr region'"
  proof (rule Suc.hyps(1))
    show "k = n - Suc i"
      using Suc.hyps(2) by simp
    show "j * 4096 + copy_size file_size n j \<le> length file_content
        \<and> block_offset s data_blocks j + copy_size file_size n j \<le> length ?r1"
      if "Suc i \<le> j" "j < n" for j
      using Suc.prems [of j] that l1 by simp
  qed
  then show ?case
    using lt rd wr by (subst write_file_blocks_step) simp
qed

section \<open>The root inode behind writes to the table\<close>

lemma root_of_patched_other:
  assumes "off + length bs \<le> length table" "128 \<le> off"
  shows "root_of (patched table off bs) = root_of table"
proof -
  have "field (patched table off bs) 0 128 = field table 0 128"
    using assms by (intro field_patched_outside) simp_all
  then show ?thesis
    by (simp add: root_of_def)
qed

lemma root_of_patched_root:
  assumes "128 \<le> length table" "length (direct ino) = 12"
  shows "root_of (patched table 0 (inode_bytes ino)) = ino"
proof -
  have "field (patched table 0 (inode_bytes ino)) 0 (length (inode_bytes ino)) = inode_bytes ino"
    using assms(1) by (intro field_patched_same) simp
  then show ?thesis
    using assms(2) by (simp add: root_of_def inode_of_bytes direct12_id)
qed

lemma length_direct_root_of [simp]: "length (direct (root_of table)) = 12"
  by (simp add: root_of_def inode_of_def)

lemma finalized_fields [simp]:
  "mode (finalized ino) = mode ino" "links (finalized ino) = links ino"
  "size_bytes (finalized ino) = size_bytes ino" "direct (finalized ino) = direct ino"
  by (simp_all add: finalized_def)

section \<open>Running an insert forward\<close>

lemma insert_file_run:
  assumes "find_free_inode (inode_bitmap m) (inode_count (sb m)) = Inr free_inode"
    and "free_inode \<noteq> - 1"
    and "\<not> ((of_nat (length bytes) :: u64) + 4096 - 1) div 4096 > 12"
    and "alloc_data_blocks (sb m) (unat (((of_nat (length bytes) :: u64) + 4096 - 1) div 4096)) 0
         (replicate 12 0) (data_bitmap m) = Inr (data_blocks, dbitmap)"
    and "fread1 \<lparr>contents = bytes, pos = 0\<rparr> (unat (of_nat (length bytes) :: u64))
         = Some (file_content, file_fp)"
    and "write_file_blocks (sb m) (of_nat (length bytes)) file_content data_blocks
         (unat (((of_nat (length bytes) :: u64) + 4096 - 1) div 4096)) 0 (data_region m)
         = Inr dregion1"
    and "create_inode (inode_table m) free_inode (of_nat (length bytes)) now
         (unat (((of_nat (length bytes) :: u64) + 4096 - 1) div 4096)) data_blocks = Inr itable1"
    and "set_bit_at (inode_bitmap m) (free_inode - 1) = Inr ibitmap"
    and "find_root_slot (m\<lparr> inode_bitmap := ibitmap, data_bitmap := dbitmap,
                inode_table := itable1, data_region := dregion1 \<rparr>) = r"
  shows "insert_file m (Some bytes) file_name now =
    and_then r (\<lambda>(free_entry, root_off, itable2).
      and_then (write_dirent dregion1 root_off free_entry free_inode file_name) (\<lambda>dregion2.
      and_then (bump_root_links itable2) (\<lambda>itable3.
        Inr (m\<lparr> inode_bitmap := ibitmap, data_bitmap := dbitmap,
                inode_table := itable3, data_region := dregion2 \<rparr>))))"
  unfolding insert_file_def Let_def using assms by simp

lemma insert_file_empty:
  assumes "find_free_inode (inode_bitmap m) (inode_count (sb m)) = Inr free_inode"
    and "free_inode \<noteq> - 1"
  shows "insert_file m (Some []) file_name now = Inl ReadFileFailed"
proof -
  have z: "((0 :: u64) + 4096 - 1) div 4096 = 0"
    by simp
  have a: "alloc_data_blocks (sb m) 0 0 (replicate 12 0) (data_bitmap m)
      = Inr (replicate 12 0, data_bitmap m)"
    by (subst alloc_data_blocks.simps) simp
  have f: "fread1 \<lparr>contents = [], pos = 0\<rparr> 0 = None"
    by (simp add: fread1_def)
  show ?thesis
    unfolding insert_file_def Let_def using assms a f by simp
qed

lemma valid_superblock_bounds:
  assumes "valid_superblock s"
  shows "unat (data_region_start s) \<le> 1024" "unat (data_region_blocks s) \<le> 1024"
    and "unat (inode_table_blocks s) \<le> 1024" "1 \<le> unat (data_region_blocks s)"
    and "1 \<le> unat (inode_table_blocks s)"
  using assms by (simp_all add: valid_superblock_def)

lemma entry_count_of_size:
  assumes "size_bytes root = of_nat (n * 64)" "n \<le> 64"
  shows "entry_count_of root = n"
proof -
  have "unat (of_nat (n * 64) :: u64) = n * 64"
    using assms(2) by (intro unat_of_nat_u64) simp
  then have "unat ((of_nat (n * 64) :: u64) div 64) = n"
    by (simp add: unat_div)
  then show ?thesis
    by (simp add: entry_count_of_def assms(1))
qed

lemma rd32_dirent_bytes: "rd32 (dirent_bytes de) 0 = inode_no de"
proof -
  have "inode_no (dirent_of (dirent_bytes de)) = inode_no de"
    by (simp add: dirent_of_bytes)
  then show ?thesis
    by (simp add: dirent_of_def)
qed

lemma rd32_field: "o2 + 4 \<le> k \<Longrightarrow> off + k \<le> length buf \<Longrightarrow> rd32 (field buf off k) o2 = rd32 buf (off + o2)"
  by (simp add: rd32_def field_field)

section \<open>One insert into a packed image\<close>

lemma insert_file_packed:
  assumes p: "packed m a d n"
    and a: "a < unat (inode_count (sb m))" "a * 128 + 128 \<le> length (inode_table m)"
    and S: "1 \<le> length bytes" "length bytes \<le> 49152"
    and dd: "d + (length bytes + 4095) div 4096 \<le> unat (data_region_blocks (sb m))"
  shows "n = 64 \<Longrightarrow> insert_file m (Some bytes) file_name now = Inl RootDirectoryFull"
    and "n < 64 \<Longrightarrow> \<exists>m'. insert_file m (Some bytes) file_name now = Inr m'
      \<and> packed m' (Suc a) (d + (length bytes + 4095) div 4096) (Suc n)
      \<and> sb m' = sb m
      \<and> links (root_of (inode_table m')) = links (root_of (inode_table m)) + 1
      \<and> size_bytes (inode_of (field (inode_table m') (a * 128) 128)) = of_nat (length bytes)
      \<and> mode (inode_of (field (inode_table m') (a * 128) 128)) = 0x8000
      \<and> inode_no (dirent_of (field (data_region m') (n * 64) 64)) = of_nat (Suc a)
      \<and> type (dirent_of (field (data_region m') (n * 64) 64)) = 1
      \<and> name (dirent_of (field (data_region m') (n * 64) 64)) = stored_name file_name"
proof -
  let ?S = "length bytes"
  let ?nb = "(?S + 4095) div 4096"
  let ?fs = "of_nat ?S :: u64"
  let ?table = "inode_table m"
  let ?region = "data_region m"
  let ?root = "root_of ?table"
  from p have vs: "valid_superblock (sb m)"
    and ia: "dense (inode_bitmap m) a" and id: "dense (data_bitmap m) d"
    and lt: "length ?table = unat (inode_table_blocks (sb m)) * 4096"
    and lr: "length ?region = unat (data_region_blocks (sb m)) * 4096"
    and a1: "1 \<le> a" and d1: "1 \<le> d"
    and rd: "direct ?root ! 0 = ucast (data_region_start (sb m))"
    and rs: "size_bytes ?root = of_nat (n * 64)"
    and n64: "n \<le> 64"
    and en: "\<And>j. j < n \<Longrightarrow> entry_inode_no ?region 0 j \<noteq> 0"
    and ic: "unat (inode_count (sb m)) * 128 \<le> length ?table"
    by (simp_all add: packed_def)
  note vb = valid_superblock_bounds [OF vs]
  note nbs = needed_blocks_small [OF S(2)]
  have nb12: "?nb \<le> 12" and nb1: "1 \<le> ?nb"
    using S by simp_all
  have a32: "a < 32768"
    using a(2) lt vb(3) by simp
  note ffi = dense_first_free(2) [OF ia a32 a(1)]
  have fin: "int a + 1 \<noteq> - 1"
    by simp
  from alloc_data_blocks_dense [of "data_bitmap m" d ?nb 0 "sb m" "replicate 12 0"] id dd vb(2)
  obtain blocks' bitmap' where
    al: "alloc_data_blocks (sb m) ?nb 0 (replicate 12 0) (data_bitmap m) = Inr (blocks', bitmap')"
    and db: "dense bitmap' (d + ?nb)"
    and bl: "\<forall>j. 0 \<le> j \<and> j < ?nb \<and> j < length (replicate 12 (0 :: u32)) \<longrightarrow>
          blocks' ! j = ucast (data_region_start (sb m) + of_nat (d + (j - 0)))"
    by auto
  have bo: "block_offset (sb m) blocks' j = (d + j) * 4096" if "j < ?nb" for j
  proof (rule block_offset_of)
    show "blocks' ! j = ucast (data_region_start (sb m) + of_nat (d + j))"
      using bl that nb12 by simp
    show "unat (data_region_start (sb m)) + (d + j) < 2 ^ 32"
      using that dd vb(1,2) by simp
  qed
  have ufs: "unat ?fs = ?S"
    using S(2) by (intro unat_of_nat_u64) simp
  have fr: "fread1 \<lparr>contents = bytes, pos = 0\<rparr> (unat ?fs)
      = Some (bytes, \<lparr>contents = bytes, pos = ?S\<rparr>)"
  proof -
    have "bytes \<noteq> []"
      using S(1) by auto
    then show ?thesis
      using fread1_Some [of ?S 0 bytes] by (simp add: ufs field_all)
  qed
  have "\<exists>region'. write_file_blocks (sb m) ?fs bytes blocks' ?nb 0 ?region = Inr region'"
  proof (rule write_file_blocks_runs)
    fix j assume j: "0 \<le> j" "j < ?nb"
    note cs = copy_size_bounds [OF S(2) j(2)]
    have "(d + j) * 4096 + 4096 \<le> length ?region"
      using j(2) dd lr by simp
    then show "j * 4096 + copy_size ?fs ?nb j \<le> ?S
        \<and> block_offset (sb m) blocks' j + copy_size ?fs ?nb j \<le> length ?region"
      using cs bo [OF j(2)] by simp
  qed
  then obtain dregion1 where
    wf: "write_file_blocks (sb m) ?fs bytes blocks' ?nb 0 ?region = Inr dregion1"
    by blast
  from write_file_blocks_result [OF wf]
  have l1: "length dregion1 = length ?region"
    and fr1: "\<And>p. p < length ?region \<Longrightarrow>
          (\<forall>j. 0 \<le> j \<and> j < ?nb \<longrightarrow>
             p < block_offset (sb m) blocks' j
             \<or> block_offset (sb m) blocks' j + copy_size ?fs ?nb j \<le> p) \<Longrightarrow>
          dregion1 ! p = ?region ! p"
    by simp_all
  have r4096: "4096 \<le> length ?region"
    using lr vb(4) by simp
  have low: "dregion1 ! p = ?region ! p" if "p < 4096" for p
  proof (rule fr1)
    show "p < length ?region"
      using that r4096 by simp
    show "\<forall>j. 0 \<le> j \<and> j < ?nb \<longrightarrow>
             p < block_offset (sb m) blocks' j
             \<or> block_offset (sb m) blocks' j + copy_size ?fs ?nb j \<le> p"
      using that d1 by (simp add: bo)
  qed
  have flow: "field dregion1 off k = field ?region off k" if "off + k \<le> 4096" for off k
    using that r4096 l1 by (intro field_cong_nth low) simp_all
  let ?ino = "new_inode (field ?table (a * 128) 128) ?fs now ?nb blocks'"
  let ?itable1 = "patched ?table (a * 128) (inode_bytes ?ino)"
  note nio = new_inode_offset_next [OF a32]
  have ci: "create_inode ?table (int a + 1) ?fs now ?nb blocks' = Inr ?itable1"
    using a(2) by (simp add: create_inode_unfold nio)
  from dense_set_next [OF ia a32] obtain ibitmap where
    sbit: "set_bit_at (inode_bitmap m) (int a) = Inr ibitmap" and di: "dense ibitmap (Suc a)"
    by blast
  let ?m1 = "m\<lparr> inode_bitmap := ibitmap, data_bitmap := bitmap',
                inode_table := ?itable1, data_region := dregion1 \<rparr>"
  have t128: "128 \<le> length ?table"
    using a(2) by simp
  have lt1: "length ?itable1 = length ?table"
    using a(2) by (intro length_patched) simp
  have r1: "root_of ?itable1 = ?root"
    using a(2) a1 by (intro root_of_patched_other) simp_all
  have ec: "entry_count_of ?root = n"
    using rs n64 by (rule entry_count_of_size)
  have ro: "root_entries_offset (sb m) ?root = 0"
    using rd vb(1) by (intro root_entries_offset_at_start) simp_all
  have en1: "entry_inode_no dregion1 0 j \<noteq> 0" if "j < n" for j
  proof -
    have "field dregion1 (j * 64) 4 = field ?region (j * 64) 4"
      using that n64 by (intro flow) simp
    then show ?thesis
      using en [OF that] by (simp add: entry_inode_no_def rd32_def)
  qed
  have run: "insert_file m (Some bytes) file_name now =
    and_then (find_root_slot ?m1) (\<lambda>(free_entry, root_off, itable2).
      and_then (write_dirent dregion1 root_off free_entry (int a + 1) file_name) (\<lambda>dregion2.
      and_then (bump_root_links itable2) (\<lambda>itable3.
        Inr (m\<lparr> inode_bitmap := ibitmap, data_bitmap := bitmap',
                inode_table := itable3, data_region := dregion2 \<rparr>))))"
    using ffi fin nbs al fr wf ci sbit
    by (intro insert_file_run [where file_fp = "\<lparr>contents = bytes, pos = ?S\<rparr>"]) simp_all
  show "insert_file m (Some bytes) file_name now = Inl RootDirectoryFull" if "n = 64"
  proof -
    have "find_root_slot ?m1 = Inl RootDirectoryFull"
    proof (rule find_root_slot_full)
      show "128 \<le> length (inode_table ?m1)"
        using t128 lt1 by simp
      show "64 \<le> entry_count_of (root_of (inode_table ?m1))"
        using that by (simp add: r1 ec)
      show "root_entries_offset (sb ?m1) (root_of (inode_table ?m1))
          + entry_count_of (root_of (inode_table ?m1)) * 64 \<le> length (data_region ?m1)"
        using that r4096 l1 by (simp add: r1 ec ro)
      show "entry_inode_no (data_region ?m1) (root_entries_offset (sb ?m1) (root_of (inode_table ?m1))) j \<noteq> 0"
        if "j < entry_count_of (root_of (inode_table ?m1))" for j
        using that en1 [of j] by (simp add: r1 ec ro)
    qed
    then show ?thesis
      by (simp add: run)
  qed
  show "\<exists>m'. insert_file m (Some bytes) file_name now = Inr m'
      \<and> packed m' (Suc a) (d + ?nb) (Suc n)
      \<and> sb m' = sb m
      \<and> links (root_of (inode_table m')) = links (root_of (inode_table m)) + 1
      \<and> size_bytes (inode_of (field (inode_table m') (a * 128) 128)) = of_nat (length bytes)
      \<and> mode (inode_of (field (inode_table m') (a * 128) 128)) = 0x8000
      \<and> inode_no (dirent_of (field (data_region m') (n * 64) 64)) = of_nat (Suc a)
      \<and> type (dirent_of (field (data_region m') (n * 64) 64)) = 1
      \<and> name (dirent_of (field (data_region m') (n * 64) 64)) = stored_name file_name"
    if nlt: "n < 64"
  proof -
    let ?root2 = "finalized (?root\<lparr>size_bytes := size_bytes ?root + 64\<rparr>)"
    let ?itable2 = "patched ?itable1 0 (inode_bytes ?root2)"
    have frs: "find_root_slot ?m1 = Inr (int n, 0, ?itable2)"
    proof -
      have "find_root_slot ?m1 =
        Inr (int (entry_count_of (root_of (inode_table ?m1))),
         root_entries_offset (sb ?m1) (root_of (inode_table ?m1)),
         patched (inode_table ?m1) 0
           (inode_bytes (finalized ((root_of (inode_table ?m1))
              \<lparr>size_bytes := size_bytes (root_of (inode_table ?m1)) + 64\<rparr>))))"
      proof (rule find_root_slot_append)
        show "128 \<le> length (inode_table ?m1)"
          using t128 lt1 by simp
        show "entry_count_of (root_of (inode_table ?m1)) < 64"
          using nlt by (simp add: r1 ec)
        show "root_entries_offset (sb ?m1) (root_of (inode_table ?m1))
            + entry_count_of (root_of (inode_table ?m1)) * 64 \<le> length (data_region ?m1)"
          using nlt r4096 l1 by (simp add: r1 ec ro)
        show "entry_inode_no (data_region ?m1) (root_entries_offset (sb ?m1) (root_of (inode_table ?m1))) j \<noteq> 0"
          if "j < entry_count_of (root_of (inode_table ?m1))" for j
          using that en1 [of j] by (simp add: r1 ec ro)
      qed
      then show ?thesis
        by (simp add: r1 ec ro)
    qed
    let ?de = "new_dirent (field dregion1 (n * 64) 64) (int a + 1) file_name"
    let ?dregion2 = "patched dregion1 (n * 64) (dirent_bytes ?de)"
    have n64b: "n * 64 + 64 \<le> 4096"
      using nlt by simp
    have nr: "n * 64 + 64 \<le> length dregion1"
      using n64b r4096 l1 by simp
    have wd: "write_dirent dregion1 0 (int n) (int a + 1) file_name = Inr ?dregion2"
      using nr by (simp add: write_dirent_unfold)
    have lt2: "length ?itable2 = length ?table"
      using t128 lt1 by (simp add: length_patched)
    have r2: "root_of ?itable2 = ?root2"
      using t128 lt1 by (intro root_of_patched_root) simp_all
    let ?root3 = "finalized (?root2\<lparr>links := links ?root2 + 1\<rparr>)"
    let ?itable3 = "patched ?itable2 0 (inode_bytes ?root3)"
    have br: "bump_root_links ?itable2 = Inr ?itable3"
      using t128 lt2 by (simp add: bump_root_links_unfold r2)
    have lt3: "length ?itable3 = length ?table"
      using t128 lt2 by (simp add: length_patched)
    have r3: "root_of ?itable3 = ?root3"
      using t128 lt2 by (intro root_of_patched_root) simp_all
    have l2: "length ?dregion2 = length ?region"
      using nr l1 by (simp add: length_patched)
    let ?m' = "m\<lparr> inode_bitmap := ibitmap, data_bitmap := bitmap',
                inode_table := ?itable3, data_region := ?dregion2 \<rparr>"
    have res: "insert_file m (Some bytes) file_name now = Inr ?m'"
      by (simp add: run frs wd br)
    have slot: "field ?itable3 (a * 128) 128 = inode_bytes ?ino"
    proof -
      have "field ?itable3 (a * 128) 128 = field ?itable2 (a * 128) 128"
        using t128 lt2 a(2) a1 by (intro field_patched_outside) simp_all
      also have "\<dots> = field ?itable1 (a * 128) 128"
        using t128 lt1 a(2) a1 by (intro field_patched_outside) simp_all
      also have "\<dots> = inode_bytes ?ino"
        using field_patched_same [of "a * 128" "inode_bytes ?ino" ?table] a(2) by simp
      finally show ?thesis .
    qed
    have entry: "field ?dregion2 (n * 64) 64 = dirent_bytes ?de"
      using field_patched_same [of "n * 64" "dirent_bytes ?de" dregion1] nr by simp
    have a1u: "(of_int (int a + 1) :: u32) = of_nat (Suc a)"
      by simp
    have nz: "(of_nat (Suc a) :: u32) \<noteq> 0"
    proof -
      have "unat (of_nat (Suc a) :: u32) = Suc a"
        using a32 by (intro unat_of_nat_u32) simp
      then show ?thesis
        by (metis Zero_not_Suc unat_0)
    qed
    have en2: "entry_inode_no ?dregion2 0 j \<noteq> 0" if "j < Suc n" for j
    proof (cases "j = n")
      case True
      have "rd32 ?dregion2 (n * 64 + 0) = rd32 (field ?dregion2 (n * 64) 64) 0"
        using nr l2 l1 by (intro rd32_field [symmetric]) simp_all
      then have "rd32 ?dregion2 (n * 64) = of_nat (Suc a)"
        by (simp only: entry rd32_dirent_bytes new_dirent_fields a1u add_0_right)
      then show ?thesis
        using True nz by (simp add: entry_inode_no_def)
    next
      case False
      with that have j: "j < n" by simp
      have "field ?dregion2 (j * 64) 4 = field dregion1 (j * 64) 4"
        using nr j by (intro field_patched_outside) simp_all
      then show ?thesis
        using en1 [OF j] by (simp add: entry_inode_no_def rd32_def)
    qed
    have sel: "sb ?m' = sb m" "inode_bitmap ?m' = ibitmap" "data_bitmap ?m' = bitmap'"
      "inode_table ?m' = ?itable3" "data_region ?m' = ?dregion2"
      by simp_all
    have pk: "packed ?m' (Suc a) (d + ?nb) (Suc n)"
      unfolding packed_def sel
    proof (intro conjI)
      show "valid_superblock (sb m)" by (rule vs)
      show "dense ibitmap (Suc a)" by (rule di)
      show "dense bitmap' (d + ?nb)" by (rule db)
      show "length ?itable3 = unat (inode_table_blocks (sb m)) * 4096"
        using lt3 lt by (simp only:)
      show "length ?dregion2 = unat (data_region_blocks (sb m)) * 4096"
        using l2 lr by (simp only:)
      show "1 \<le> Suc a" by simp
      show "1 \<le> d + ?nb" using d1 by simp
      show "direct (root_of ?itable3) ! 0 = ucast (data_region_start (sb m))"
        unfolding r3 using rd by simp
      show "size_bytes (root_of ?itable3) = of_nat (Suc n * 64)"
        unfolding r3 by (simp add: rs)
      show "Suc n \<le> 64" using nlt by simp
      show "\<forall>j<Suc n. entry_inode_no ?dregion2 0 j \<noteq> 0"
        using en2 by blast
      show "unat (inode_count (sb m)) * 128 \<le> length ?itable3"
        using ic lt3 by (simp only:)
    qed
    have "inode_of (field (inode_table ?m') (a * 128) 128) = ?ino\<lparr>direct := direct12 (direct ?ino)\<rparr>"
      unfolding sel slot by (simp add: inode_of_bytes)
    then have ino: "size_bytes (inode_of (field (inode_table ?m') (a * 128) 128)) = ?fs"
      "mode (inode_of (field (inode_table ?m') (a * 128) 128)) = 0x8000"
      by (simp_all add: new_inode_def)
    have "dirent_of (field (data_region ?m') (n * 64) 64) = ?de"
      unfolding sel entry by (simp add: dirent_of_new_dirent)
    then have de: "inode_no (dirent_of (field (data_region ?m') (n * 64) 64)) = of_nat (Suc a)"
      "type (dirent_of (field (data_region ?m') (n * 64) 64)) = 1"
      "name (dirent_of (field (data_region ?m') (n * 64) 64)) = stored_name file_name"
      by simp_all
    have lk: "links (root_of (inode_table ?m')) = links ?root + 1"
      unfolding sel r3 by simp
    have sbm: "sb ?m' = sb m"
      by simp
    show ?thesis
      using res pk sbm lk ino de by blast
  qed
qed

section \<open>The regions of a new image\<close>

lemma dense_fresh: "dense ((replicate 4096 0)[0 := 1]) 1"
proof -
  have "bit_at ((replicate 4096 0)[0 := 1]) j = (j < 1)" if "j < 32768" for j
  proof (cases "j div 8 = 0")
    case True
    then have "j < 8" by (simp add: div_eq_0_iff)
    then have "j mod 8 = j" by simp
    have "bit (1 :: u8) j \<longleftrightarrow> j = 0"
      by (simp add: bit_1_iff)
    then show ?thesis
      using True \<open>j mod 8 = j\<close> by (simp add: bit_at_iff)
  next
    case False
    then have "0 < j" by (cases j) simp_all
    moreover have "j div 8 < 4096"
      using that by simp
    ultimately show ?thesis
      using False by (simp add: bit_at_iff)
  qed
  then show ?thesis
    by (simp add: dense_def)
qed

lemma bits_set_dense:
  assumes "dense bitmap d" "d \<le> 32768"
  shows "bits_set bitmap = {j. j < d}"
  using assms by (auto simp add: bits_set_def dense_def)

lemma fresh_root_fields [simp]:
  "links (fresh_root region_start now) = 2"
  "size_bytes (fresh_root region_start now) = 128"
  "mode (fresh_root region_start now) = 0x4000"
  "direct (fresh_root region_start now) = ucast region_start # replicate 11 0"
  by (simp_all add: fresh_root_def)

lemma name_bytes_58: "length n = 58 \<Longrightarrow> name_bytes n = n"
  by (simp add: name_bytes_def)

lemma seeded_dirent_fields:
  assumes "length nm \<le> 57" "0 \<notin> set nm"
  shows "inode_no (seeded_dirent nm) = 1" "type (seeded_dirent nm) = 2"
    and "name (seeded_dirent nm) = nm @ replicate (58 - length nm) 0"
    and "c_string (name (seeded_dirent nm)) = nm"
proof -
  have z: "name (dirent_of (replicate 64 0)) = replicate 58 0"
    by (simp add: dirent_of_def field_replicate)
  have c: "c_string nm = nm"
    using assms(2) by (simp add: c_string_def takeWhile_eq_all_conv) metis
  show "inode_no (seeded_dirent nm) = 1" "type (seeded_dirent nm) = 2"
    by (simp_all add: seeded_dirent_def dirent_checksum_finalize_def)
  show n: "name (seeded_dirent nm) = nm @ replicate (58 - length nm) 0"
    using assms(1) by (simp add: seeded_dirent_def dirent_checksum_finalize_def z strncpy_def
        strlen_def c)
  have "c_string (nm @ replicate (58 - length nm) 0) = nm"
    using assms by (simp add: c_string_def takeWhile_append)
  then show "c_string (name (seeded_dirent nm)) = nm"
    by (simp only: n)
qed

lemma dirent_of_seeded:
  assumes "length nm \<le> 57" "0 \<notin> set nm"
  shows "dirent_of (dirent_bytes (seeded_dirent nm)) = seeded_dirent nm"
proof -
  have "length (name (seeded_dirent nm)) = 58"
    using assms(1) by (simp add: seeded_dirent_fields(3) [OF assms])
  then show ?thesis
    by (simp add: dirent_of_bytes name_bytes_58)
qed

lemma fresh_regions_entries:
  assumes "valid_superblock s"
  shows "field (data_region (fresh_regions s now)) 0 64 = dirent_bytes (seeded_dirent [0x2E])"
    and "field (data_region (fresh_regions s now)) 64 64 = dirent_bytes (seeded_dirent [0x2E, 0x2E])"
    and "\<And>i. 2 \<le> i \<Longrightarrow> i < 64 \<Longrightarrow>
      field (data_region (fresh_regions s now)) (i * 64) 64 = replicate 64 0"
    and "length (data_region (fresh_regions s now)) = unat (data_region_blocks s) * 4096"
proof -
  let ?k = "unat (data_region_blocks s) * 4096"
  let ?z = "replicate ?k (0 :: u8)"
  let ?r1 = "patched ?z 0 (dirent_bytes (seeded_dirent [0x2E]))"
  let ?r2 = "patched ?r1 64 (dirent_bytes (seeded_dirent [0x2E, 0x2E]))"
  note vb = valid_superblock_bounds [OF assms]
  have k: "4096 \<le> ?k"
    using vb(4) by simp
  have l1: "length ?r1 = ?k"
    using k by (simp add: length_patched)
  have l2: "length ?r2 = ?k"
    using k l1 by (simp add: length_patched)
  have r: "data_region (fresh_regions s now) = ?r2"
    by (simp add: fresh_regions_def)
  show "length (data_region (fresh_regions s now)) = ?k"
    unfolding r by (rule l2)
  have "field ?r2 0 64 = field ?r1 0 64"
    using k l1 by (intro field_patched_outside) simp_all
  also have "\<dots> = dirent_bytes (seeded_dirent [0x2E])"
    using field_patched_same [of 0 "dirent_bytes (seeded_dirent [0x2E])" ?z] k by simp
  finally show "field (data_region (fresh_regions s now)) 0 64 = dirent_bytes (seeded_dirent [0x2E])"
    unfolding r .
  show "field (data_region (fresh_regions s now)) 64 64 = dirent_bytes (seeded_dirent [0x2E, 0x2E])"
    unfolding r
    using field_patched_same [of 64 "dirent_bytes (seeded_dirent [0x2E, 0x2E])" ?r1] k l1 by simp
  show "field (data_region (fresh_regions s now)) (i * 64) 64 = replicate 64 0"
    if "2 \<le> i" "i < 64" for i
  proof -
    have "field ?r2 (i * 64) 64 = field ?r1 (i * 64) 64"
      using k l1 that by (intro field_patched_outside) simp_all
    also have "\<dots> = field ?z (i * 64) 64"
      using k that by (intro field_patched_outside) simp_all
    also have "\<dots> = replicate 64 0"
      using k that by (simp add: field_replicate)
    finally show ?thesis
      unfolding r .
  qed
qed

lemma fresh_regions_root:
  assumes "valid_superblock s"
  shows "root_of (inode_table (fresh_regions s now)) = fresh_root (data_region_start s) now"
    and "length (inode_table (fresh_regions s now)) = unat (inode_table_blocks s) * 4096"
proof -
  note vb = valid_superblock_bounds [OF assms]
  have k: "128 \<le> unat (inode_table_blocks s) * 4096"
    using vb(5) by simp
  show "root_of (inode_table (fresh_regions s now)) = fresh_root (data_region_start s) now"
    using k by (simp add: fresh_regions_def root_of_patched_root)
  show "length (inode_table (fresh_regions s now)) = unat (inode_table_blocks s) * 4096"
    using k by (simp add: fresh_regions_def length_patched)
qed

lemma packed_fresh:
  assumes vs: "valid_superblock s"
    and ic: "unat (inode_count s) * 128 \<le> unat (inode_table_blocks s) * 4096"
  shows "packed (fresh_regions s now) 1 1 2"
proof -
  note e = fresh_regions_entries [OF vs, where now = now]
  note r = fresh_regions_root [OF vs, where now = now]
  note vb = valid_superblock_bounds [OF vs]
  have s: "sb (fresh_regions s now) = s"
    "inode_bitmap (fresh_regions s now) = (replicate 4096 0)[0 := 1]"
    "data_bitmap (fresh_regions s now) = (replicate 4096 0)[0 := 1]"
    by (simp_all add: fresh_regions_def)
  have en: "entry_inode_no (data_region (fresh_regions s now)) 0 j \<noteq> 0" if "j < 2" for j
  proof -
    have j: "j = 0 \<or> j = 1"
      using that by auto
    have "rd32 (data_region (fresh_regions s now)) (j * 64 + 0)
        = rd32 (field (data_region (fresh_regions s now)) (j * 64) 64) 0"
      using that vb(4) e(4) by (intro rd32_field [symmetric]) simp_all
    also have "\<dots> = 1"
      using j e(1,2) by (auto simp add: rd32_dirent_bytes seeded_dirent_fields)
    finally show ?thesis
      by (simp add: entry_inode_no_def)
  qed
  show ?thesis
    unfolding packed_def s r(1)
    using vs ic dense_fresh r(2) e(4) en by simp
qed

section \<open>Packed images as files\<close>

lemma packed_image:
  assumes "packed m a d n"
  shows "valid_image (persist m)"
    and "image_superblock (persist m) = sb m"
    and "loaded (persist m) = m"
    and "image_inode_bitmap (persist m) = inode_bitmap m"
    and "image_data_bitmap (persist m) = data_bitmap m"
    and "\<And>j. j * 128 + 128 \<le> length (inode_table m) \<Longrightarrow>
      image_inode (persist m) j = inode_of (field (inode_table m) (j * 128) 128)"
    and "image_inode (persist m) 0 = root_of (inode_table m)"
    and "image_root_block (persist m) = 0"
    and "\<And>i. i < 64 \<Longrightarrow> image_dirent (persist m) i = dirent_of (field (data_region m) (i * 64) 64)"
proof -
  from assms have vs: "valid_superblock (sb m)"
    and ia: "dense (inode_bitmap m) a" and id: "dense (data_bitmap m) d"
    and lt: "length (inode_table m) = unat (inode_table_blocks (sb m)) * 4096"
    and lr: "length (data_region m) = unat (data_region_blocks (sb m)) * 4096"
    and a1: "1 \<le> a"
    and rd: "direct (root_of (inode_table m)) ! 0 = ucast (data_region_start (sb m))"
    and rs: "size_bytes (root_of (inode_table m)) = of_nat (n * 64)"
    and n64: "n \<le> 64"
    and ic: "unat (inode_count (sb m)) * 128 \<le> length (inode_table m)"
    by (simp_all add: packed_def)
  have lb: "length (inode_bitmap m) = 4096" "length (data_bitmap m) = 4096"
    using ia id by (simp_all add: dense_def)
  note vb = valid_superblock_bounds [OF vs]
  note lp = loaded_persist [OF vs lb lt lr]
  show s: "image_superblock (persist m) = sb m" and l: "loaded (persist m) = m"
    by (rule lp)+
  have vs': "valid_superblock (image_superblock (persist m))"
    and len: "length (persist m) = unat (total_blocks (image_superblock (persist m))) * 4096"
    using vs lp(3) by (simp_all add: s)
  note ir = image_regions [OF vs' len, unfolded l]
  show ib: "image_inode_bitmap (persist m) = inode_bitmap m"
    and "image_data_bitmap (persist m) = data_bitmap m"
    by (rule ir)+
  show ino: "image_inode (persist m) j = inode_of (field (inode_table m) (j * 128) 128)"
    if "j * 128 + 128 \<le> length (inode_table m)" for j
    using ir(3) [OF that] by (simp add: image_inode_def)
  have t: "0 * 128 + 128 \<le> length (inode_table m)"
    using lt vb(5) by simp
  show r: "image_inode (persist m) 0 = root_of (inode_table m)"
    using ino [OF t] by (simp add: root_of_def)
  have ud: "unat (direct (root_of (inode_table m)) ! 0) = unat (data_region_start (sb m))"
    using vb(1) by (simp add: rd unat_ucast_u64_u32)
  show rb: "image_root_block (persist m) = 0"
    by (simp add: image_root_block_def r s ud)
  have b0: "0 * 4096 + 4096 \<le> length (data_region m)"
    using lr vb(4) by simp
  have blk: "image_data_block (persist m) 0 = field (data_region m) 0 4096"
    using ir(4) [OF b0] by simp
  show "image_dirent (persist m) i = dirent_of (field (data_region m) (i * 64) 64)" if "i < 64" for i
  proof -
    have "field (field (data_region m) 0 4096) (i * 64) 64 = field (data_region m) (0 + i * 64) 64"
      using that b0 by (intro field_field) simp_all
    then show ?thesis
      by (simp add: image_dirent_def rb blk)
  qed
  have "bit_at (inode_bitmap m) 0"
    using ia a1 by (simp add: dense_def)
  moreover have "unat (size_bytes (root_of (inode_table m))) \<le> 4096"
  proof -
    have "unat (of_nat (n * 64) :: u64) = n * 64"
      using n64 by (intro unat_of_nat_u64) simp
    then show ?thesis
      using n64 by (simp add: rs)
  qed
  moreover have "unat (data_region_start (sb m)) < unat (total_blocks (sb m))"
    using vs vb(4) by (simp add: valid_superblock_def)
  moreover have "unat (inode_count (sb m)) * 128 \<le> unat (inode_table_blocks (sb m)) * 4096"
    using ic lt by (simp only:)
  ultimately show "valid_image (persist m)"
    unfolding valid_image_def using vs lp(3) by (simp add: s ib r ud)
qed

lemma mkfs_adder_packed:
  assumes "packed m a d n"
  shows "mkfs_adder (Some (persist m)) file file_name now can_create =
    and_then (insert_file m file file_name now) (\<lambda>m'.
      if \<not> can_create then Inl CreateOutputFailed else Inr (persist m'))"
proof -
  note pi = packed_image [OF assms]
  note vp = valid_image_parts [OF pi(1)]
  have "load_image (persist m) = Inr m"
    using load_image_valid [OF vp] by (simp add: pi(3))
  then show ?thesis
    by (simp add: mkfs_adder_def)
qed

lemma fresh_image_packed:
  fixes size_kib inodes :: u64
  assumes "180 \<le> size_kib" "size_kib \<le> 4096" "size_kib mod 4 = 0"
    and "128 \<le> inodes" "inodes \<le> 512"
    and "3976 \<le> length beyond"
  shows "\<exists>s. mkfs_builder (Some image_name) size_kib inodes now beyond True
      = Inr (fresh_image size_kib inodes now beyond)
    \<and> fresh_image size_kib inodes now beyond = persist (fresh_regions s now)
    \<and> packed (fresh_regions s now) 1 1 2
    \<and> inode_count s = inodes
    \<and> unat (inodes) * 128 \<le> length (inode_table (fresh_regions s now))
    \<and> 26 \<le> unat (data_region_blocks s)
    \<and> unat (total_blocks s) = unat size_kib * 1024 div 4096
    \<and> unat (inode_table_blocks s) = (unat inodes * 128 + 4095) div 4096"
proof -
  from mkfs_builder_success [OF assms, of "[]" now] obtain s where
    b: "mkfs_builder (Some []) size_kib inodes now beyond True = Inr (persist (fresh_regions s now))"
    and vs: "valid_superblock s" and ic: "inode_count s = inodes"
    and tb: "unat (total_blocks s) = unat size_kib * 1024 div 4096"
    and itb: "unat (inode_table_blocks s) = (unat inodes * 128 + 4095) div 4096"
    by blast
  from mkfs_builder_success [OF assms, of image_name now] obtain s' where
    b': "mkfs_builder (Some image_name) size_kib inodes now beyond True
      = Inr (persist (fresh_regions s' now))"
    by blast
  have nm: "mkfs_builder (Some image_name) size_kib inodes now beyond True
      = mkfs_builder (Some []) size_kib inodes now beyond True"
    by (simp add: mkfs_builder_def)
  have f: "fresh_image size_kib inodes now beyond = persist (fresh_regions s now)"
    by (simp add: fresh_image_def b)
  have u: "180 \<le> unat size_kib" "unat inodes \<le> 512"
    using assms(1,5) by (simp_all add: word_le_nat_alt)
  have drb: "26 \<le> unat (data_region_blocks s)"
  proof -
    have "45 \<le> unat size_kib * 1024 div 4096"
      using u(1) by simp
    moreover have "(unat inodes * 128 + 4095) div 4096 \<le> 16"
      using u(2) by simp
    moreover have "unat (total_blocks s) = 3 + unat (inode_table_blocks s) + unat (data_region_blocks s)"
      using vs by (simp add: valid_superblock_def)
    ultimately show ?thesis
      using tb itb by linarith
  qed
  have tl: "unat inodes * 128 \<le> length (inode_table (fresh_regions s now))"
    using fresh_regions_root(2) [OF vs, of now] itb by simp
  have ics: "unat (inode_count s) * 128 \<le> unat (inode_table_blocks s) * 4096"
    using tl fresh_regions_root(2) [OF vs, of now] by (simp only: ic)
  show ?thesis
    using nm b f packed_fresh [OF vs ics, of now] ic tl drb tb itb by auto
qed

section \<open>The content of a new image\<close>

text \<open>
  Claim C6. For every size and inode count within the bounds, the builder writes an image
  (given that the 3976 bytes after the superblock variable, which its checksum routine
  reads, are there to read) in which bit 0 is the only bit set of the inode bitmap and of
  the data bitmap, the root inode has 2 links, size 128 and the start of the data region as
  its first direct pointer, the directory entries 0 and 1 are named \<open>.\<close> and \<open>..\<close> with
  inode number 1 and the type 2 of a directory, and every other slot of the root directory
  block is free (inode number 0).
\<close>

theorem fresh_image_content:
  fixes size_kib inodes :: u64
  assumes "180 \<le> size_kib" "size_kib \<le> 4096" "size_kib mod 4 = 0"
    and "128 \<le> inodes" "inodes \<le> 512"
    and "3976 \<le> length beyond"
  shows "\<exists>img. mkfs_builder (Some image_name) size_kib inodes now beyond True = Inr img
    \<and> bits_set (image_inode_bitmap img) = {0}
    \<and> bits_set (image_data_bitmap img) = {0}
    \<and> links (image_inode img 0) = 2
    \<and> size_bytes (image_inode img 0) = 128
    \<and> ucast (direct (image_inode img 0) ! 0) = data_region_start (image_superblock img)
    \<and> inode_no (image_dirent img 0) = 1 \<and> type (image_dirent img 0) = 2
    \<and> c_string (name (image_dirent img 0)) = [0x2E]
    \<and> inode_no (image_dirent img 1) = 1 \<and> type (image_dirent img 1) = 2
    \<and> c_string (name (image_dirent img 1)) = [0x2E, 0x2E]
    \<and> (\<forall>i. 2 \<le> i \<and> i < 64 \<longrightarrow> inode_no (image_dirent img i) = 0)"
proof -
  from fresh_image_packed [OF assms, of image_name now] obtain s where
    b: "mkfs_builder (Some image_name) size_kib inodes now beyond True
      = Inr (fresh_image size_kib inodes now beyond)"
    and f: "fresh_image size_kib inodes now beyond = persist (fresh_regions s now)"
    and p: "packed (fresh_regions s now) 1 1 2"
    by blast
  let ?m = "fresh_regions s now"
  let ?img = "persist ?m"
  from p have vs: "valid_superblock s"
    by (simp add: packed_def fresh_regions_def)
  note pi = packed_image [OF p]
  note vb = valid_superblock_bounds [OF vs]
  have sm: "sb ?m = s"
    by (simp add: fresh_regions_def)
  have "dense (inode_bitmap ?m) 1" "dense (data_bitmap ?m) 1"
    using p by (simp_all add: packed_def)
  then have bs: "bits_set (image_inode_bitmap ?img) = {0}" "bits_set (image_data_bitmap ?img) = {0}"
    by (auto simp add: pi(4,5) bits_set_dense)
  note r = fresh_regions_root [OF vs, where now = now]
  have root: "image_inode ?img 0 = fresh_root (data_region_start s) now"
    by (simp add: pi(7) r(1))
  have "unat (ucast (ucast (data_region_start s) :: u32) :: u64) = unat (data_region_start s)"
    using vb(1) by (simp add: unat_ucast_u32_u64 unat_ucast_u64_u32)
  then have dr: "(ucast (ucast (data_region_start s) :: u32) :: u64) = data_region_start s"
    by (simp only: word_unat_eq_iff)
  note e = fresh_regions_entries [OF vs, where now = now]
  have e0: "image_dirent ?img 0 = seeded_dirent [0x2E]"
    using pi(9) [of 0] by (simp add: e(1) dirent_of_seeded)
  have e1: "image_dirent ?img 1 = seeded_dirent [0x2E, 0x2E]"
    using pi(9) [of 1] by (simp add: e(2) dirent_of_seeded)
  have b': "mkfs_builder (Some image_name) size_kib inodes now beyond True = Inr ?img"
    using b f by simp
  have lk: "links (image_inode ?img 0) = 2" and sz: "size_bytes (image_inode ?img 0) = 128"
    unfolding root by simp_all
  have dp: "ucast (direct (image_inode ?img 0) ! 0) = data_region_start (image_superblock ?img)"
    unfolding root pi(2) sm using dr by simp
  have d0: "inode_no (image_dirent ?img 0) = 1" "type (image_dirent ?img 0) = 2"
    "c_string (name (image_dirent ?img 0)) = [0x2E]"
    unfolding e0 using seeded_dirent_fields(1,2,4) [of "[0x2E]"] by simp_all
  have d1: "inode_no (image_dirent ?img 1) = 1" "type (image_dirent ?img 1) = 2"
    "c_string (name (image_dirent ?img 1)) = [0x2E, 0x2E]"
    unfolding e1 using seeded_dirent_fields(1,2,4) [of "[0x2E, 0x2E]"] by simp_all
  have ei: "\<forall>i. 2 \<le> i \<and> i < 64 \<longrightarrow> inode_no (image_dirent ?img i) = 0"
  proof (intro allI impI)
    fix i :: nat assume i: "2 \<le> i \<and> i < 64"
    then have "field (data_region ?m) (i * 64) 64 = replicate 64 0"
      using e(3) [of i] by simp
    then show "inode_no (image_dirent ?img i) = 0"
      using pi(9) [of i] i by (simp add: dirent_of_def)
  qed
  show ?thesis
    by (intro exI [of _ ?img] conjI) (fact b' bs lk sz dp d0 d1 ei)+
qed

theorem fresh_image_content_witness:
  "\<exists>img. mkfs_builder (Some ''fs.img'') 180 128 0 (replicate 3976 0) True = Inr img
    \<and> bits_set (image_inode_bitmap img) = {0}
    \<and> bits_set (image_data_bitmap img) = {0}
    \<and> links (image_inode img 0) = 2
    \<and> size_bytes (image_inode img 0) = 128
    \<and> ucast (direct (image_inode img 0) ! 0) = data_region_start (image_superblock img)
    \<and> inode_no (image_dirent img 0) = 1 \<and> type (image_dirent img 0) = 2
    \<and> c_string (name (image_dirent img 0)) = [0x2E]
    \<and> inode_no (image_dirent img 1) = 1 \<and> type (image_dirent img 1) = 2
    \<and> c_string (name (image_dirent img 1)) = [0x2E, 0x2E]
    \<and> inode_no (image_dirent img 2) = 0 \<and> inode_no (image_dirent img 63) = 0"
proof -
  from fresh_image_content [of 180 128 "replicate 3976 0" "''fs.img''" 0]
  obtain img where
    "mkfs_builder (Some ''fs.img'') 180 128 0 (replicate 3976 0) True = Inr img
    \<and> bits_set (image_inode_bitmap img) = {0}
    \<and> bits_set (image_data_bitmap img) = {0}
    \<and> links (image_inode img 0) = 2
    \<and> size_bytes (image_inode img 0) = 128
    \<and> ucast (direct (image_inode img 0) ! 0) = data_region_start (image_superblock img)
    \<and> inode_no (image_dirent img 0) = 1 \<and> type (image_dirent img 0) = 2
    \<and> c_string (name (image_dirent img 0)) = [0x2E]
    \<and> inode_no (image_dirent img 1) = 1 \<and> type (image_dirent img 1) = 2
    \<and> c_string (name (image_dirent img 1)) = [0x2E, 0x2E]
    \<and> (\<forall>i. 2 \<le> i \<and> i < 64 \<longrightarrow> inode_no (image_dirent img i) = 0)"
    by auto
  then show ?thesis
    by (intro exI [of _ img]) simp
qed

section \<open>One run of the adder on a packed image\<close>

lemma c_string_stored_name: "c_string (stored_name file_name) = take 57 (c_string file_name)"
proof -
  have "x \<noteq> 0" if "x \<in> set (take 57 (c_string file_name))" for x
    using that by (auto simp add: c_string_def dest: in_set_takeD set_takeWhileD)
  then show ?thesis
    by (simp add: stored_name_def c_string_def [of "_ @ _"] takeWhile_append2 takeWhile_replicate)
qed

lemma mkfs_adder_packed_run:
  assumes p: "packed m a d n"
    and a: "a < unat (inode_count (sb m))" "a * 128 + 128 \<le> length (inode_table m)"
    and S: "1 \<le> length bytes" "length bytes \<le> 49152"
    and dd: "d + (length bytes + 4095) div 4096 \<le> unat (data_region_blocks (sb m))"
  shows "n = 64 \<Longrightarrow>
      mkfs_adder (Some (persist m)) (Some bytes) file_name now can_create = Inl RootDirectoryFull"
    and "n < 64 \<Longrightarrow> \<exists>m'. mkfs_adder (Some (persist m)) (Some bytes) file_name now True
          = Inr (persist m')
      \<and> packed m' (Suc a) (d + (length bytes + 4095) div 4096) (Suc n)
      \<and> sb m' = sb m
      \<and> length (inode_table m') = length (inode_table m)
      \<and> links (root_of (inode_table m')) = links (root_of (inode_table m)) + 1
      \<and> size_bytes (inode_of (field (inode_table m') (a * 128) 128)) = of_nat (length bytes)
      \<and> mode (inode_of (field (inode_table m') (a * 128) 128)) = 0x8000
      \<and> inode_no (dirent_of (field (data_region m') (n * 64) 64)) = of_nat (Suc a)
      \<and> type (dirent_of (field (data_region m') (n * 64) 64)) = 1
      \<and> name (dirent_of (field (data_region m') (n * 64) 64)) = stored_name file_name"
proof -
  note run = mkfs_adder_packed [OF p]
  show "mkfs_adder (Some (persist m)) (Some bytes) file_name now can_create = Inl RootDirectoryFull"
    if "n = 64"
    using insert_file_packed(1) [OF p a S dd that] by (simp add: run)
  show "\<exists>m'. mkfs_adder (Some (persist m)) (Some bytes) file_name now True
          = Inr (persist m')
      \<and> packed m' (Suc a) (d + (length bytes + 4095) div 4096) (Suc n)
      \<and> sb m' = sb m
      \<and> length (inode_table m') = length (inode_table m)
      \<and> links (root_of (inode_table m')) = links (root_of (inode_table m)) + 1
      \<and> size_bytes (inode_of (field (inode_table m') (a * 128) 128)) = of_nat (length bytes)
      \<and> mode (inode_of (field (inode_table m') (a * 128) 128)) = 0x8000
      \<and> inode_no (dirent_of (field (data_region m') (n * 64) 64)) = of_nat (Suc a)
      \<and> type (dirent_of (field (data_region m') (n * 64) 64)) = 1
      \<and> name (dirent_of (field (data_region m') (n * 64) 64)) = stored_name file_name"
    if "n < 64"
  proof -
    from insert_file_packed(2) [OF p a S dd that, of file_name now] obtain m' where
      i: "insert_file m (Some bytes) file_name now = Inr m'"
      and r: "packed m' (Suc a) (d + (length bytes + 4095) div 4096) (Suc n)
      \<and> sb m' = sb m
      \<and> links (root_of (inode_table m')) = links (root_of (inode_table m)) + 1
      \<and> size_bytes (inode_of (field (inode_table m') (a * 128) 128)) = of_nat (length bytes)
      \<and> mode (inode_of (field (inode_table m') (a * 128) 128)) = 0x8000
      \<and> inode_no (dirent_of (field (data_region m') (n * 64) 64)) = of_nat (Suc a)
      \<and> type (dirent_of (field (data_region m') (n * 64) 64)) = 1
      \<and> name (dirent_of (field (data_region m') (n * 64) 64)) = stored_name file_name"
      by blast
    have "length (inode_table m') = length (inode_table m)"
      using r p by (simp add: packed_def)
    moreover have "mkfs_adder (Some (persist m)) (Some bytes) file_name now True = Inr (persist m')"
      by (simp add: run i)
    ultimately show ?thesis
      using r by blast
  qed
qed

lemma mkfs_adder_packed_empty:
  assumes p: "packed m a d n" and a: "a < unat (inode_count (sb m))"
    and t: "a * 128 + 128 \<le> length (inode_table m)"
  shows "mkfs_adder (Some (persist m)) (Some []) file_name now can_create = Inl ReadFileFailed"
proof -
  from p have vs: "valid_superblock (sb m)" and ia: "dense (inode_bitmap m) a"
    and lt: "length (inode_table m) = unat (inode_table_blocks (sb m)) * 4096"
    by (simp_all add: packed_def)
  note vb = valid_superblock_bounds [OF vs]
  have a32: "a < 32768"
    using t lt vb(3) by simp
  note ffi = dense_first_free(2) [OF ia a32 a]
  have "insert_file m (Some []) file_name now = Inl ReadFileFailed"
    using ffi by (rule insert_file_empty) simp
  then show ?thesis
    by (simp add: mkfs_adder_packed [OF p])
qed

section \<open>Adding a file to a new image\<close>

text \<open>
  Claim C3. Into a new image, a file of \<open>S\<close> bytes with \<open>1 \<le> S \<le> 49152\<close> is added with
  success: the data bitmap gains exactly the \<open>ceil(S / 4096)\<close> bits after bit 0, the inode
  bitmap gains bit 1, the new inode (slot 1, inode number 2) has size \<open>S\<close> and the mode of a
  regular file, entry 2 of the root directory holds inode number 2, type 1 and the file name
  cut to 57 bytes, and the root inode has one more link. An empty file (\<open>S = 0\<close>) is not
  added: \<^verbatim>\<open>fread\<close> of zero bytes returns 0, which \<^verbatim>\<open>main\<close> takes for a read failure,
  and the run ends with an error and without an output image.
\<close>

theorem insert_into_fresh_image:
  fixes size_kib inodes :: u64
  assumes "180 \<le> size_kib" "size_kib \<le> 4096" "size_kib mod 4 = 0"
    and "128 \<le> inodes" "inodes \<le> 512"
    and "3976 \<le> length beyond"
    and "img = fresh_image size_kib inodes now beyond"
    and "length bytes \<le> 49152"
  shows "(bytes = [] \<longrightarrow>
      mkfs_adder (Some img) (Some bytes) file_name t can_create = Inl ReadFileFailed)
    \<and> (bytes \<noteq> [] \<longrightarrow>
      (\<exists>out. mkfs_adder (Some img) (Some bytes) file_name t True = Inr out
        \<and> bits_set (image_data_bitmap img) \<subseteq> bits_set (image_data_bitmap out)
        \<and> bits_set (image_data_bitmap out) - bits_set (image_data_bitmap img)
            = {1 ..< 1 + (length bytes + 4095) div 4096}
        \<and> card (bits_set (image_data_bitmap out) - bits_set (image_data_bitmap img))
            = (length bytes + 4095) div 4096
        \<and> bits_set (image_inode_bitmap out) = insert 1 (bits_set (image_inode_bitmap img))
        \<and> 1 \<notin> bits_set (image_inode_bitmap img)
        \<and> size_bytes (image_inode out 1) = of_nat (length bytes)
        \<and> unat (size_bytes (image_inode out 1)) = length bytes
        \<and> mode (image_inode out 1) = 0x8000
        \<and> inode_no (image_dirent img 2) = 0
        \<and> inode_no (image_dirent out 2) = 2
        \<and> type (image_dirent out 2) = 1
        \<and> c_string (name (image_dirent out 2)) = take 57 (c_string file_name)
        \<and> links (image_inode out 0) = links (image_inode img 0) + 1))"
proof -
  from fresh_image_packed [OF assms(1-6), of "[]" now] obtain s where
    f: "fresh_image size_kib inodes now beyond = persist (fresh_regions s now)"
    and p: "packed (fresh_regions s now) 1 1 2"
    and ic: "inode_count s = inodes"
    and tl: "unat inodes * 128 \<le> length (inode_table (fresh_regions s now))"
    and drb: "26 \<le> unat (data_region_blocks s)"
    by blast
  let ?m = "fresh_regions s now"
  let ?nb = "(length bytes + 4095) div 4096"
  have img: "img = persist ?m"
    using assms(7) f by simp
  have sm: "sb ?m = s"
    by (simp add: fresh_regions_def)
  have ui: "128 \<le> unat inodes"
    using assms(4) by (simp add: word_le_nat_alt)
  have a: "1 < unat (inode_count (sb ?m))" "1 * 128 + 128 \<le> length (inode_table ?m)"
    using ui tl by (simp_all add: sm ic)
  from p have vs: "valid_superblock s"
    by (simp add: packed_def sm)
  note pi = packed_image [OF p]
  have empty: "mkfs_adder (Some img) (Some bytes) file_name t can_create = Inl ReadFileFailed"
    if "bytes = []"
    unfolding img that using p a by (rule mkfs_adder_packed_empty)
  have full: "\<exists>out. mkfs_adder (Some img) (Some bytes) file_name t True = Inr out
        \<and> bits_set (image_data_bitmap img) \<subseteq> bits_set (image_data_bitmap out)
        \<and> bits_set (image_data_bitmap out) - bits_set (image_data_bitmap img)
            = {1 ..< 1 + ?nb}
        \<and> card (bits_set (image_data_bitmap out) - bits_set (image_data_bitmap img)) = ?nb
        \<and> bits_set (image_inode_bitmap out) = insert 1 (bits_set (image_inode_bitmap img))
        \<and> 1 \<notin> bits_set (image_inode_bitmap img)
        \<and> size_bytes (image_inode out 1) = of_nat (length bytes)
        \<and> unat (size_bytes (image_inode out 1)) = length bytes
        \<and> mode (image_inode out 1) = 0x8000
        \<and> inode_no (image_dirent img 2) = 0
        \<and> inode_no (image_dirent out 2) = 2
        \<and> type (image_dirent out 2) = 1
        \<and> c_string (name (image_dirent out 2)) = take 57 (c_string file_name)
        \<and> links (image_inode out 0) = links (image_inode img 0) + 1"
    if ne: "bytes \<noteq> []"
  proof -
    have S: "1 \<le> length bytes" "length bytes \<le> 49152"
      using ne assms(8) by (simp_all add: Suc_le_eq)
    have nb: "?nb \<le> 12"
      using S(2) by simp
    have dd: "1 + ?nb \<le> unat (data_region_blocks (sb ?m))"
      using nb drb by (simp add: sm)
    from mkfs_adder_packed_run(2) [OF p a S dd, of file_name t] obtain m' where
      run: "mkfs_adder (Some (persist ?m)) (Some bytes) file_name t True = Inr (persist m')"
      and p': "packed m' (Suc 1) (1 + ?nb) (Suc 2)"
      and lt': "length (inode_table m') = length (inode_table ?m)"
      and lk: "links (root_of (inode_table m')) = links (root_of (inode_table ?m)) + 1"
      and sz: "size_bytes (inode_of (field (inode_table m') (1 * 128) 128)) = of_nat (length bytes)"
      and md: "mode (inode_of (field (inode_table m') (1 * 128) 128)) = 0x8000"
      and dn: "inode_no (dirent_of (field (data_region m') (2 * 64) 64)) = of_nat (Suc 1)"
      and dt: "type (dirent_of (field (data_region m') (2 * 64) 64)) = 1"
      and dm: "name (dirent_of (field (data_region m') (2 * 64) 64)) = stored_name file_name"
      by auto
    let ?out = "persist m'"
    note po = packed_image [OF p']
    have d0: "dense (data_bitmap ?m) 1" "dense (inode_bitmap ?m) 1"
      and d1: "dense (data_bitmap m') (1 + ?nb)" "dense (inode_bitmap m') (Suc 1)"
      using p p' by (simp_all add: packed_def)
    have b0: "bits_set (image_data_bitmap img) = {j. j < 1}"
      "bits_set (image_inode_bitmap img) = {j. j < 1}"
      unfolding img pi(4,5) using d0 by (simp_all add: bits_set_dense)
    have b1: "bits_set (image_data_bitmap ?out) = {j. j < 1 + ?nb}"
      "bits_set (image_inode_bitmap ?out) = {j. j < Suc 1}"
      unfolding po(4,5) using d1 nb by (simp_all add: bits_set_dense)
    have c1: "bits_set (image_data_bitmap img) \<subseteq> bits_set (image_data_bitmap ?out)"
      unfolding b0 b1 by auto
    have c2: "bits_set (image_data_bitmap ?out) - bits_set (image_data_bitmap img) = {1 ..< 1 + ?nb}"
      unfolding b0 b1 by auto
    have c3: "card (bits_set (image_data_bitmap ?out) - bits_set (image_data_bitmap img)) = ?nb"
      unfolding c2 by simp
    have c4: "bits_set (image_inode_bitmap ?out) = insert 1 (bits_set (image_inode_bitmap img))"
      unfolding b0 b1 by auto
    have c5: "1 \<notin> bits_set (image_inode_bitmap img)"
      unfolding b0 by simp
    have sl: "1 * 128 + 128 \<le> length (inode_table m')"
      using a(2) lt' by simp
    have c6: "size_bytes (image_inode ?out 1) = of_nat (length bytes)"
      and c8: "mode (image_inode ?out 1) = 0x8000"
      unfolding po(6) [OF sl] using sz md by simp_all
    have c7: "unat (size_bytes (image_inode ?out 1)) = length bytes"
      unfolding c6 using S(2) by (intro unat_of_nat_u64) simp
    note e = fresh_regions_entries [OF vs, where now = now]
    have c9: "inode_no (image_dirent img 2) = 0"
      unfolding img using pi(9) [of 2] e(3) [of 2] by (simp add: dirent_of_def)
    have de: "image_dirent ?out 2 = dirent_of (field (data_region m') (2 * 64) 64)"
      using po(9) [of 2] by simp
    have c10: "inode_no (image_dirent ?out 2) = 2"
      and c11: "type (image_dirent ?out 2) = 1"
      and c12: "c_string (name (image_dirent ?out 2)) = take 57 (c_string file_name)"
      unfolding de using dn dt dm by (simp_all add: c_string_stored_name)
    have c13: "links (image_inode ?out 0) = links (image_inode img 0) + 1"
      unfolding img po(7) pi(7) by (rule lk)
    have c0: "mkfs_adder (Some img) (Some bytes) file_name t True = Inr ?out"
      unfolding img by (rule run)
    show ?thesis
      by (intro exI [of _ ?out] conjI) (fact c0 c1 c2 c3 c4 c5 c6 c7 c8 c9 c10 c11 c12 c13)+
  qed
  show ?thesis
    using empty full by blast
qed

theorem insert_into_fresh_image_witness:
  "mkfs_adder (Some (fresh_image 180 128 0 (replicate 3976 0))) (Some []) [0x61] 7 True
     = Inl ReadFileFailed
   \<and> (\<exists>out. mkfs_adder (Some (fresh_image 180 128 0 (replicate 3976 0))) (Some [0x78]) [0x61] 7 True
        = Inr out
      \<and> bits_set (image_data_bitmap out)
          - bits_set (image_data_bitmap (fresh_image 180 128 0 (replicate 3976 0))) = {1}
      \<and> unat (size_bytes (image_inode out 1)) = 1
      \<and> mode (image_inode out 1) = 0x8000
      \<and> inode_no (image_dirent out 2) = 2
      \<and> type (image_dirent out 2) = 1
      \<and> c_string (name (image_dirent out 2)) = [0x61]
      \<and> links (image_inode out 0)
          = links (image_inode (fresh_image 180 128 0 (replicate 3976 0)) 0) + 1)"
proof -
  let ?img = "fresh_image 180 128 0 (replicate 3976 0)"
  note t = insert_into_fresh_image [of 180 128 "replicate 3976 0" ?img 0 _ "[0x61]" 7 True]
  have e: "mkfs_adder (Some ?img) (Some []) [0x61] 7 True = Inl ReadFileFailed"
    using t [of "[]"] by simp
  from t [of "[0x78]"] obtain out where
    "mkfs_adder (Some ?img) (Some [0x78]) [0x61] 7 True = Inr out
      \<and> bits_set (image_data_bitmap out) - bits_set (image_data_bitmap ?img) = {1}
      \<and> unat (size_bytes (image_inode out 1)) = 1
      \<and> mode (image_inode out 1) = 0x8000
      \<and> inode_no (image_dirent out 2) = 2
      \<and> type (image_dirent out 2) = 1
      \<and> c_string (name (image_dirent out 2)) = [0x61]
      \<and> links (image_inode out 0) = links (image_inode ?img 0) + 1"
    by (auto simp add: c_string_def)
  with e show ?thesis
    by blast
qed

section \<open>The superblock across an insert\<close>

lemma fresh_image_accepts:
  fixes size_kib inodes :: u64
  assumes "180 \<le> size_kib" "size_kib \<le> 4096" "size_kib mod 4 = 0"
    and "128 \<le> inodes" "inodes \<le> 512"
    and "3976 \<le> length beyond"
    and "1 \<le> length bytes" "length bytes \<le> 49152"
  shows "valid_image (fresh_image size_kib inodes now beyond)"
    and "\<exists>out. mkfs_adder (Some (fresh_image size_kib inodes now beyond)) (Some bytes)
      file_name t True = Inr out"
proof -
  from fresh_image_packed [OF assms(1-6), of "[]" now] obtain s where
    f: "fresh_image size_kib inodes now beyond = persist (fresh_regions s now)"
    and p: "packed (fresh_regions s now) 1 1 2"
    and ic: "inode_count s = inodes"
    and tl: "unat inodes * 128 \<le> length (inode_table (fresh_regions s now))"
    and drb: "26 \<le> unat (data_region_blocks s)"
    by blast
  let ?m = "fresh_regions s now"
  have sm: "sb ?m = s"
    by (simp add: fresh_regions_def)
  have ui: "128 \<le> unat inodes"
    using assms(4) by (simp add: word_le_nat_alt)
  have a: "1 < unat (inode_count (sb ?m))" "1 * 128 + 128 \<le> length (inode_table ?m)"
    using ui tl by (simp_all add: sm ic)
  have "(length bytes + 4095) div 4096 \<le> 12"
    using assms(8) by simp
  then have dd: "1 + (length bytes + 4095) div 4096 \<le> unat (data_region_blocks (sb ?m))"
    using drb by (simp add: sm)
  show "valid_image (fresh_image size_kib inodes now beyond)"
    unfolding f using p by (rule packed_image(1))
  from mkfs_adder_packed_run(2) [OF p a assms(7,8) dd, of file_name t]
  show "\<exists>out. mkfs_adder (Some (fresh_image size_kib inodes now beyond)) (Some bytes)
      file_name t True = Inr out"
    unfolding f by auto
qed

text \<open>
  Claim C8. A run of the adder on a valid image that writes an output image writes the 116
  bytes of the superblock as it read them: no field of the superblock changes, its checksum
  included. A run that fails writes no output image at all (the result \<open>Inl\<close>), so there
  is no superblock to compare.
\<close>

theorem superblock_never_mutated:
  assumes "valid_image img"
    and "mkfs_adder (Some img) file file_name now can_create = Inr out"
  shows "field out 0 116 = field img 0 116 \<and> image_superblock out = image_superblock img"
proof -
  note vp = valid_image_parts [OF assms(1)]
  from mkfs_adder_success [OF assms] obtain m' where
    ins: "insert_file (loaded img) file file_name now = Inr m'"
    and out: "out = persist m'"
    and s: "sb m' = image_superblock img"
    and so: "image_superblock out = image_superblock img"
    and lt: "length (inode_table m') = length (inode_table (loaded img))"
    and lr: "length (data_region m') = length (data_region (loaded img))"
    by blast
  note ll = loaded_lengths [OF vp]
  note il = insert_file_lengths [OF ins ll(1,2)]
  have vs: "valid_superblock (sb m')"
    using vp(1) by (simp add: s)
  have lt': "length (inode_table m') = unat (inode_table_blocks (sb m')) * 4096"
    unfolding lt s by (rule ll(3))
  have lr': "length (data_region m') = unat (data_region_blocks (sb m')) * 4096"
    unfolding lr s by (rule ll(4))
  have "persist m' = superblock_bytes (sb m') @ replicate 3980 0 @ inode_bitmap m'
      @ data_bitmap m' @ inode_table m' @ data_region m'"
    using vs il(2,3) lt' lr' by (rule persist_layout)
  then have "field out 0 116 = superblock_bytes (sb m')"
    by (simp add: out field_head)
  moreover have "116 \<le> length img"
    using image_length [OF vp] by simp
  then have "superblock_bytes (image_superblock img) = field img 0 116"
    by (simp add: image_superblock_def superblock_bytes_of length_field)
  ultimately show ?thesis
    using s so by simp
qed

theorem superblock_never_mutated_witness:
  "\<exists>out. valid_image (fresh_image 180 128 0 (replicate 3976 0))
    \<and> mkfs_adder (Some (fresh_image 180 128 0 (replicate 3976 0))) (Some [0x78]) [0x61] 7 True
      = Inr out
    \<and> field out 0 116 = field (fresh_image 180 128 0 (replicate 3976 0)) 0 116
    \<and> image_superblock out = image_superblock (fresh_image 180 128 0 (replicate 3976 0))"
proof -
  let ?img = "fresh_image 180 128 0 (replicate 3976 0)"
  have v: "valid_image ?img"
    by (rule fresh_image_accepts(1) [where bytes = "[0x78]"]) simp_all
  have "\<exists>out. mkfs_adder (Some ?img) (Some [0x78]) [0x61] 7 True = Inr out"
    by (rule fresh_image_accepts(2)) simp_all
  then obtain out where r: "mkfs_adder (Some ?img) (Some [0x78]) [0x61] 7 True = Inr out"
    by blast
  from superblock_never_mutated [OF v r] v r show ?thesis
    by blast
qed

section \<open>A sequence of one-block files\<close>

lemma one_block: "1 \<le> S \<Longrightarrow> S \<le> 4096 \<Longrightarrow> (S + 4095) div 4096 = (1 :: nat)"
  by simp

lemma insert_all_packed:
  assumes "packed m a d n"
    and "\<And>file_name bytes now. (file_name, bytes, now) \<in> set reqs \<Longrightarrow>
      1 \<le> length bytes \<and> length bytes \<le> 4096"
    and "n + length reqs \<le> 64"
    and "a + length reqs \<le> unat (inode_count (sb m))"
    and "(a + length reqs) * 128 \<le> length (inode_table m)"
    and "d + length reqs \<le> unat (data_region_blocks (sb m))"
  shows "\<exists>m'. insert_all (persist m) reqs = Inr (persist m')
    \<and> packed m' (a + length reqs) (d + length reqs) (n + length reqs)
    \<and> sb m' = sb m \<and> length (inode_table m') = length (inode_table m)"
  using assms
proof (induction reqs arbitrary: m a d n)
  case Nil
  then show ?case
    by auto
next
  case (Cons r reqs)
  obtain file_name bytes now where r: "r = (file_name, bytes, now)"
    by (cases r) auto
  have S: "1 \<le> length bytes" "length bytes \<le> 4096"
    using Cons.prems(2) [of file_name bytes now] by (simp_all add: r)
  have S': "length bytes \<le> 49152"
    using S(2) by simp
  note ob = one_block [OF S]
  have a: "a < unat (inode_count (sb m))" "a * 128 + 128 \<le> length (inode_table m)"
    using Cons.prems(4,5) by simp_all
  have dd: "d + (length bytes + 4095) div 4096 \<le> unat (data_region_blocks (sb m))"
    unfolding ob using Cons.prems(6) by simp
  have n: "n < 64"
    using Cons.prems(3) by simp
  from mkfs_adder_packed_run(2) [OF Cons.prems(1) a S(1) S' dd n, of file_name now]
  obtain m1 where
    run: "mkfs_adder (Some (persist m)) (Some bytes) file_name now True = Inr (persist m1)"
    and p1: "packed m1 (Suc a) (d + (length bytes + 4095) div 4096) (Suc n)"
    and s1: "sb m1 = sb m"
    and l1: "length (inode_table m1) = length (inode_table m)"
    by blast
  have p1': "packed m1 (Suc a) (Suc d) (Suc n)"
    using p1 unfolding ob by simp
  have "\<exists>m'. insert_all (persist m1) reqs = Inr (persist m')
    \<and> packed m' (Suc a + length reqs) (Suc d + length reqs) (Suc n + length reqs)
    \<and> sb m' = sb m1 \<and> length (inode_table m') = length (inode_table m1)"
  proof (rule Cons.IH [OF p1'])
    show "1 \<le> length bytes' \<and> length bytes' \<le> 4096"
      if "(file_name', bytes', now') \<in> set reqs" for file_name' bytes' now'
      using Cons.prems(2) [of file_name' bytes' now'] that by simp
    show "Suc n + length reqs \<le> 64"
      using Cons.prems(3) by simp
    show "Suc a + length reqs \<le> unat (inode_count (sb m1))"
      using Cons.prems(4) by (simp add: s1)
    show "(Suc a + length reqs) * 128 \<le> length (inode_table m1)"
      using Cons.prems(5) by (simp add: l1)
    show "Suc d + length reqs \<le> unat (data_region_blocks (sb m1))"
      using Cons.prems(6) by (simp add: s1)
  qed
  then obtain m' where
    ia: "insert_all (persist m1) reqs = Inr (persist m')"
    and p': "packed m' (Suc a + length reqs) (Suc d + length reqs) (Suc n + length reqs)"
    and s': "sb m' = sb m1" and l': "length (inode_table m') = length (inode_table m1)"
    by blast
  have "insert_all (persist m) (r # reqs) = Inr (persist m')"
    by (simp add: r run ia)
  moreover have "packed m' (a + length (r # reqs)) (d + length (r # reqs)) (n + length (r # reqs))"
    using p' by simp
  ultimately show ?case
    using s' s1 l' l1 by auto
qed

lemma fresh_image_fills:
  fixes size_kib inodes :: u64
  assumes "180 \<le> size_kib" "size_kib \<le> 4096" "size_kib mod 4 = 0"
    and "128 \<le> inodes" "inodes \<le> 512"
    and "3976 \<le> length beyond"
    and "img = fresh_image size_kib inodes now beyond"
    and "64 \<le> unat (data_region_blocks (image_superblock img))"
    and "length reqs = 62"
    and "\<And>file_name bytes t. (file_name, bytes, t) \<in> set reqs \<Longrightarrow>
      1 \<le> length bytes \<and> length bytes \<le> 4096"
    and "1 \<le> length bytes" "length bytes \<le> 4096"
  shows "\<exists>out. insert_all img reqs = Inr out
    \<and> mkfs_adder (Some out) (Some bytes) file_name t can_create = Inl RootDirectoryFull"
proof -
  from fresh_image_packed [OF assms(1-6), of "[]" now] obtain s where
    f: "fresh_image size_kib inodes now beyond = persist (fresh_regions s now)"
    and p: "packed (fresh_regions s now) 1 1 2"
    and ic: "inode_count s = inodes"
    and tl: "unat inodes * 128 \<le> length (inode_table (fresh_regions s now))"
    by blast
  let ?m = "fresh_regions s now"
  have img: "img = persist ?m"
    using assms(7) f by simp
  have sm: "sb ?m = s"
    by (simp add: fresh_regions_def)
  have ui: "128 \<le> unat inodes"
    using assms(4) by (simp add: word_le_nat_alt)
  have drb: "64 \<le> unat (data_region_blocks s)"
    using assms(8) by (simp add: img packed_image(2) [OF p] sm)
  have "\<exists>m'. insert_all (persist ?m) reqs = Inr (persist m')
    \<and> packed m' (1 + length reqs) (1 + length reqs) (2 + length reqs)
    \<and> sb m' = sb ?m \<and> length (inode_table m') = length (inode_table ?m)"
  proof (rule insert_all_packed [OF p])
    show "1 \<le> length bytes' \<and> length bytes' \<le> 4096"
      if "(file_name', bytes', now') \<in> set reqs" for file_name' bytes' now'
      using assms(10) that by blast
    show "2 + length reqs \<le> 64"
      by (simp add: assms(9))
    show "1 + length reqs \<le> unat (inode_count (sb ?m))"
      using ui by (simp add: assms(9) sm ic)
    show "(1 + length reqs) * 128 \<le> length (inode_table ?m)"
      using ui tl by (simp add: assms(9))
    show "1 + length reqs \<le> unat (data_region_blocks (sb ?m))"
      using drb by (simp add: assms(9) sm)
  qed
  then obtain m' where
    ia: "insert_all (persist ?m) reqs = Inr (persist m')"
    and p': "packed m' 63 63 64"
    and s': "sb m' = sb ?m" and l': "length (inode_table m') = length (inode_table ?m)"
    by (auto simp add: assms(9))
  have a: "63 < unat (inode_count (sb m'))" "63 * 128 + 128 \<le> length (inode_table m')"
    using ui tl by (simp_all add: s' sm ic l')
  have dd: "63 + (length bytes + 4095) div 4096 \<le> unat (data_region_blocks (sb m'))"
    unfolding one_block [OF assms(11,12)] using drb by (simp add: s' sm)
  have S': "length bytes \<le> 49152"
    using assms(12) by simp
  have "mkfs_adder (Some (persist m')) (Some bytes) file_name t can_create = Inl RootDirectoryFull"
    using p' a assms(11) S' dd by (rule mkfs_adder_packed_run(1)) simp
  then show ?thesis
    using ia by (simp add: img)
qed

lemma insert_all_append:
  "insert_all img (xs @ ys) = and_then (insert_all img xs) (\<lambda>out. insert_all out ys)"
proof (induction xs arbitrary: img)
  case Nil
  then show ?case by simp
next
  case (Cons r xs)
  obtain file_name bytes now where r: "r = (file_name, bytes, now)"
    by (cases r) auto
  show ?case
    by (cases "mkfs_adder (Some img) (Some bytes) file_name now True") (simp_all add: r Cons.IH)
qed

lemma insert_all_prefix:
  assumes "insert_all img reqs = Inr out"
  shows "\<exists>out'. insert_all img (take k reqs) = Inr out'"
proof -
  have "insert_all img (take k reqs @ drop k reqs) = Inr out"
    using assms by simp
  then show ?thesis
    unfolding insert_all_append and_then_Inr_iff by blast
qed

lemma fresh_image_data_blocks:
  fixes size_kib inodes :: u64
  assumes "180 \<le> size_kib" "size_kib \<le> 4096" "size_kib mod 4 = 0"
    and "128 \<le> inodes" "inodes \<le> 512"
    and "3976 \<le> length beyond"
  shows "unat (data_region_blocks (image_superblock (fresh_image size_kib inodes now beyond)))
    = unat size_kib * 1024 div 4096 - (3 + (unat inodes * 128 + 4095) div 4096)"
proof -
  from fresh_image_packed [OF assms, of "[]" now] obtain s where
    f: "fresh_image size_kib inodes now beyond = persist (fresh_regions s now)"
    and p: "packed (fresh_regions s now) 1 1 2"
    and tb: "unat (total_blocks s) = unat size_kib * 1024 div 4096"
    and itb: "unat (inode_table_blocks s) = (unat inodes * 128 + 4095) div 4096"
    by blast
  have sm: "sb (fresh_regions s now) = s"
    by (simp add: fresh_regions_def)
  from p have "valid_superblock s"
    by (simp add: packed_def sm)
  then have "unat (total_blocks s) = 3 + unat (inode_table_blocks s) + unat (data_region_blocks s)"
    by (simp add: valid_superblock_def)
  then have "unat (data_region_blocks s)
      = unat size_kib * 1024 div 4096 - (3 + (unat inodes * 128 + 4095) div 4096)"
    using tb itb by linarith
  then show ?thesis
    by (simp add: f packed_image(2) [OF p] sm)
qed

section \<open>Filling the root directory\<close>

text \<open>
  Claim C2, as the code has it. A new root directory holds 2 of its 64 entries, so 62 more
  fit. Starting from a new image whose data region has at least 64 blocks, and adding
  files of one block each (1 to 4096 bytes): each of the first 62 runs succeeds, and the
  63rd run fails with the error of a full root directory, whatever its file is, and writes
  no output image (the result \<open>Inl\<close>).
\<close>

theorem root_directory_full_after_62:
  fixes size_kib inodes :: u64
  assumes "180 \<le> size_kib" "size_kib \<le> 4096" "size_kib mod 4 = 0"
    and "128 \<le> inodes" "inodes \<le> 512"
    and "3976 \<le> length beyond"
    and "img = fresh_image size_kib inodes now beyond"
    and "64 \<le> unat (data_region_blocks (image_superblock img))"
    and "length reqs = 62"
    and "\<And>file_name bytes t. (file_name, bytes, t) \<in> set reqs \<Longrightarrow>
      1 \<le> length bytes \<and> length bytes \<le> 4096"
    and "1 \<le> length bytes" "length bytes \<le> 4096"
  shows "(\<forall>k \<le> 62. \<exists>out. insert_all img (take k reqs) = Inr out)
    \<and> (\<exists>out. insert_all img reqs = Inr out
      \<and> mkfs_adder (Some out) (Some bytes) file_name t can_create = Inl RootDirectoryFull
      \<and> insert_all img (reqs @ [(file_name, bytes, t)]) = Inl RootDirectoryFull)"
proof -
  have ff: "\<exists>out. insert_all img reqs = Inr out
    \<and> mkfs_adder (Some out) (Some bytes) file_name t c = Inl RootDirectoryFull" for c
    by (rule fresh_image_fills [OF assms(1-9) _ assms(11,12)]) (rule assms(10))
  from ff [of True] obtain out where
    ia: "insert_all img reqs = Inr out"
    by blast
  from ff [of can_create] ia
  have full: "mkfs_adder (Some out) (Some bytes) file_name t can_create = Inl RootDirectoryFull"
    by simp
  from ff [of True] ia
  have "mkfs_adder (Some out) (Some bytes) file_name t True = Inl RootDirectoryFull"
    by simp
  then have app: "insert_all img (reqs @ [(file_name, bytes, t)]) = Inl RootDirectoryFull"
    by (simp add: insert_all_append ia)
  have "\<forall>k \<le> 62. \<exists>out. insert_all img (take k reqs) = Inr out"
    using insert_all_prefix [OF ia] by blast
  then show ?thesis
    using ia full app by blast
qed

theorem root_directory_full_after_62_witness:
  "\<exists>out. insert_all (fresh_image 400 128 0 (replicate 3976 0))
          (replicate 62 ([0x61], [0x78], 0)) = Inr out
    \<and> mkfs_adder (Some out) (Some [0x79]) [0x62] 0 True = Inl RootDirectoryFull"
proof -
  let ?img = "fresh_image 400 128 0 (replicate 3976 0)"
  have d: "64 \<le> unat (data_region_blocks (image_superblock ?img))"
    by (simp add: fresh_image_data_blocks)
  from root_directory_full_after_62 [of 400 128 "replicate 3976 0" ?img 0
      "replicate 62 ([0x61], [0x78], 0)" "[0x79]" "[0x62]" 0 True, OF _ _ _ _ _ _ _ d]
  show ?thesis
    by auto
qed

text \<open>
  The 63rd insert into a new image of 400 KiB does not succeed: 62 files of one byte fill
  the root directory, and the next run ends with the error of a full root directory.
\<close>

theorem sixty_third_insert_fails:
  "insert_all (fresh_image 400 128 0 (replicate 3976 0)) (replicate 63 ([0x61], [0x78], 0))
     = Inl RootDirectoryFull"
proof -
  let ?img = "fresh_image 400 128 0 (replicate 3976 0)"
  let ?r = "([0x61], [0x78], 0) :: u8 list \<times> u8 list \<times> u64"
  have d: "64 \<le> unat (data_region_blocks (image_superblock ?img))"
    by (simp add: fresh_image_data_blocks)
  have "\<exists>out. insert_all ?img (replicate 62 ?r) = Inr out
    \<and> mkfs_adder (Some out) (Some [0x78]) [0x61] 0 True = Inl RootDirectoryFull"
    by (rule fresh_image_fills [of 400 128 "replicate 3976 0" ?img 0]) (use d in simp_all)
  then have "insert_all ?img (replicate 62 ?r @ [?r]) = Inl RootDirectoryFull"
    by (auto simp add: insert_all_append)
  moreover have "replicate 63 ?r = replicate 62 ?r @ [?r]"
    using replicate_add [of 62 1 ?r] by simp
  ultimately show ?thesis
    by (simp only:)
qed

section \<open>Bounds that hold in every successful run\<close>

lemma needed_blocks_cases:
  fixes fs :: u64
  assumes "\<not> (fs + 4096 - 1) div 4096 > 12"
  shows "unat ((fs + 4096 - 1) div 4096) = 0 \<or> unat fs \<le> 49152"
proof (cases "unat fs + 4095 < 2 ^ 64")
  case True
  have e: "fs + 4096 - 1 = fs + 4095"
    by simp
  have "unat (fs + 4095) = unat fs + 4095"
    using True unat_add_lem [of fs 4095] by simp
  then have d: "unat ((fs + 4095) div 4096) = (unat fs + 4095) div 4096"
    by (simp only: unat_div) simp
  have "\<not> 12 < unat ((fs + 4095) div 4096)"
    using assms unfolding e by (simp add: word_less_nat_alt)
  then have "(unat fs + 4095) div 4096 \<le> 12"
    using d by simp
  then have "unat fs \<le> 49152"
    by arith
  then show ?thesis ..
next
  case False
  have e: "fs + 4096 - 1 = fs + 4095"
    by simp
  have b: "unat fs < 2 ^ 64"
    using unsigned_less [of fs] by simp
  have "unat (fs + 4095) = (unat fs + 4095) mod 2 ^ 64"
    by (simp add: unat_word_ariths)
  also have "\<dots> = unat fs + 4095 - 2 ^ 64"
    using False b by (simp add: mod_if)
  finally have "unat (fs + 4095) < 4096"
    using b by simp
  then have "unat ((fs + 4095) div 4096) = 0"
    by (simp only: unat_div) simp
  then show ?thesis
    unfolding e ..
qed

lemma copy_size_le_block:
  fixes fs :: u64
  assumes "\<not> (fs + 4096 - 1) div 4096 > 12" "j < unat ((fs + 4096 - 1) div 4096)"
  shows "copy_size fs (unat ((fs + 4096 - 1) div 4096)) j \<le> 4096"
proof -
  from needed_blocks_cases [OF assms(1)] assms(2) have S: "unat fs \<le> 49152"
    by auto
  have fs: "of_nat (unat fs) = fs"
    by simp
  note nb = needed_blocks_small(1) [OF S, unfolded fs]
  have "j < (unat fs + 4095) div 4096"
    using assms(2) by (simp only: nb)
  from copy_size_bounds(2) [OF S this] show ?thesis
    by (simp only: fs nb)
qed

lemma find_root_slot_entry:
  assumes "find_root_slot m = Inr (free_entry, root_off, table')"
    and "entry_count_of (root_of (inode_table m)) \<le> 64"
  shows "0 \<le> free_entry" "free_entry < 64"
proof -
  let ?root = "root_of (inode_table m)"
  note t = find_root_slot_result(1) [OF assms(1)]
  note u = assms(1) [unfolded find_root_slot_unfold [OF t] and_then_Inr_iff]
  then obtain r where
    sc: "scan_root_entries (data_region m) (root_entries_offset (sb m) ?root)
        (entry_count_of ?root) 0 = Inr r"
    and res: "(let free_entry = (case r of Some i \<Rightarrow> int_of_u64 (of_nat i) | None \<Rightarrow> - 1) in
     if free_entry = - 1 then
       (if 64 \<le> entry_count_of ?root then Inl RootDirectoryFull
        else Inr (int_of_u64 (size_bytes ?root div 64),
                root_entries_offset (sb m) ?root,
                patched (inode_table m) 0
                  (inode_bytes (finalized (?root\<lparr>size_bytes := size_bytes ?root + 64\<rparr>)))))
     else Inr (free_entry, root_entries_offset (sb m) ?root, inode_table m))
      = Inr (free_entry, root_off, table')"
    by blast
  have "0 \<le> free_entry \<and> free_entry < 64"
  proof (cases r)
    case None
    with res have n: "\<not> 64 \<le> entry_count_of ?root"
      and f: "free_entry = int_of_u64 (size_bytes ?root div 64)"
      by (auto simp add: Let_def split: if_splits)
    define k where "k = unat (size_bytes ?root div 64)"
    have k: "k < 64"
      using n by (simp add: entry_count_of_def k_def)
    then have "k < 2 ^ 31"
      by simp
    then have "int_of_u64 (size_bytes ?root div 64) = int k"
      unfolding k_def by (rule int_of_u64_unat)
    then have "free_entry = int k"
      by (simp only: f)
    then show ?thesis
      using k by simp
  next
    case (Some i)
    from scan_root_entries_Some [OF sc [unfolded Some]] have i: "i < entry_count_of ?root"
      by simp
    then have i64: "i < 64"
      using assms(2) by simp
    then have "int_of_u64 (of_nat i) = int i"
      by (intro int_of_u64_small) simp
    with res Some have "free_entry = int i"
      by (auto simp add: Let_def split: if_splits)
    then show ?thesis
      using i64 by simp
  qed
  then show "0 \<le> free_entry" "free_entry < 64"
    by simp_all
qed

section \<open>What an insert leaves untouched\<close>

lemma insert_file_frame:
  assumes ins: "insert_file m file file_name now = Inr m'"
    and vs: "valid_superblock (sb m)"
    and lb: "length (inode_bitmap m) = 4096" "length (data_bitmap m) = 4096"
    and lt: "length (inode_table m) = unat (inode_table_blocks (sb m)) * 4096"
    and lr: "length (data_region m) = unat (data_region_blocks (sb m)) * 4096"
    and b0: "bit_at (inode_bitmap m) 0"
    and rb: "unat (data_region_start (sb m)) \<le> unat (direct (root_of (inode_table m)) ! 0)"
      "unat (direct (root_of (inode_table m)) ! 0) < unat (total_blocks (sb m))"
    and rsz: "unat (size_bytes (root_of (inode_table m))) \<le> 4096"
  shows "\<And>k. k < unat (data_region_blocks (sb m)) \<Longrightarrow>
      k \<noteq> unat (direct (root_of (inode_table m)) ! 0) - unat (data_region_start (sb m)) \<Longrightarrow>
      bit_at (data_bitmap m) k \<or> \<not> bit_at (data_bitmap m') k \<Longrightarrow>
      field (data_region m') (k * 4096) 4096 = field (data_region m) (k * 4096) 4096"
    and "\<And>j. j * 128 + 128 \<le> length (inode_table m) \<Longrightarrow> j \<noteq> 0 \<Longrightarrow>
      bit_at (inode_bitmap m) j \<or> \<not> bit_at (inode_bitmap m') j \<Longrightarrow>
      field (inode_table m') (j * 128) 128 = field (inode_table m) (j * 128) 128"
proof -
  let ?table = "inode_table m"
  let ?region = "data_region m"
  let ?root = "root_of ?table"
  let ?rbk = "unat (direct ?root ! 0) - unat (data_region_start (sb m))"
  from insert_file_steps [OF ins]
  obtain free_inode and bytes :: "u8 list" and data_blocks dbitmap file_content
    and file_fp :: stream and dregion1 itable1 ibitmap free_entry root_off itable2 dregion2 itable3
    where ffi: "find_free_inode (inode_bitmap m) (inode_count (sb m)) = Inr free_inode"
    and ne: "free_inode \<noteq> - 1"
    and n12: "\<not> ((of_nat (length bytes) :: u64) + 4096 - 1) div 4096 > 12"
    and al: "alloc_data_blocks (sb m) (unat (((of_nat (length bytes) :: u64) + 4096 - 1) div 4096)) 0
         (replicate 12 0) (data_bitmap m) = Inr (data_blocks, dbitmap)"
    and wf: "write_file_blocks (sb m) (of_nat (length bytes)) file_content data_blocks
         (unat (((of_nat (length bytes) :: u64) + 4096 - 1) div 4096)) 0 (data_region m)
         = Inr dregion1"
    and ci: "create_inode (inode_table m) free_inode (of_nat (length bytes)) now
         (unat (((of_nat (length bytes) :: u64) + 4096 - 1) div 4096)) data_blocks = Inr itable1"
    and sbit: "set_bit_at (inode_bitmap m) (free_inode - 1) = Inr ibitmap"
    and frs: "find_root_slot (m\<lparr> inode_bitmap := ibitmap, data_bitmap := dbitmap,
                inode_table := itable1, data_region := dregion1 \<rparr>)
         = Inr (free_entry, root_off, itable2)"
    and wd: "write_dirent dregion1 root_off free_entry free_inode file_name = Inr dregion2"
    and br: "bump_root_links itable2 = Inr itable3"
    and m': "m' = m\<lparr> inode_bitmap := ibitmap, data_bitmap := dbitmap,
                inode_table := itable3, data_region := dregion2 \<rparr>"
    by (elim exE conjE)
  let ?fs = "of_nat (length bytes) :: u64"
  let ?nb = "unat ((?fs + 4096 - 1) div 4096)"
  let ?m1 = "m\<lparr> inode_bitmap := ibitmap, data_bitmap := dbitmap,
                inode_table := itable1, data_region := dregion1 \<rparr>"
  note vb = valid_superblock_bounds [OF vs]
  have sel: "inode_bitmap m' = ibitmap" "data_bitmap m' = dbitmap"
    "inode_table m' = itable3" "data_region m' = dregion2"
    by (simp_all add: m')
  from find_free_inode_result [OF lb(1) ffi ne] obtain f where
    fi: "free_inode = int f + 1" and f32: "f < 32768" and fb: "\<not> bit_at (inode_bitmap m) f"
    by blast
  have f0: "f \<noteq> 0"
  proof
    assume "f = 0"
    with fb b0 show False
      by simp
  qed
  have off: "new_inode_offset free_inode = f * 128"
    unfolding fi using f32 by (rule new_inode_offset_next)
  note cr = create_inode_result [OF ci, unfolded off]
  have nf: "nat (free_inode - 1) = f"
    by (simp add: fi)
  note sr = set_bit_at_result [OF sbit, unfolded nf]
  have fset: "bit_at ibitmap f"
    using sr(4) [of f] by simp
  have lt1: "length itable1 = length ?table"
    unfolding cr(2) using cr(1) by (intro length_patched) simp
  have r1: "root_of itable1 = ?root"
    unfolding cr(2) using cr(1) f0 by (intro root_of_patched_other) simp_all
  note fr = find_root_slot_result [OF frs]
  have fr3: "length itable2 = length itable1"
    using fr(3) by simp
  have fr4: "itable2 ! p = itable1 ! p" if "128 \<le> p" "p < length itable1" for p
    using fr(4) [of p] that by simp
  have ro: "root_off = root_entries_offset (sb m) ?root"
    using fr(2) by (simp add: r1)
  note bl = bump_root_links_result [OF br]
  show "field (inode_table m') (j * 128) 128 = field (inode_table m) (j * 128) 128"
    if j: "j * 128 + 128 \<le> length (inode_table m)" "j \<noteq> 0"
      "bit_at (inode_bitmap m) j \<or> \<not> bit_at (inode_bitmap m') j" for j
  proof -
    have jf: "j \<noteq> f"
      using j(3) fb fset by (auto simp add: sel)
    have "field itable3 (j * 128) 128 = field itable2 (j * 128) 128"
      unfolding bl(2) using bl(1) j(1,2) lt1 fr3 by (intro field_patched_outside) simp_all
    also have "\<dots> = field itable1 (j * 128) 128"
    proof (rule field_cong_nth)
      show "j * 128 + 128 \<le> length itable2" "j * 128 + 128 \<le> length itable1"
        using j(1) lt1 fr3 by simp_all
      show "itable2 ! p = itable1 ! p" if "j * 128 \<le> p" "p < j * 128 + 128" for p
        using that j(1,2) lt1 by (intro fr4) simp_all
    qed
    also have "\<dots> = field ?table (j * 128) 128"
      unfolding cr(2) using cr(1) j(1) jf by (intro field_patched_outside) auto
    finally show ?thesis
      by (simp only: sel)
  qed
  show "field (data_region m') (k * 4096) 4096 = field (data_region m) (k * 4096) 4096"
    if k: "k < unat (data_region_blocks (sb m))" "k \<noteq> ?rbk"
      "bit_at (data_bitmap m) k \<or> \<not> bit_at (data_bitmap m') k" for k
  proof -
    have kr: "k * 4096 + 4096 \<le> length ?region"
      using k(1) lr by simp
    from alloc_data_blocks_result [OF al lb(2)]
    have blk: "\<And>j. j < ?nb \<Longrightarrow> j < 12 \<Longrightarrow>
          \<exists>fj. data_blocks ! j = ucast (data_region_start (sb m) + of_nat fj)
             \<and> fj < unat (data_region_blocks (sb m)) \<and> fj < 32768
             \<and> \<not> bit_at (data_bitmap m) fj \<and> bit_at dbitmap fj"
      by simp
    have nb12: "?nb \<le> 12"
      using n12 by (simp add: word_less_nat_alt)
    note wr = write_file_blocks_result [OF wf]
    have l1: "length dregion1 = length ?region"
      using wr by simp
    have same: "dregion1 ! p = ?region ! p" if p: "k * 4096 \<le> p" "p < k * 4096 + 4096" for p
    proof -
      have pl: "p < length ?region"
        using p(2) kr by simp
      have "p < block_offset (sb m) data_blocks j
          \<or> block_offset (sb m) data_blocks j + copy_size ?fs ?nb j \<le> p" if j: "j < ?nb" for j
      proof -
        from blk [OF j] j nb12 obtain fj where
          dj: "data_blocks ! j = ucast (data_region_start (sb m) + of_nat fj)"
          and fj: "fj < 32768" "\<not> bit_at (data_bitmap m) fj" "bit_at dbitmap fj"
          by auto
        have bo: "block_offset (sb m) data_blocks j = fj * 4096"
          using dj by (rule block_offset_of) (use fj(1) vb(1) in simp)
        have cs: "copy_size ?fs ?nb j \<le> 4096"
          using n12 j by (rule copy_size_le_block)
        have "k \<noteq> fj"
          using k(3) fj(2,3) by (auto simp add: sel)
        then have "k < fj \<or> fj < k"
          by auto
        then show ?thesis
        proof
          assume "k < fj"
          then have "k * 4096 + 4096 \<le> fj * 4096"
            by simp
          then show ?thesis
            using p(2) by (simp add: bo)
        next
          assume "fj < k"
          then have "fj * 4096 + 4096 \<le> k * 4096"
            by simp
          then show ?thesis
            using p(1) cs by (simp add: bo)
        qed
      qed
      with wr pl show ?thesis
        by blast
    qed
    have s1: "field dregion1 (k * 4096) 4096 = field ?region (k * 4096) 4096"
      using kr l1 same by (intro field_cong_nth) simp_all
    note dw = write_dirent_result [OF wd]
    have rbk: "?rbk < 2 ^ 20"
    proof -
      have "unat (total_blocks (sb m)) \<le> 1024"
        using vs by (simp add: valid_superblock_def)
      then show ?thesis
        using rb(2) by simp
    qed
    have ro': "root_off = ?rbk * 4096"
      unfolding ro using rb(1) rbk by (rule root_entries_offset_valid)
    have "unat (size_bytes ?root div 64) = unat (size_bytes ?root) div 64"
      by (simp add: unat_div)
    then have ec: "entry_count_of (root_of (inode_table ?m1)) \<le> 64"
      using rsz by (simp add: r1 entry_count_of_def)
    note fe = find_root_slot_entry [OF frs ec]
    define e where "e = nat free_entry"
    have e64: "e < 64"
      using fe by (simp add: e_def)
    have dr2: "dregion2 = patched dregion1 (?rbk * 4096 + e * 64)
        (dirent_bytes (new_dirent (field dregion1 (?rbk * 4096 + e * 64) 64) free_inode file_name))"
      and dl: "?rbk * 4096 + e * 64 + 64 \<le> length dregion1"
      using dw(2,3) by (simp_all only: ro' e_def)
    have "k < ?rbk \<or> ?rbk < k"
      using k(2) by auto
    then have away: "k * 4096 + 4096 \<le> ?rbk * 4096 + e * 64
        \<or> ?rbk * 4096 + e * 64 + 64 \<le> k * 4096"
    proof
      assume "k < ?rbk"
      then have "k * 4096 + 4096 \<le> ?rbk * 4096"
        by simp
      then show ?thesis
        by simp
    next
      assume "?rbk < k"
      then have "?rbk * 4096 + 4096 \<le> k * 4096"
        by simp
      moreover have "e * 64 + 64 \<le> 4096"
        using e64 by simp
      ultimately show ?thesis
        by simp
    qed
    have "field dregion2 (k * 4096) 4096 = field dregion1 (k * 4096) 4096"
      unfolding dr2 using dl kr l1 away by (intro field_patched_outside) simp_all
    with s1 show ?thesis
      by (simp only: sel)
  qed
qed

lemma fresh_image_insert_bits:
  fixes size_kib inodes :: u64
  assumes "180 \<le> size_kib" "size_kib \<le> 4096" "size_kib mod 4 = 0"
    and "128 \<le> inodes" "inodes \<le> 512"
    and "3976 \<le> length beyond"
    and "img = fresh_image size_kib inodes now beyond"
    and "1 \<le> length bytes" "length bytes \<le> 49152"
  shows "\<exists>out. mkfs_adder (Some img) (Some bytes) file_name t True = Inr out
    \<and> dense (image_data_bitmap out) (1 + (length bytes + 4095) div 4096)
    \<and> dense (image_inode_bitmap out) 2"
    and "image_root_block img = 0"
    and "unat (inode_table_blocks (image_superblock img)) = (unat inodes * 128 + 4095) div 4096"
proof -
  from fresh_image_packed [OF assms(1-6), of "[]" now] obtain s where
    f: "fresh_image size_kib inodes now beyond = persist (fresh_regions s now)"
    and p: "packed (fresh_regions s now) 1 1 2"
    and ic: "inode_count s = inodes"
    and tl: "unat inodes * 128 \<le> length (inode_table (fresh_regions s now))"
    and drb: "26 \<le> unat (data_region_blocks s)"
    and itb: "unat (inode_table_blocks s) = (unat inodes * 128 + 4095) div 4096"
    by blast
  let ?m = "fresh_regions s now"
  have img: "img = persist ?m"
    using assms(7) f by simp
  have sm: "sb ?m = s"
    by (simp add: fresh_regions_def)
  have ui: "128 \<le> unat inodes"
    using assms(4) by (simp add: word_le_nat_alt)
  have a: "1 < unat (inode_count (sb ?m))" "1 * 128 + 128 \<le> length (inode_table ?m)"
    using ui tl by (simp_all add: sm ic)
  have "(length bytes + 4095) div 4096 \<le> 12"
    using assms(9) by simp
  then have dd: "1 + (length bytes + 4095) div 4096 \<le> unat (data_region_blocks (sb ?m))"
    using drb by (simp add: sm)
  note pi = packed_image [OF p]
  show "image_root_block img = 0"
    unfolding img by (rule pi(8))
  show "unat (inode_table_blocks (image_superblock img)) = (unat inodes * 128 + 4095) div 4096"
    unfolding img pi(2) sm by (rule itb)
  from mkfs_adder_packed_run(2) [OF p a assms(8,9) dd, of file_name t] obtain m' where
    run: "mkfs_adder (Some (persist ?m)) (Some bytes) file_name t True = Inr (persist m')"
    and p': "packed m' (Suc 1) (1 + (length bytes + 4095) div 4096) (Suc 2)"
    by auto
  note po = packed_image [OF p']
  have e2: "Suc 1 = 2"
    by simp
  have "dense (data_bitmap m') (1 + (length bytes + 4095) div 4096)"
    "dense (inode_bitmap m') (Suc 1)"
    using p' unfolding packed_def by blast+
  then have "dense (image_data_bitmap (persist m')) (1 + (length bytes + 4095) div 4096)"
    "dense (image_inode_bitmap (persist m')) 2"
    unfolding po(4,5) e2 .
  with run show "\<exists>out. mkfs_adder (Some img) (Some bytes) file_name t True = Inr out
    \<and> dense (image_data_bitmap out) (1 + (length bytes + 4095) div 4096)
    \<and> dense (image_inode_bitmap out) 2"
    unfolding img by blast
qed

section \<open>Oversized files\<close>

lemma insert_file_too_large_error:
  assumes "find_free_inode (inode_bitmap m) (inode_count (sb m)) = Inr free_inode"
    and "free_inode \<noteq> - 1"
    and "49152 < length bytes" "length bytes < 2 ^ 63"
  shows "insert_file m (Some bytes) file_name now = Inl FileTooLarge"
  unfolding insert_file_def Let_def
  using assms(1,2) needed_blocks_large [OF assms(3,4)] by simp

text \<open>
  Claim C5. A file of more than 49152 bytes (and of a size that \<^verbatim>\<open>ftell\<close> can report,
  below \<open>2 ^ 63\<close>) makes every run of the adder end in an error exit, whatever the input
  image is; the output file is opened only after the last of these exits, so none is
  produced. On a new image the error is the one of a file that exceeds the 12 direct
  blocks.
\<close>

theorem oversized_file_rejected:
  fixes size_kib inodes :: u64
  assumes "49152 < length bytes" "length bytes < 2 ^ 63"
  shows "(\<exists>e. mkfs_adder input (Some bytes) file_name now can_create = Inl e)
    \<and> (180 \<le> size_kib \<and> size_kib \<le> 4096 \<and> size_kib mod 4 = 0
        \<and> 128 \<le> inodes \<and> inodes \<le> 512 \<and> 3976 \<le> length beyond \<longrightarrow>
      mkfs_adder (Some (fresh_image size_kib inodes t beyond)) (Some bytes) file_name now
        can_create = Inl FileTooLarge)"
proof (intro conjI impI)
  show "\<exists>e. mkfs_adder input (Some bytes) file_name now can_create = Inl e"
  proof (cases input)
    case None
    then show ?thesis by (simp add: mkfs_adder_def)
  next
    case (Some img)
    show ?thesis
      unfolding mkfs_adder_def Some option.case
      apply (rule and_then_fails)
      subgoal for m
        using insert_file_too_large [OF assms, of m file_name now]
        by auto
      done
  qed
next
  assume b: "180 \<le> size_kib \<and> size_kib \<le> 4096 \<and> size_kib mod 4 = 0
        \<and> 128 \<le> inodes \<and> inodes \<le> 512 \<and> 3976 \<le> length beyond"
  then have b': "180 \<le> size_kib" "size_kib \<le> 4096" "size_kib mod 4 = 0"
    "128 \<le> inodes" "inodes \<le> 512" "3976 \<le> length beyond"
    by simp_all
  from fresh_image_packed [OF b', of "[]" t] obtain s where
    f: "fresh_image size_kib inodes t beyond = persist (fresh_regions s t)"
    and p: "packed (fresh_regions s t) 1 1 2"
    and ic: "inode_count s = inodes"
    by blast
  let ?m = "fresh_regions s t"
  have sm: "sb ?m = s"
    by (simp add: fresh_regions_def)
  have ui: "128 \<le> unat inodes"
    using b by (simp add: word_le_nat_alt)
  have d: "dense (inode_bitmap ?m) 1"
    using p by (simp add: packed_def)
  have "find_free_inode (inode_bitmap ?m) (inode_count (sb ?m)) = Inr (int 1 + 1)"
    using d by (rule dense_first_free(2)) (use ui in \<open>simp_all add: sm ic\<close>)
  then have "insert_file ?m (Some bytes) file_name now = Inl FileTooLarge"
    by (rule insert_file_too_large_error) (use assms in simp_all)
  then show "mkfs_adder (Some (fresh_image size_kib inodes t beyond)) (Some bytes) file_name now
        can_create = Inl FileTooLarge"
    unfolding f by (simp add: mkfs_adder_packed [OF p])
qed

theorem oversized_file_rejected_witness:
  "(\<exists>e. mkfs_adder (Some []) (Some (replicate 49153 0)) [0x61] 7 True = Inl e)
    \<and> mkfs_adder (Some (fresh_image 180 128 0 (replicate 3976 0))) (Some (replicate 49153 0))
        [0x61] 7 True = Inl FileTooLarge"
proof -
  have a: "49152 < length (replicate 49153 (0 :: u8))"
    by simp
  have b: "length (replicate 49153 (0 :: u8)) < 2 ^ 63"
    by simp
  note t = oversized_file_rejected [OF a b, of _ "[0x61]" 7 True 180 128 "replicate 3976 0" 0]
  have "\<exists>e. mkfs_adder (Some []) (Some (replicate 49153 0)) [0x61] 7 True = Inl e"
    using t [of "Some []"] by blast
  moreover have "mkfs_adder (Some (fresh_image 180 128 0 (replicate 3976 0)))
      (Some (replicate 49153 0)) [0x61] 7 True = Inl FileTooLarge"
    using t [of None] by simp
  ultimately show ?thesis
    by blast
qed

section \<open>A data region without a free block\<close>

lemma insert_file_no_blocks:
  assumes p: "packed m a d n"
    and a: "a < unat (inode_count (sb m))" "a * 128 + 128 \<le> length (inode_table m)"
    and S: "1 \<le> length bytes" "length bytes \<le> 49152"
    and full: "unat (data_region_blocks (sb m)) \<le> d"
  shows "insert_file m (Some bytes) file_name now = Inl NoFreeDataBlocks"
proof -
  let ?nb = "(length bytes + 4095) div 4096"
  from p have vs: "valid_superblock (sb m)"
    and ia: "dense (inode_bitmap m) a" and id: "dense (data_bitmap m) d"
    and lt: "length (inode_table m) = unat (inode_table_blocks (sb m)) * 4096"
    by (simp_all add: packed_def)
  note vb = valid_superblock_bounds [OF vs]
  have a32: "a < 32768"
    using a(2) lt vb(3) by simp
  note ffi = dense_first_free(2) [OF ia a32 a(1)]
  note nbs = needed_blocks_small [OF S(2)]
  have nb: "0 < ?nb"
    using S(1) by simp
  have ff: "find_free_data_block (data_bitmap m) (data_region_blocks (sb m)) = Inr (- 1)"
    using id full by (rule dense_full(1)) (use vb(2) in simp)
  have al: "alloc_data_blocks (sb m) ?nb 0 (replicate 12 0) (data_bitmap m) = Inl NoFreeDataBlocks"
    using nb ff by (subst alloc_data_blocks.simps) simp
  show ?thesis
    unfolding insert_file_def Let_def using ffi nbs al by simp
qed

text \<open>
  On the smallest image (180 KiB, 128 inodes) the data region has 38 blocks, one of them
  the root directory: 37 files of one block fit, and the 38th run ends for lack of a free
  data block, before the root directory is full.
\<close>

lemma small_image_runs_out_of_blocks:
  "insert_all (fresh_image 180 128 0 (replicate 3976 0)) (replicate 38 ([0x61], [0x78], 0))
     = Inl NoFreeDataBlocks"
proof -
  let ?img = "fresh_image 180 128 0 (replicate 3976 0)"
  let ?r = "([0x61], [0x78], 0) :: u8 list \<times> u8 list \<times> u64"
  have b: "180 \<le> (180 :: u64)" "(180 :: u64) \<le> 4096" "(180 :: u64) mod 4 = 0"
    "128 \<le> (128 :: u64)" "(128 :: u64) \<le> 512" "3976 \<le> length (replicate 3976 (0 :: u8))"
    by simp_all
  from fresh_image_packed [OF b, of "[]" 0] obtain s where
    f: "?img = persist (fresh_regions s 0)"
    and p: "packed (fresh_regions s 0) 1 1 2"
    and ic: "inode_count s = 128"
    and tl: "unat (128 :: u64) * 128 \<le> length (inode_table (fresh_regions s 0))"
    by blast
  let ?m = "fresh_regions s 0"
  have sm: "sb ?m = s"
    by (simp add: fresh_regions_def)
  have "unat (data_region_blocks (image_superblock ?img)) = 38"
    by (simp add: fresh_image_data_blocks)
  then have drb: "unat (data_region_blocks s) = 38"
    by (simp add: f packed_image(2) [OF p] sm)
  have "\<exists>m'. insert_all (persist ?m) (replicate 37 ?r) = Inr (persist m')
    \<and> packed m' (1 + length (replicate 37 ?r)) (1 + length (replicate 37 ?r))
        (2 + length (replicate 37 ?r))
    \<and> sb m' = sb ?m \<and> length (inode_table m') = length (inode_table ?m)"
    using tl by (intro insert_all_packed [OF p]) (simp_all add: sm ic drb)
  then obtain m' where
    ia: "insert_all (persist ?m) (replicate 37 ?r) = Inr (persist m')"
    and p': "packed m' 38 38 39"
    and s': "sb m' = sb ?m" and l': "length (inode_table m') = length (inode_table ?m)"
    by auto
  have a: "38 < unat (inode_count (sb m'))" "38 * 128 + 128 \<le> length (inode_table m')"
    using tl by (simp_all add: s' sm ic l')
  have S: "1 \<le> length [0x78 :: u8]" "length [0x78 :: u8] \<le> 49152"
    by simp_all
  have fl: "unat (data_region_blocks (sb m')) \<le> 38"
    by (simp add: s' sm drb)
  have "insert_file m' (Some [0x78]) [0x61] 0 = Inl NoFreeDataBlocks"
    using p' a S fl by (rule insert_file_no_blocks)
  then have "mkfs_adder (Some (persist m')) (Some [0x78]) [0x61] 0 True = Inl NoFreeDataBlocks"
    by (simp add: mkfs_adder_packed [OF p'])
  then have "insert_all ?img (replicate 37 ?r @ [?r]) = Inl NoFreeDataBlocks"
    by (simp add: insert_all_append f [symmetric] ia [unfolded f [symmetric]])
  moreover have "replicate 38 ?r = replicate 37 ?r @ [?r]"
    using replicate_add [of 37 1 ?r] by simp
  ultimately show ?thesis
    by (simp only:)
qed

section \<open>The checksums against their reference\<close>

lemma crc32_tab_step_reference: "crc32_tab_step c = crc32_reference_shift c"
proof -
  have "(c AND 1 \<noteq> 0) = bit c 0"
    by (simp add: and_one_eq bit_0 mod_2_eq_odd)
  then show ?thesis
    by (simp add: crc32_tab_step_def crc32_reference_shift_def xor.commute)
qed

lemma crc32_reference_shift_xor:
  "crc32_reference_shift (a XOR b) = crc32_reference_shift a XOR crc32_reference_shift b"
  by (simp add: crc32_reference_shift_def bit_xor_iff ac_simps)

lemma crc32_reference_shifts_xor:
  "(crc32_reference_shift ^^ n) (a XOR b)
     = (crc32_reference_shift ^^ n) a XOR (crc32_reference_shift ^^ n) b"
  by (induction n) (simp_all add: crc32_reference_shift_xor)

lemma crc32_reference_shifts_high:
  "take_bit n y = 0 \<Longrightarrow> (crc32_reference_shift ^^ n) y = drop_bit n y"
proof (induction n)
  case 0
  then show ?case by simp
next
  case (Suc n)
  have "take_bit n y = take_bit n (take_bit (Suc n) y)"
    by simp
  then have t: "take_bit n y = 0"
    using Suc.prems by (simp only: take_bit_of_0)
  have "bit (take_bit (Suc n) y) n = bit y n"
    by (simp add: bit_take_bit_iff)
  then have b: "\<not> bit y n"
    using Suc.prems by simp
  have "(crc32_reference_shift ^^ Suc n) y = crc32_reference_shift (drop_bit n y)"
    using Suc.IH [OF t] by simp
  also have "\<dots> = drop_bit 1 (drop_bit n y)"
    using b by (simp add: crc32_reference_shift_def bit_drop_bit_eq)
  finally show ?case
    by simp
qed

lemma crc32_tab_lookup:
  fixes x :: u32
  shows "CRC32_TAB ! unat (x AND 0xFF) XOR drop_bit 8 x = (crc32_reference_shift ^^ 8) x"
proof -
  let ?lo = "take_bit 8 x"
  let ?hi = "push_bit 8 (drop_bit 8 x)"
  have m: "x AND 0xFF = ?lo"
    by (simp add: take_bit_eq_mask mask_eq_exp_minus_1)
  have lt: "unat ?lo < 256"
    using unsigned_take_bit_eq [of 8 x, where 'a = nat] take_bit_nat_less_exp [of 8 "unat x"]
    by simp
  have ts: "crc32_tab_step = crc32_reference_shift"
    by (rule ext) (rule crc32_tab_step_reference)
  have "CRC32_TAB ! unat ?lo = crc32_tab_entry (unat ?lo)"
    using lt by (simp add: CRC32_TAB_def)
  then have tab: "CRC32_TAB ! unat ?lo = (crc32_reference_shift ^^ 8) ?lo"
    by (simp add: crc32_tab_entry_def ts)
  have split: "x = ?lo XOR ?hi"
    by (rule bit_word_eqI) (auto simp add: bit_simps)
  have "take_bit 8 ?hi = 0"
    by (simp add: take_bit_push_bit)
  then have hi: "(crc32_reference_shift ^^ 8) ?hi = drop_bit 8 ?hi"
    by (rule crc32_reference_shifts_high)
  have dh: "drop_bit 8 ?hi = drop_bit 8 x"
    by (rule bit_word_eqI) (auto simp add: bit_simps dest: bit_imp_le_length)
  have "(crc32_reference_shift ^^ 8) x = (crc32_reference_shift ^^ 8) (?lo XOR ?hi)"
    using split by simp
  also have "\<dots> = CRC32_TAB ! unat ?lo XOR drop_bit 8 x"
    by (simp only: crc32_reference_shifts_xor tab hi dh)
  finally show ?thesis
    by (simp only: m)
qed

lemma crc32_loop_step_reference:
  "CRC32_TAB ! unat ((c XOR ucast b) AND 0xFF) XOR drop_bit 8 c = crc32_reference_byte c b"
proof -
  have "drop_bit 8 (ucast b :: u32) = 0"
    by (rule bit_word_eqI) (auto simp add: bit_simps dest: bit_imp_le_length)
  then have "drop_bit 8 (c XOR ucast b) = drop_bit 8 c"
    by simp
  then show ?thesis
    using crc32_tab_lookup [of "c XOR ucast b"] by (simp add: crc32_reference_byte_def)
qed

lemma crc32_loop_reference: "crc32_loop bs c = foldl crc32_reference_byte c bs"
  by (induction bs arbitrary: c) (simp_all only: crc32_loop.simps crc32_loop_step_reference foldl.simps)

lemma crc32_reference_eq:
  "n \<le> length p \<Longrightarrow> crc32 p n = Inr (crc32_reference (take n p))"
proof -
  have "(0xFFFFFFFF :: u32) = - 1"
    by simp
  then have "NOT x = x XOR 0xFFFFFFFF" for x :: u32
    by (simp only: bit.xor_one_right)
  then show "n \<le> length p \<Longrightarrow> crc32 p n = Inr (crc32_reference (take n p))"
    by (simp add: crc32_def crc32_reference_def crc32_loop_reference)
qed

lemma funpow_8: "(f ^^ 8) x = f (f (f (f (f (f (f (f x)))))))"
  by (simp add: eval_nat_numeral)

lemma xor_bytes_reference: "xor_bytes bs = xor_reference bs"
proof -
  have "fold (\<lambda>b x. x XOR b) bs x = x XOR foldr (XOR) bs 0" for x :: u8
    by (induction bs arbitrary: x) (simp_all add: ac_simps)
  then show ?thesis
    by (simp add: xor_bytes_def xor_reference_def)
qed

lemma bit_xor_reference:
  "bit (xor_reference bs) k \<longleftrightarrow> odd (length (filter (\<lambda>b. bit b k) bs))"
  by (induction bs) (auto simp add: xor_reference_def bit_xor_iff)

text \<open>
  Claim C7. The checksum byte that \<^verbatim>\<open>dirent_checksum_finalize\<close> stores is the XOR of
  the first 63 bytes of the entry: bit \<open>k\<close> of it is set exactly when an odd number of
  these bytes have bit \<open>k\<close> set. \<^verbatim>\<open>inode_crc_finalize\<close> always returns, and the value it
  stores is the CRC-32 of the first 120 bytes of the inode, zero-extended to 64 bits. Both
  are measured against the reference, not against the loops of the code; the reference
  CRC-32 has the check value \<open>0xCBF43926\<close> on the digits \<open>123456789\<close>, and so has
  \<^verbatim>\<open>crc32\<close>. The entry \<open>.\<close> of a new root directory (inode 1, type 2) gets the
  checksum \<open>0x01 XOR 0x02 XOR 0x2E = 0x2D\<close>.
\<close>

theorem finalized_checksums_match:
  "dirent64.checksum (dirent_checksum_finalize de)
     = xor_reference (take 63 (dirent_bytes (dirent_checksum_finalize de)))
   \<and> (\<forall>k. bit (dirent64.checksum (dirent_checksum_finalize de)) k
        = odd (length (filter (\<lambda>b. bit b k)
            (take 63 (dirent_bytes (dirent_checksum_finalize de))))))
   \<and> (\<exists>ino'. inode_crc_finalize ino = Inr ino'
        \<and> inode_crc ino' = ucast (crc32_reference (take 120 (inode_bytes ino')))
        \<and> unat (inode_crc ino') = unat (crc32_reference (take 120 (inode_bytes ino'))))
   \<and> crc32_reference [0x31, 0x32, 0x33, 0x34, 0x35, 0x36, 0x37, 0x38, 0x39] = 0xCBF43926
   \<and> crc32 [0x31, 0x32, 0x33, 0x34, 0x35, 0x36, 0x37, 0x38, 0x39] 9 = Inr 0xCBF43926
   \<and> dirent64.checksum (seeded_dirent [0x2E]) = 0x2D"
proof -
  let ?de = "dirent_checksum_finalize de"
  have t: "take 63 (dirent_bytes ?de) = take 63 (dirent_bytes de)"
    by (simp add: dirent_bytes_def dirent_checksum_finalize_def dirent_head_def)
  have d: "dirent64.checksum ?de = xor_reference (take 63 (dirent_bytes ?de))"
    unfolding t by (simp add: dirent_checksum_finalize_def xor_bytes_reference)
  have b: "\<forall>k. bit (dirent64.checksum ?de) k
      = odd (length (filter (\<lambda>b. bit b k) (take 63 (dirent_bytes ?de))))"
  proof
    fix k
    show "bit (dirent64.checksum ?de) k
      = odd (length (filter (\<lambda>b. bit b k) (take 63 (dirent_bytes ?de))))"
      by (subst d) (rule bit_xor_reference)
  qed
  let ?c = "crc32_reference (take 120 (inode_bytes ino))"
  let ?i = "ino\<lparr>inode_crc := ucast ?c\<rparr>"
  have h: "take 120 (inode_bytes ?i) = take 120 (inode_bytes ino)"
    by (simp add: inode_bytes_def inode_head_def)
  have r: "crc32_loop bs 0xFFFFFFFF XOR 0xFFFFFFFF = crc32_reference bs" for bs
    using crc32_reference_eq [of "length bs" bs] by (simp add: crc32_def)
  have hd: "take 120 (inode_bytes ino) = inode_head ino"
    by (simp add: inode_bytes_def)
  have f: "inode_crc_finalize ino = Inr ?i"
    unfolding inode_crc_finalize_eq r hd ..
  have u: "unat (ucast ?c :: u64) = unat ?c"
    by (rule unat_ucast_u32_u64)
  have i: "\<exists>ino'. inode_crc_finalize ino = Inr ino'
        \<and> inode_crc ino' = ucast (crc32_reference (take 120 (inode_bytes ino')))
        \<and> unat (inode_crc ino') = unat (crc32_reference (take 120 (inode_bytes ino')))"
    using f u by (intro exI [of _ ?i]) (simp only: h, simp)
  have c: "crc32_reference [0x31, 0x32, 0x33, 0x34, 0x35, 0x36, 0x37, 0x38, 0x39] = 0xCBF43926"
    by (simp add: crc32_reference_def crc32_reference_byte_def crc32_reference_shift_def
        funpow_8)
  have c': "crc32 [0x31, 0x32, 0x33, 0x34, 0x35, 0x36, 0x37, 0x38, 0x39] 9 = Inr 0xCBF43926"
  proof -
    have "crc32 [0x31, 0x32, 0x33, 0x34, 0x35, 0x36, 0x37, 0x38, 0x39] 9
        = Inr (crc32_reference (take 9 [0x31, 0x32, 0x33, 0x34, 0x35, 0x36, 0x37, 0x38, 0x39]))"
      by (rule crc32_reference_eq) simp
    also have "take 9 [0x31, 0x32, 0x33, 0x34, 0x35, 0x36, 0x37, 0x38, 0x39 :: u8]
        = [0x31, 0x32, 0x33, 0x34, 0x35, 0x36, 0x37, 0x38, 0x39]"
      by simp
    finally show ?thesis
      by (simp only: c)
  qed
  have l: "le_bytes 4 (1 :: u32) = [1, 0, 0, 0]"
    by (simp add: eval_nat_numeral)
  have z: "((\<lambda>x. x) ^^ n) y = y" for n and y :: u8
    by (induction n) simp_all
  have s: "dirent64.checksum (seeded_dirent [0x2E]) = 0x2D"
    by (simp add: l z seeded_dirent_def dirent_checksum_finalize_def xor_bytes_def dirent_bytes_def
        dirent_head_def dirent_of_def field_replicate strncpy_def strlen_def c_string_def
        name_bytes_def le32_def)
  show ?thesis
    using d b i c c' s by (intro conjI)
qed

section \<open>No access outside the buffers\<close>

lemma and_then_never:
  assumes "r \<noteq> Inl e" and "\<And>x. r = Inr x \<Longrightarrow> f x \<noteq> Inl e"
  shows "and_then r f \<noteq> Inl e"
  using assms by (cases r) auto

lemma scan_bitmap_total:
  assumes "n \<le> 8 * length bitmap"
  shows "\<exists>r. scan_bitmap bitmap n i = Inr r"
proof (induction "n - i" arbitrary: i)
  case 0
  then show ?case
    by (subst scan_bitmap.simps) simp
next
  case (Suc k)
  then have lt: "i < n" by simp
  then have r: "i div 8 < length bitmap"
    using assms by (simp add: div_less_iff_less_mult)
  have "\<exists>r. scan_bitmap bitmap n (Suc i) = Inr r"
    using Suc.hyps(2) by (intro Suc.hyps(1)) simp
  then show ?case
    using lt r by (subst scan_bitmap.simps) auto
qed

lemma find_free_total:
  assumes "length bitmap = 4096" "unat cnt \<le> 32768"
  shows "\<exists>r. find_free_inode bitmap cnt = Inr r" "\<exists>r. find_free_data_block bitmap cnt = Inr r"
proof -
  from scan_bitmap_total [of "unat cnt" bitmap 0] assms obtain r where
    "scan_bitmap bitmap (unat cnt) 0 = Inr r"
    by auto
  then show "\<exists>r. find_free_inode bitmap cnt = Inr r" "\<exists>r. find_free_data_block bitmap cnt = Inr r"
    by (simp_all add: find_free_inode_def find_free_data_block_def split: option.splits)
qed

lemma alloc_data_blocks_in_bounds:
  assumes "length bitmap = 4096" "unat (data_region_blocks s) \<le> 32768"
  shows "alloc_data_blocks s n i blocks bitmap \<noteq> Inl OutOfBounds"
  using assms(1)
proof (induction "n - i" arbitrary: i blocks bitmap)
  case 0
  then show ?case
    by (subst alloc_data_blocks.simps) simp
next
  case (Suc k)
  then have lt: "i < n" by simp
  from find_free_total(2) [OF Suc.prems assms(2)] obtain fb where
    ff: "find_free_data_block bitmap (data_region_blocks s) = Inr fb"
    by blast
  show ?case
  proof (cases "fb = - 1")
    case True
    then show ?thesis
      using lt ff by (subst alloc_data_blocks.simps) simp
  next
    case False
    from find_free_data_block_result [OF Suc.prems ff False] obtain f where
      f: "fb = int f" "f < 32768"
      by blast
    have "nat fb div 8 < length bitmap"
      using f Suc.prems by (simp add: div_less_iff_less_mult)
    with set_bit_at_Inr [of fb bitmap] f obtain bitmap' where
      sb: "set_bit_at bitmap fb = Inr bitmap'"
      by auto
    have l: "length bitmap' = 4096"
      using set_bit_at_result(3) [OF sb] Suc.prems by simp
    have "alloc_data_blocks s n (Suc i)
        (blocks[i := ucast (data_region_start s + of_int fb)]) bitmap' \<noteq> Inl OutOfBounds"
      using Suc.hyps(2) l by (intro Suc.hyps(1)) simp_all
    then show ?thesis
      using lt ff False sb by (subst alloc_data_blocks.simps) simp
  qed
qed

lemma scan_root_entries_total:
  assumes "root_off + entry_count * 64 \<le> length region"
  shows "\<exists>r. scan_root_entries region root_off entry_count i = Inr r"
proof (induction "entry_count - i" arbitrary: i)
  case 0
  then show ?case
    by (subst scan_root_entries_step) simp
next
  case (Suc k)
  then have lt: "i < entry_count" by simp
  then have "Suc i * 64 \<le> entry_count * 64"
    by (intro mult_le_mono1) simp
  then have r: "root_off + i * 64 + 4 \<le> length region"
    using assms by simp
  have "\<exists>r. scan_root_entries region root_off entry_count (Suc i) = Inr r"
    using Suc.hyps(2) by (intro Suc.hyps(1)) simp
  then show ?case
    using lt r by (subst scan_root_entries_step) auto
qed

lemma find_root_slot_in_bounds:
  assumes "128 \<le> length (inode_table m)"
    and "root_entries_offset (sb m) (root_of (inode_table m))
        + entry_count_of (root_of (inode_table m)) * 64 \<le> length (data_region m)"
  shows "find_root_slot m \<noteq> Inl OutOfBounds"
proof -
  from scan_root_entries_total [OF assms(2), of 0] obtain r where
    "scan_root_entries (data_region m) (root_entries_offset (sb m) (root_of (inode_table m)))
        (entry_count_of (root_of (inode_table m))) 0 = Inr r"
    by blast
  then show ?thesis
    unfolding find_root_slot_unfold [OF assms(1)] by (simp add: Let_def)
qed

lemma insert_file_in_bounds:
  assumes vs: "valid_superblock (sb m)"
    and lb: "length (inode_bitmap m) = 4096" "length (data_bitmap m) = 4096"
    and lt: "length (inode_table m) = unat (inode_table_blocks (sb m)) * 4096"
    and lr: "length (data_region m) = unat (data_region_blocks (sb m)) * 4096"
    and b0: "bit_at (inode_bitmap m) 0"
    and rb: "unat (data_region_start (sb m)) \<le> unat (direct (root_of (inode_table m)) ! 0)"
      "unat (direct (root_of (inode_table m)) ! 0) < unat (total_blocks (sb m))"
    and rsz: "unat (size_bytes (root_of (inode_table m))) \<le> 4096"
    and ic: "unat (inode_count (sb m)) * 128 \<le> length (inode_table m)"
  shows "insert_file m file file_name now \<noteq> Inl OutOfBounds"
proof -
  let ?table = "inode_table m"
  let ?region = "data_region m"
  let ?root = "root_of ?table"
  let ?rbk = "unat (direct ?root ! 0) - unat (data_region_start (sb m))"
  note vb = valid_superblock_bounds [OF vs]
  have icb: "unat (inode_count (sb m)) \<le> 32768"
    using ic lt vb(3) by simp
  have drb: "unat (data_region_blocks (sb m)) \<le> 32768"
    using vb(2) by simp
  from find_free_total(1) [OF lb(1) icb] obtain fi where
    ffi: "find_free_inode (inode_bitmap m) (inode_count (sb m)) = Inr fi"
    by blast
  show ?thesis
  proof (cases "fi = - 1")
    case True
    then show ?thesis
      by (simp add: insert_file_def ffi)
  next
    case ne: False
    from find_free_inode_result [OF lb(1) ffi ne] obtain f where
      fi: "fi = int f + 1" and fc: "f < unat (inode_count (sb m))" and f32: "f < 32768"
      and fb: "\<not> bit_at (inode_bitmap m) f"
      by blast
    have f0: "f \<noteq> 0"
    proof
      assume "f = 0"
      with fb b0 show False
        by simp
    qed
    show ?thesis
    proof (cases "file")
      case None
      then show ?thesis
        using ne by (simp add: insert_file_def ffi)
    next
      case (Some bytes)
      let ?fs = "of_nat (length bytes) :: u64"
      let ?nb = "unat ((?fs + 4096 - 1) div 4096)"
      show ?thesis
      proof (cases "(?fs + 4096 - 1) div 4096 > 12")
        case True
        then show ?thesis
          using ne by (simp add: insert_file_def Let_def ffi Some)
      next
        case n12: False
        note nio = alloc_data_blocks_in_bounds [OF lb(2) drb, of ?nb 0 "replicate 12 0"]
        show ?thesis
        proof (cases "alloc_data_blocks (sb m) ?nb 0 (replicate 12 0) (data_bitmap m)")
          case (Inl e)
          then have "insert_file m file file_name now = Inl e"
            using ne n12 by (simp add: insert_file_def Let_def ffi Some)
          then show ?thesis
            using nio Inl by simp
        next
          case (Inr p)
          obtain data_blocks dbitmap where p: "p = (data_blocks, dbitmap)"
            by (cases p) auto
          note al = Inr [unfolded p]
          show ?thesis
          proof (cases "fread1 \<lparr>contents = bytes, pos = 0\<rparr> (unat ?fs)")
            case None
            then show ?thesis
              using ne n12 al by (simp add: insert_file_def Let_def ffi Some)
          next
            case (Some q)
            obtain file_content and file_fp :: stream where q: "q = (file_content, file_fp)"
              by (cases q) auto
            note fr = Some [unfolded q]
            have lfc: "length file_content = unat ?fs"
              using fr by (auto simp add: fread1_def split: if_splits)
            from alloc_data_blocks_result [OF al lb(2)]
            have blk0: "\<And>j. j < ?nb \<Longrightarrow> j < 12 \<Longrightarrow>
                \<exists>fj. data_blocks ! j = ucast (data_region_start (sb m) + of_nat fj)
                   \<and> fj < unat (data_region_blocks (sb m)) \<and> fj < 32768
                   \<and> \<not> bit_at (data_bitmap m) fj \<and> bit_at dbitmap fj"
              by simp
            have blk: "\<exists>fj. data_blocks ! j = ucast (data_region_start (sb m) + of_nat fj)
                   \<and> fj < unat (data_region_blocks (sb m)) \<and> fj < 32768"
              if "j < ?nb" "j < 12" for j
              using blk0 [OF that] by blast
            have nb12: "?nb \<le> 12"
              using n12 by (simp add: word_less_nat_alt)
            have "\<exists>region'. write_file_blocks (sb m) ?fs file_content data_blocks ?nb 0 ?region
                = Inr region'"
            proof (rule write_file_blocks_runs)
              fix j assume j: "0 \<le> j" "j < ?nb"
              from needed_blocks_cases [OF n12] j(2) have S: "unat ?fs \<le> 49152"
                by auto
              have fs: "of_nat (unat ?fs) = ?fs"
                by simp
              note nbs = needed_blocks_small(1) [OF S, unfolded fs]
              have jn: "j < (unat ?fs + 4095) div 4096"
                using j(2) by (simp only: nbs)
              have c1: "j * 4096 + copy_size ?fs ?nb j \<le> unat ?fs"
                using copy_size_bounds(1) [OF S jn] by (simp only: fs nbs)
              have c2: "copy_size ?fs ?nb j \<le> 4096"
                using n12 j(2) by (rule copy_size_le_block)
              have "j < 12"
                using j(2) nb12 by simp
              from blk [OF j(2) this] obtain fj where
                dj: "data_blocks ! j = ucast (data_region_start (sb m) + of_nat fj)"
                and fj: "fj < unat (data_region_blocks (sb m))" "fj < 32768"
                by blast
              have bo: "block_offset (sb m) data_blocks j = fj * 4096"
                using dj by (rule block_offset_of) (use fj(2) vb(1) in simp)
              have "fj * 4096 + 4096 \<le> length ?region"
                unfolding lr using fj(1) by simp
              then show "j * 4096 + copy_size ?fs ?nb j \<le> length file_content
                  \<and> block_offset (sb m) data_blocks j + copy_size ?fs ?nb j \<le> length ?region"
                using c1 c2 by (simp add: bo lfc)
            qed
            then obtain dregion1 where
              wf: "write_file_blocks (sb m) ?fs file_content data_blocks ?nb 0 ?region = Inr dregion1"
              by blast
            have l1: "length dregion1 = length ?region"
              using write_file_blocks_result [OF wf] by simp
            have off: "new_inode_offset fi = f * 128"
              unfolding fi using f32 by (rule new_inode_offset_next)
            have fin: "f * 128 + 128 \<le> length ?table"
            proof -
              have "Suc f * 128 \<le> unat (inode_count (sb m)) * 128"
                using fc by (intro mult_le_mono1) simp
              then show ?thesis
                using ic by simp
            qed
            let ?itable1 = "patched ?table (f * 128)
              (inode_bytes (new_inode (field ?table (f * 128) 128) ?fs now ?nb data_blocks))"
            have ci: "create_inode ?table fi ?fs now ?nb data_blocks = Inr ?itable1"
              using fin by (simp add: create_inode_unfold off)
            have "nat (fi - 1) div 8 < length (inode_bitmap m)"
              using f32 lb(1) by (simp add: fi div_less_iff_less_mult)
            with set_bit_at_Inr [of "fi - 1" "inode_bitmap m"] obtain ibitmap where
              sbit: "set_bit_at (inode_bitmap m) (fi - 1) = Inr ibitmap"
              by (auto simp add: fi)
            let ?m1 = "m\<lparr> inode_bitmap := ibitmap, data_bitmap := dbitmap,
                inode_table := ?itable1, data_region := dregion1 \<rparr>"
            have run: "insert_file m (Some bytes) file_name now =
              and_then (find_root_slot ?m1) (\<lambda>(free_entry, root_off, itable2).
                and_then (write_dirent dregion1 root_off free_entry fi file_name) (\<lambda>dregion2.
                and_then (bump_root_links itable2) (\<lambda>itable3.
                  Inr (m\<lparr> inode_bitmap := ibitmap, data_bitmap := dbitmap,
                          inode_table := itable3, data_region := dregion2 \<rparr>))))"
              using ffi ne n12 al fr wf ci sbit
              by (intro insert_file_run [where file_fp = file_fp]) simp_all
            have lt1: "length ?itable1 = length ?table"
              using fin by (intro length_patched) simp
            have t128: "128 \<le> length ?itable1"
              using fin lt1 by simp
            have r1: "root_of ?itable1 = ?root"
              using fin f0 by (intro root_of_patched_other) simp_all
            have rbk: "?rbk < 2 ^ 20"
            proof -
              have "unat (total_blocks (sb m)) \<le> 1024"
                using vs by (simp add: valid_superblock_def)
              then show ?thesis
                using rb(2) by simp
            qed
            have ro: "root_entries_offset (sb m) ?root = ?rbk * 4096"
              using rb(1) rbk by (rule root_entries_offset_valid)
            have "unat (size_bytes ?root div 64) = unat (size_bytes ?root) div 64"
              by (simp add: unat_div)
            then have ec: "entry_count_of ?root \<le> 64"
              using rsz by (simp add: entry_count_of_def)
            have rin: "?rbk < unat (data_region_blocks (sb m))"
              using rb vs by (simp add: valid_superblock_def)
            then have blkin: "?rbk * 4096 + 4096 \<le> length ?region"
              unfolding lr by simp
            have "entry_count_of ?root * 64 \<le> 4096"
              using ec by simp
            then have fit: "?rbk * 4096 + entry_count_of ?root * 64 \<le> length dregion1"
              using blkin l1 by simp
            have sel1: "inode_table ?m1 = ?itable1" "data_region ?m1 = dregion1" "sb ?m1 = sb m"
              by simp_all
            have nob: "find_root_slot ?m1 \<noteq> Inl OutOfBounds"
            proof (rule find_root_slot_in_bounds)
              show "128 \<le> length (inode_table ?m1)"
                unfolding sel1 by (rule t128)
              show "root_entries_offset (sb ?m1) (root_of (inode_table ?m1))
                  + entry_count_of (root_of (inode_table ?m1)) * 64 \<le> length (data_region ?m1)"
                unfolding sel1 r1 ro by (rule fit)
            qed
            show ?thesis
            proof (cases "find_root_slot ?m1")
              case (Inl e)
              have "insert_file m (Some bytes) file_name now = Inl e"
                unfolding run Inl by simp
              then show ?thesis
                using nob Inl by (simp add: \<open>file = Some bytes\<close>)
            next
              case (Inr t)
              obtain free_entry root_off itable2 where t: "t = (free_entry, root_off, itable2)"
                by (cases t) auto
              note frs = Inr [unfolded t]
              note frr = find_root_slot_result [OF frs]
              have ec1: "entry_count_of (root_of (inode_table ?m1)) \<le> 64"
                unfolding sel1 r1 by (rule ec)
              note fe = find_root_slot_entry [OF frs ec1]
              have ro': "root_off = ?rbk * 4096"
                using frr(2) unfolding sel1 r1 ro .
              have "nat free_entry * 64 + 64 \<le> 4096"
                using fe by simp
              then have "root_off + nat free_entry * 64 + 64 \<le> length dregion1"
                using blkin l1 by (simp add: ro')
              then have wd: "\<exists>dregion2. write_dirent dregion1 root_off free_entry fi file_name
                  = Inr dregion2"
                using fe(1) by (simp add: write_dirent_unfold)
              have "128 \<le> length itable2"
                using frr(3) [unfolded sel1] t128 by (simp only:)
              then have br: "\<exists>itable3. bump_root_links itable2 = Inr itable3"
                by (simp add: bump_root_links_unfold)
              from wd br obtain dregion2 itable3 where
                wd': "write_dirent dregion1 root_off free_entry fi file_name = Inr dregion2"
                and br': "bump_root_links itable2 = Inr itable3"
                by blast
              have "insert_file m (Some bytes) file_name now
                  = Inr (m\<lparr> inode_bitmap := ibitmap, data_bitmap := dbitmap,
                          inode_table := itable3, data_region := dregion2 \<rparr>)"
                unfolding run frs by (simp add: wd' br')
              then show ?thesis
                by (simp add: \<open>file = Some bytes\<close>)
            qed
          qed
        qed
      qed
    qed
  qed
qed

section \<open>The frame of an insert\<close>

lemma valid_image_loaded:
  assumes "valid_image img"
  shows "valid_superblock (sb (loaded img))"
    and "length (inode_bitmap (loaded img)) = 4096" "length (data_bitmap (loaded img)) = 4096"
    and "length (inode_table (loaded img)) = unat (inode_table_blocks (sb (loaded img))) * 4096"
    and "length (data_region (loaded img)) = unat (data_region_blocks (sb (loaded img))) * 4096"
    and "bit_at (inode_bitmap (loaded img)) 0"
    and "unat (data_region_start (sb (loaded img)))
      \<le> unat (direct (root_of (inode_table (loaded img))) ! 0)"
    and "unat (direct (root_of (inode_table (loaded img))) ! 0)
      < unat (total_blocks (sb (loaded img)))"
    and "unat (size_bytes (root_of (inode_table (loaded img)))) \<le> 4096"
    and "unat (inode_count (sb (loaded img))) * 128 \<le> length (inode_table (loaded img))"
    and "image_inode img 0 = root_of (inode_table (loaded img))"
    and "load_image img = Inr (loaded img)"
proof -
  note vp = valid_image_parts [OF assms]
  let ?m = "loaded img"
  have sm: "sb ?m = image_superblock img"
    by simp
  note ll = loaded_lengths [OF vp]
  note ri = image_regions [OF vp]
  note vb = valid_superblock_bounds [OF vp(1)]
  have t0: "0 * 128 + 128 \<le> length (inode_table ?m)"
    unfolding ll(3) using vb(5) by simp
  show root: "image_inode img 0 = root_of (inode_table ?m)"
    unfolding image_inode_def ri(3) [OF t0] by (simp add: root_of_def)
  from assms show "bit_at (inode_bitmap ?m) 0"
    and "unat (data_region_start (sb ?m)) \<le> unat (direct (root_of (inode_table ?m)) ! 0)"
    and "unat (direct (root_of (inode_table ?m)) ! 0) < unat (total_blocks (sb ?m))"
    and "unat (size_bytes (root_of (inode_table ?m))) \<le> 4096"
    unfolding valid_image_def root ri(1) sm by simp_all
  show "valid_superblock (sb ?m)"
    unfolding sm by (rule vp(1))
  show "length (inode_bitmap ?m) = 4096" "length (data_bitmap ?m) = 4096"
    by (rule ll(1), rule ll(2))
  show "length (inode_table ?m) = unat (inode_table_blocks (sb ?m)) * 4096"
    and "length (data_region ?m) = unat (data_region_blocks (sb ?m)) * 4096"
    unfolding sm by (rule ll(3), rule ll(4))
  from assms have "unat (inode_count (image_superblock img)) * 128
      \<le> unat (inode_table_blocks (image_superblock img)) * 4096"
    unfolding valid_image_def by simp
  then show "unat (inode_count (sb ?m)) * 128 \<le> length (inode_table ?m)"
    unfolding sm ll(3) .
  show "load_image img = Inr ?m"
    using vp by (rule load_image_valid)
qed

lemma mkfs_adder_in_bounds:
  assumes "valid_image img"
  shows "mkfs_adder (Some img) file file_name now can_create \<noteq> Inl OutOfBounds"
proof -
  note v = valid_image_loaded [OF assms]
  have "insert_file (loaded img) file file_name now \<noteq> Inl OutOfBounds"
    using v(1-10) by (rule insert_file_in_bounds)
  then show ?thesis
    by (cases "insert_file (loaded img) file file_name now") (simp_all add: mkfs_adder_def v(12))
qed

text \<open>
  Claim C10. On a valid image no step of the adder reads or writes outside the buffers
  that \<^verbatim>\<open>main\<close> allocates (the error that stands for such an access is never the
  result), so the run of the model is the run of the program. After a successful run, every
  block of the data region is as it was, except the block of the root directory and the
  blocks that the run allocated (those whose bit of the data bitmap the run set); and every
  slot of the inode table is as it was, except slot 0 of the root inode and the slot that
  the run allocated (the one whose bit of the inode bitmap the run set).
\<close>

theorem insert_leaves_the_rest:
  assumes "valid_image img"
  shows "mkfs_adder (Some img) file file_name now can_create \<noteq> Inl OutOfBounds
    \<and> (\<forall>out. mkfs_adder (Some img) file file_name now can_create = Inr out \<longrightarrow>
      (\<forall>k. k < unat (data_region_blocks (image_superblock img))
          \<and> k \<noteq> image_root_block img
          \<and> \<not> (bit_at (image_data_bitmap out) k \<and> \<not> bit_at (image_data_bitmap img) k)
        \<longrightarrow> image_data_block out k = image_data_block img k)
      \<and> (\<forall>j. j * 128 + 128 \<le> unat (inode_table_blocks (image_superblock img)) * 4096
          \<and> j \<noteq> 0
          \<and> \<not> (bit_at (image_inode_bitmap out) j \<and> \<not> bit_at (image_inode_bitmap img) j)
        \<longrightarrow> image_inode_slot out j = image_inode_slot img j))"
proof -
  have oob: "mkfs_adder (Some img) file file_name now can_create \<noteq> Inl OutOfBounds"
    using assms by (rule mkfs_adder_in_bounds)
  have frame: "(\<forall>k. k < unat (data_region_blocks (image_superblock img))
          \<and> k \<noteq> image_root_block img
          \<and> \<not> (bit_at (image_data_bitmap out) k \<and> \<not> bit_at (image_data_bitmap img) k)
        \<longrightarrow> image_data_block out k = image_data_block img k)
      \<and> (\<forall>j. j * 128 + 128 \<le> unat (inode_table_blocks (image_superblock img)) * 4096
          \<and> j \<noteq> 0
          \<and> \<not> (bit_at (image_inode_bitmap out) j \<and> \<not> bit_at (image_inode_bitmap img) j)
        \<longrightarrow> image_inode_slot out j = image_inode_slot img j)"
    if run: "mkfs_adder (Some img) file file_name now can_create = Inr out" for out
  proof -
    note vp = valid_image_parts [OF assms]
    from mkfs_adder_success [OF assms run] obtain m' where
      ins: "insert_file (loaded img) file file_name now = Inr m'"
      and lo: "loaded out = m'"
      and so: "image_superblock out = image_superblock img"
      and lno: "length out = length img"
      and lt': "length (inode_table m') = length (inode_table (loaded img))"
      and lr': "length (data_region m') = length (data_region (loaded img))"
      by blast
    let ?m = "loaded img"
    let ?s = "image_superblock img"
    have sm: "sb ?m = ?s"
      by simp
    note ll = loaded_lengths [OF vp]
    have vpo: "valid_superblock (image_superblock out)"
      "length out = unat (total_blocks (image_superblock out)) * 4096"
      using vp by (simp_all add: so lno)
    note ri = image_regions [OF vp]
    note ro = image_regions [OF vpo, unfolded lo]
    note vb = valid_superblock_bounds [OF vp(1)]
    have t0: "0 * 128 + 128 \<le> length (inode_table ?m)"
      unfolding ll(3) using vb(5) by simp
    have root: "image_inode img 0 = root_of (inode_table ?m)"
      unfolding image_inode_def ri(3) [OF t0] by (simp add: root_of_def)
    from assms have b0: "bit_at (inode_bitmap ?m) 0"
      and rb: "unat (data_region_start (sb ?m)) \<le> unat (direct (root_of (inode_table ?m)) ! 0)"
        "unat (direct (root_of (inode_table ?m)) ! 0) < unat (total_blocks (sb ?m))"
      and rsz: "unat (size_bytes (root_of (inode_table ?m))) \<le> 4096"
      unfolding valid_image_def root ri(1) sm by simp_all
    have vs: "valid_superblock (sb ?m)"
      unfolding sm by (rule vp(1))
    have lt: "length (inode_table ?m) = unat (inode_table_blocks (sb ?m)) * 4096"
      and lr: "length (data_region ?m) = unat (data_region_blocks (sb ?m)) * 4096"
      unfolding sm by (rule ll(3), rule ll(4))
    note fr = insert_file_frame [OF ins vs ll(1,2) lt lr b0 rb rsz]
    have rbk: "image_root_block img
        = unat (direct (root_of (inode_table ?m)) ! 0) - unat (data_region_start (sb ?m))"
      unfolding image_root_block_def root sm ..
    have blocks: "image_data_block out k = image_data_block img k"
      if k: "k < unat (data_region_blocks ?s) \<and> k \<noteq> image_root_block img
          \<and> \<not> (bit_at (image_data_bitmap out) k \<and> \<not> bit_at (image_data_bitmap img) k)" for k
    proof -
      have k1: "k < unat (data_region_blocks (sb ?m))"
        using k unfolding sm by simp
      have k2: "k \<noteq> unat (direct (root_of (inode_table ?m)) ! 0) - unat (data_region_start (sb ?m))"
        using k unfolding rbk by simp
      have k3: "bit_at (data_bitmap ?m) k \<or> \<not> bit_at (data_bitmap m') k"
        using k unfolding ri(2) ro(2) by blast
      have kr: "k * 4096 + 4096 \<le> length (data_region ?m)"
        unfolding lr using k1 by simp
      have kr': "k * 4096 + 4096 \<le> length (data_region m')"
        unfolding lr' by (rule kr)
      show ?thesis
        unfolding ri(4) [OF kr] ro(4) [OF kr'] using k1 k2 k3 by (rule fr(1))
    qed
    have slots: "image_inode_slot out j = image_inode_slot img j"
      if j: "j * 128 + 128 \<le> unat (inode_table_blocks ?s) * 4096 \<and> j \<noteq> 0
          \<and> \<not> (bit_at (image_inode_bitmap out) j \<and> \<not> bit_at (image_inode_bitmap img) j)" for j
    proof -
      have j1: "j * 128 + 128 \<le> length (inode_table ?m)"
        unfolding ll(3) using j by simp
      have j1': "j * 128 + 128 \<le> length (inode_table m')"
        unfolding lt' by (rule j1)
      have j2: "j \<noteq> 0"
        using j by simp
      have j3: "bit_at (inode_bitmap ?m) j \<or> \<not> bit_at (inode_bitmap m') j"
        using j unfolding ri(1) ro(1) by blast
      show ?thesis
        unfolding ri(3) [OF j1] ro(3) [OF j1'] using j1 j2 j3 by (rule fr(2))
    qed
    show ?thesis
      using blocks slots by blast
  qed
  show ?thesis
    using oob frame by blast
qed

theorem insert_leaves_the_rest_witness:
  "\<exists>out. valid_image (fresh_image 180 128 0 (replicate 3976 0))
    \<and> mkfs_adder (Some (fresh_image 180 128 0 (replicate 3976 0))) (Some [0x78]) [0x61] 7 True
      = Inr out
    \<and> image_data_block out 5 = image_data_block (fresh_image 180 128 0 (replicate 3976 0)) 5
    \<and> image_inode_slot out 3 = image_inode_slot (fresh_image 180 128 0 (replicate 3976 0)) 3"
proof -
  let ?img = "fresh_image 180 128 0 (replicate 3976 0)"
  have v: "valid_image ?img"
    by (rule fresh_image_accepts(1) [where bytes = "[0x78]"]) simp_all
  note b = fresh_image_insert_bits [where size_kib = 180 and inodes = 128
      and beyond = "replicate 3976 0" and img = ?img and now = 0 and bytes = "[0x78]"]
  have "\<exists>out. mkfs_adder (Some ?img) (Some [0x78]) [0x61] 7 True = Inr out
    \<and> dense (image_data_bitmap out) (1 + (length [0x78 :: u8] + 4095) div 4096)
    \<and> dense (image_inode_bitmap out) 2"
    by (rule b(1)) simp_all
  then obtain out where
    r: "mkfs_adder (Some ?img) (Some [0x78]) [0x61] 7 True = Inr out"
    and dd: "dense (image_data_bitmap out) (1 + (length [0x78 :: u8] + 4095) div 4096)"
    and di: "dense (image_inode_bitmap out) 2"
    by blast
  have rb: "image_root_block ?img = 0"
    using b(2) by simp
  have itb: "unat (inode_table_blocks (image_superblock ?img)) = 4"
    using b(3) by simp
  have drb: "unat (data_region_blocks (image_superblock ?img)) = 38"
    by (simp add: fresh_image_data_blocks)
  have n5: "\<not> bit_at (image_data_bitmap out) 5" and n3: "\<not> bit_at (image_inode_bitmap out) 3"
    using dd di by (simp_all add: dense_def)
  from insert_leaves_the_rest [OF v, of "Some [0x78]" "[0x61]" 7 True] r
  have "image_data_block out 5 = image_data_block ?img 5"
    and "image_inode_slot out 3 = image_inode_slot ?img 3"
    using rb itb drb n5 n3 by simp_all
  with v r show ?thesis
    by blast
qed

section \<open>The slot of the new entry\<close>

lemma find_root_slot_cases:
  assumes frs: "find_root_slot m = Inr (free_entry, root_off, table')"
    and ec: "entry_count_of (root_of (inode_table m)) \<le> 64"
  shows "\<exists>e. free_entry = int e
    \<and> root_off = root_entries_offset (sb m) (root_of (inode_table m))
    \<and> ((e < entry_count_of (root_of (inode_table m))
          \<and> entry_inode_no (data_region m) root_off e = 0
          \<and> (\<forall>j<e. entry_inode_no (data_region m) root_off j \<noteq> 0)
          \<and> table' = inode_table m)
       \<or> ((\<forall>j<entry_count_of (root_of (inode_table m)).
              entry_inode_no (data_region m) root_off j \<noteq> 0)
          \<and> e = entry_count_of (root_of (inode_table m)) \<and> e < 64
          \<and> table' = patched (inode_table m) 0
              (inode_bytes (finalized ((root_of (inode_table m))
                 \<lparr>size_bytes := size_bytes (root_of (inode_table m)) + 64\<rparr>)))))"
proof -
  let ?root = "root_of (inode_table m)"
  let ?off = "root_entries_offset (sb m) ?root"
  let ?n = "entry_count_of ?root"
  note t = find_root_slot_result(1) [OF frs]
  note ro = find_root_slot_result(2) [OF frs]
  note u = frs [unfolded find_root_slot_unfold [OF t] and_then_Inr_iff]
  then obtain r where
    sc: "scan_root_entries (data_region m) ?off ?n 0 = Inr r"
    and res: "(let free_entry = (case r of Some i \<Rightarrow> int_of_u64 (of_nat i) | None \<Rightarrow> - 1) in
     if free_entry = - 1 then
       (if 64 \<le> ?n then Inl RootDirectoryFull
        else Inr (int_of_u64 (size_bytes ?root div 64), ?off,
                patched (inode_table m) 0
                  (inode_bytes (finalized (?root\<lparr>size_bytes := size_bytes ?root + 64\<rparr>)))))
     else Inr (free_entry, ?off, inode_table m))
      = Inr (free_entry, root_off, table')"
    by blast
  show ?thesis
  proof (cases r)
    case None
    with res have n: "\<not> 64 \<le> ?n"
      and f: "free_entry = int_of_u64 (size_bytes ?root div 64)"
      and tb: "table' = patched (inode_table m) 0
                  (inode_bytes (finalized (?root\<lparr>size_bytes := size_bytes ?root + 64\<rparr>)))"
      by (auto simp add: Let_def split: if_splits)
    have k: "unat (size_bytes ?root div 64) = ?n"
      by (simp add: entry_count_of_def)
    have "?n < 2 ^ 31"
      using n by simp
    then have "int_of_u64 (size_bytes ?root div 64) = int (unat (size_bytes ?root div 64))"
      unfolding k [symmetric] by (rule int_of_u64_unat)
    then have fe: "free_entry = int ?n"
      by (simp only: f k)
    from scan_root_entries_None [OF sc [unfolded None]]
    have nz: "\<forall>j<?n. entry_inode_no (data_region m) root_off j \<noteq> 0"
      unfolding ro by simp
    have "?n < 64"
      using n by simp
    with fe ro nz tb show ?thesis
      by blast
  next
    case (Some i)
    from scan_root_entries_Some [OF sc [unfolded Some]]
    have i: "i < ?n" and z: "entry_inode_no (data_region m) root_off i = 0"
      and nz: "\<forall>j<i. entry_inode_no (data_region m) root_off j \<noteq> 0"
      unfolding ro by simp_all
    have "i < 2 ^ 31"
      using i ec by simp
    then have ii: "int_of_u64 (of_nat i) = int i"
      by (rule int_of_u64_small)
    with res Some have "free_entry = int i" "table' = inode_table m"
      by (auto simp add: Let_def split: if_splits)
    with i z nz ro show ?thesis
      by blast
  qed
qed

lemma finalized_reference:
  "inode_crc (finalized ino) = ucast (crc32_reference (take 120 (inode_bytes (finalized ino))))"
proof -
  have r: "crc32_loop bs 0xFFFFFFFF XOR 0xFFFFFFFF = crc32_reference bs" for bs
    using crc32_reference_eq [of "length bs" bs] by (simp add: crc32_def)
  have "take 120 (inode_bytes (finalized ino)) = inode_head ino"
    by (simp add: inode_bytes_def inode_head_def finalized_def)
  then show ?thesis
    by (simp add: finalized_def r)
qed

lemma insert_file_slot:
  assumes ins: "insert_file m file file_name now = Inr m'"
    and vs: "valid_superblock (sb m)"
    and lb: "length (inode_bitmap m) = 4096" "length (data_bitmap m) = 4096"
    and lt: "length (inode_table m) = unat (inode_table_blocks (sb m)) * 4096"
    and lr: "length (data_region m) = unat (data_region_blocks (sb m)) * 4096"
    and b0: "bit_at (inode_bitmap m) 0"
    and rb: "unat (data_region_start (sb m)) \<le> unat (direct (root_of (inode_table m)) ! 0)"
      "unat (direct (root_of (inode_table m)) ! 0) < unat (total_blocks (sb m))"
    and rsz: "unat (size_bytes (root_of (inode_table m))) \<le> 4096"
    and rbit: "bit_at (data_bitmap m)
      (unat (direct (root_of (inode_table m)) ! 0) - unat (data_region_start (sb m)))"
    and off: "off = (unat (direct (root_of (inode_table m)) ! 0)
      - unat (data_region_start (sb m))) * 4096"
    and n: "n = entry_count_of (root_of (inode_table m))"
  shows "\<exists>f e root'. f < unat (inode_count (sb m))
    \<and> \<not> bit_at (inode_bitmap m) f \<and> (\<forall>j<f. bit_at (inode_bitmap m) j)
    \<and> bit_at (inode_bitmap m') f
    \<and> e < 64
    \<and> field (data_region m') (off + e * 64) 64
        = dirent_bytes (new_dirent (field (data_region m) (off + e * 64) 64) (int f + 1) file_name)
    \<and> (\<forall>j<64. j \<noteq> e \<longrightarrow>
          field (data_region m') (off + j * 64) 64 = field (data_region m) (off + j * 64) 64)
    \<and> field (inode_table m') 0 128 = inode_bytes (finalized root')
    \<and> links root' = links (root_of (inode_table m)) + 1
    \<and> direct root' = direct (root_of (inode_table m))
    \<and> ((e < n \<and> entry_inode_no (data_region m) off e = 0
          \<and> (\<forall>j<e. entry_inode_no (data_region m) off j \<noteq> 0)
          \<and> size_bytes root' = size_bytes (root_of (inode_table m)))
       \<or> ((\<forall>j<n. entry_inode_no (data_region m) off j \<noteq> 0)
          \<and> e = n
          \<and> size_bytes root' = size_bytes (root_of (inode_table m)) + 64))"
proof -
  let ?table = "inode_table m"
  let ?region = "data_region m"
  let ?root = "root_of ?table"
  let ?rbk = "unat (direct ?root ! 0) - unat (data_region_start (sb m))"
  from insert_file_steps [OF ins]
  obtain free_inode and bytes :: "u8 list" and data_blocks dbitmap file_content
    and file_fp :: stream and dregion1 itable1 ibitmap free_entry root_off itable2 dregion2 itable3
    where ffi: "find_free_inode (inode_bitmap m) (inode_count (sb m)) = Inr free_inode"
    and ne: "free_inode \<noteq> - 1"
    and n12: "\<not> ((of_nat (length bytes) :: u64) + 4096 - 1) div 4096 > 12"
    and al: "alloc_data_blocks (sb m) (unat (((of_nat (length bytes) :: u64) + 4096 - 1) div 4096)) 0
         (replicate 12 0) (data_bitmap m) = Inr (data_blocks, dbitmap)"
    and wf: "write_file_blocks (sb m) (of_nat (length bytes)) file_content data_blocks
         (unat (((of_nat (length bytes) :: u64) + 4096 - 1) div 4096)) 0 (data_region m)
         = Inr dregion1"
    and ci: "create_inode (inode_table m) free_inode (of_nat (length bytes)) now
         (unat (((of_nat (length bytes) :: u64) + 4096 - 1) div 4096)) data_blocks = Inr itable1"
    and sbit: "set_bit_at (inode_bitmap m) (free_inode - 1) = Inr ibitmap"
    and frs: "find_root_slot (m\<lparr> inode_bitmap := ibitmap, data_bitmap := dbitmap,
                inode_table := itable1, data_region := dregion1 \<rparr>)
         = Inr (free_entry, root_off, itable2)"
    and wd: "write_dirent dregion1 root_off free_entry free_inode file_name = Inr dregion2"
    and br: "bump_root_links itable2 = Inr itable3"
    and m': "m' = m\<lparr> inode_bitmap := ibitmap, data_bitmap := dbitmap,
                inode_table := itable3, data_region := dregion2 \<rparr>"
    by (elim exE conjE)
  let ?fs = "of_nat (length bytes) :: u64"
  let ?nb = "unat ((?fs + 4096 - 1) div 4096)"
  let ?m1 = "m\<lparr> inode_bitmap := ibitmap, data_bitmap := dbitmap,
                inode_table := itable1, data_region := dregion1 \<rparr>"
  note vb = valid_superblock_bounds [OF vs]
  have sel: "inode_bitmap m' = ibitmap" "data_bitmap m' = dbitmap"
    "inode_table m' = itable3" "data_region m' = dregion2"
    by (simp_all add: m')
  have sel1: "inode_table ?m1 = itable1" "data_region ?m1 = dregion1" "sb ?m1 = sb m"
    by simp_all
  from find_free_inode_result [OF lb(1) ffi ne] obtain f where
    fi: "free_inode = int f + 1" and fc: "f < unat (inode_count (sb m))" and f32: "f < 32768"
    and fb: "\<not> bit_at (inode_bitmap m) f" and fl: "\<forall>j. j < f \<longrightarrow> bit_at (inode_bitmap m) j"
    by blast
  have f0: "f \<noteq> 0"
  proof
    assume "f = 0"
    with fb b0 show False
      by simp
  qed
  have noff: "new_inode_offset free_inode = f * 128"
    unfolding fi using f32 by (rule new_inode_offset_next)
  note cr = create_inode_result [OF ci, unfolded noff]
  have nf: "nat (free_inode - 1) = f"
    by (simp add: fi)
  note sr = set_bit_at_result [OF sbit, unfolded nf]
  have fset: "bit_at ibitmap f"
    using sr(4) [of f] by simp
  have lt1: "length itable1 = length ?table"
    unfolding cr(2) using cr(1) by (intro length_patched) simp
  have r1: "root_of itable1 = ?root"
    unfolding cr(2) using cr(1) f0 by (intro root_of_patched_other) simp_all
  have rbk: "?rbk < 2 ^ 20"
  proof -
    have "unat (total_blocks (sb m)) \<le> 1024"
      using vs by (simp add: valid_superblock_def)
    then show ?thesis
      using rb(2) by simp
  qed
  have ro: "root_entries_offset (sb m) ?root = off"
    unfolding off using rb(1) rbk by (rule root_entries_offset_valid)
  have "unat (size_bytes ?root div 64) = unat (size_bytes ?root) div 64"
    by (simp add: unat_div)
  then have n64: "n \<le> 64"
    using rsz by (simp add: n entry_count_of_def)
  have rin: "?rbk < unat (data_region_blocks (sb m))"
    using rb vs by (simp add: valid_superblock_def)
  then have blkin: "off + 4096 \<le> length ?region"
    unfolding lr off by simp
  text \<open>The copy of the file leaves the block of the root directory as it was.\<close>
  from alloc_data_blocks_result [OF al lb(2)]
  have blk0: "\<And>j. j < ?nb \<Longrightarrow> j < 12 \<Longrightarrow>
        \<exists>fj. data_blocks ! j = ucast (data_region_start (sb m) + of_nat fj)
           \<and> fj < unat (data_region_blocks (sb m)) \<and> fj < 32768
           \<and> \<not> bit_at (data_bitmap m) fj \<and> bit_at dbitmap fj"
    by simp
  have nb12: "?nb \<le> 12"
    using n12 by (simp add: word_less_nat_alt)
  note wr = write_file_blocks_result [OF wf]
  have l1: "length dregion1 = length ?region"
    using wr by simp
  have same: "dregion1 ! p = ?region ! p" if p: "off \<le> p" "p < off + 4096" for p
  proof -
    have pl: "p < length ?region"
      using p(2) blkin by simp
    have "p < block_offset (sb m) data_blocks j
        \<or> block_offset (sb m) data_blocks j + copy_size ?fs ?nb j \<le> p" if j: "j < ?nb" for j
    proof -
      have "j < 12"
        using j nb12 by simp
      from blk0 [OF j this] obtain fj where
        dj: "data_blocks ! j = ucast (data_region_start (sb m) + of_nat fj)"
        and fj: "fj < 32768" "\<not> bit_at (data_bitmap m) fj"
        by blast
      have bo: "block_offset (sb m) data_blocks j = fj * 4096"
        using dj by (rule block_offset_of) (use fj(1) vb(1) in simp)
      have cs: "copy_size ?fs ?nb j \<le> 4096"
        using n12 j by (rule copy_size_le_block)
      have "?rbk \<noteq> fj"
        using rbit fj(2) by auto
      then have "?rbk < fj \<or> fj < ?rbk"
        by auto
      then show ?thesis
      proof
        assume "?rbk < fj"
        then have "?rbk * 4096 + 4096 \<le> fj * 4096"
          by simp
        then show ?thesis
          using p(2) by (simp add: bo off)
      next
        assume "fj < ?rbk"
        then have "fj * 4096 + 4096 \<le> ?rbk * 4096"
          by simp
        then show ?thesis
          using p(1) cs by (simp add: bo off)
      qed
    qed
    with wr pl show ?thesis
      by blast
  qed
  have flow: "field dregion1 (off + x) k = field ?region (off + x) k" if "x + k \<le> 4096" for x k
    using that blkin l1 by (intro field_cong_nth same) simp_all
  have en1: "entry_inode_no dregion1 off j = entry_inode_no ?region off j" if "j < 64" for j
  proof -
    have "field dregion1 (off + j * 64) 4 = field ?region (off + j * 64) 4"
      using that by (intro flow) simp
    then show ?thesis
      by (simp add: entry_inode_no_def rd32_def)
  qed
  have ec1: "entry_count_of (root_of (inode_table ?m1)) \<le> 64"
    unfolding sel1 r1 using n64 n by simp
  from find_root_slot_cases [OF frs ec1, unfolded sel1 r1 ro n [symmetric]]
  obtain e where fe: "free_entry = int e" and rof: "root_off = off"
    and cases: "(e < n \<and> entry_inode_no dregion1 root_off e = 0
          \<and> (\<forall>j<e. entry_inode_no dregion1 root_off j \<noteq> 0)
          \<and> itable2 = itable1)
       \<or> ((\<forall>j<n. entry_inode_no dregion1 root_off j \<noteq> 0)
          \<and> e = n \<and> e < 64
          \<and> itable2 = patched itable1 0
              (inode_bytes (finalized (?root\<lparr>size_bytes := size_bytes ?root + 64\<rparr>))))"
    by blast
  have e64: "e < 64"
    using cases n64 by auto
  define root2 where "root2 = root_of itable2"
  have l2t: "length itable2 = length itable1"
    using find_root_slot_result(3) [OF frs] by (simp only: sel1)
  have t128: "128 \<le> length itable1"
    using cr(1) lt1 by simp
  have cases2: "(e < n \<and> entry_inode_no ?region off e = 0
          \<and> (\<forall>j<e. entry_inode_no ?region off j \<noteq> 0)
          \<and> size_bytes root2 = size_bytes ?root \<and> links root2 = links ?root
          \<and> direct root2 = direct ?root)
       \<or> ((\<forall>j<n. entry_inode_no ?region off j \<noteq> 0)
          \<and> e = n
          \<and> size_bytes root2 = size_bytes ?root + 64 \<and> links root2 = links ?root
          \<and> direct root2 = direct ?root)"
    using cases
  proof
    assume a: "e < n \<and> entry_inode_no dregion1 root_off e = 0
          \<and> (\<forall>j<e. entry_inode_no dregion1 root_off j \<noteq> 0)
          \<and> itable2 = itable1"
    then have "root2 = ?root"
      by (simp add: root2_def r1)
    moreover have "entry_inode_no ?region off e = 0"
      using a e64 en1 [of e] by (simp add: rof)
    moreover have "\<forall>j<e. entry_inode_no ?region off j \<noteq> 0"
    proof (intro allI impI)
      fix j assume j: "j < e"
      with a have "entry_inode_no dregion1 off j \<noteq> 0"
        by (simp add: rof)
      moreover have "j < 64"
        using j e64 by simp
      ultimately show "entry_inode_no ?region off j \<noteq> 0"
        using en1 [of j] by simp
    qed
    ultimately show ?thesis
      using a by simp
  next
    assume a: "(\<forall>j<n. entry_inode_no dregion1 root_off j \<noteq> 0)
          \<and> e = n \<and> e < 64
          \<and> itable2 = patched itable1 0
              (inode_bytes (finalized (?root\<lparr>size_bytes := size_bytes ?root + 64\<rparr>)))"
    have "root_of (patched itable1 0
              (inode_bytes (finalized (?root\<lparr>size_bytes := size_bytes ?root + 64\<rparr>))))
        = finalized (?root\<lparr>size_bytes := size_bytes ?root + 64\<rparr>)"
      using t128 by (intro root_of_patched_root) simp_all
    then have "root2 = finalized (?root\<lparr>size_bytes := size_bytes ?root + 64\<rparr>)"
      using a by (simp only: root2_def)
    then have "size_bytes root2 = size_bytes ?root + 64" "links root2 = links ?root"
      "direct root2 = direct ?root"
      by simp_all
    moreover have "\<forall>j<n. entry_inode_no ?region off j \<noteq> 0"
    proof (intro allI impI)
      fix j assume j: "j < n"
      with a have "entry_inode_no dregion1 off j \<noteq> 0"
        by (simp add: rof)
      moreover have "j < 64"
        using j n64 by simp
      ultimately show "entry_inode_no ?region off j \<noteq> 0"
        using en1 [of j] by simp
    qed
    ultimately show ?thesis
      using a by simp
  qed
  note dw = write_dirent_result [OF wd, unfolded fe rof nat_int]
  let ?de = "new_dirent (field dregion1 (off + e * 64) 64) free_inode file_name"
  have dl: "off + e * 64 + 64 \<le> length dregion1"
    by (rule dw(2))
  have d2: "dregion2 = patched dregion1 (off + e * 64) (dirent_bytes ?de)"
    by (rule dw(3))
  have old: "field dregion1 (off + e * 64) 64 = field ?region (off + e * 64) 64"
    using e64 by (intro flow) simp
  have entry: "field dregion2 (off + e * 64) 64
      = dirent_bytes (new_dirent (field ?region (off + e * 64) 64) (int f + 1) file_name)"
    unfolding d2 using field_patched_same [of "off + e * 64" "dirent_bytes ?de" dregion1] dl
    by (simp add: old fi)
  have others: "field dregion2 (off + j * 64) 64 = field ?region (off + j * 64) 64"
    if j: "j < 64" "j \<noteq> e" for j
  proof -
    have "j * 64 + 64 \<le> 4096"
      using j(1) by simp
    then have in1: "off + j * 64 + 64 \<le> length dregion1"
      using blkin l1 by simp
    have "j < e \<or> e < j"
      using j(2) by auto
    then have "off + j * 64 + 64 \<le> off + e * 64 \<or> off + e * 64 + 64 \<le> off + j * 64"
      by auto
    then have "field dregion2 (off + j * 64) 64 = field dregion1 (off + j * 64) 64"
      unfolding d2 using dl in1 by (intro field_patched_outside) simp_all
    also have "\<dots> = field ?region (off + j * 64) 64"
      using j(1) by (intro flow) simp
    finally show ?thesis .
  qed
  note bl = bump_root_links_result [OF br, folded root2_def]
  let ?root3 = "root2\<lparr>links := links root2 + 1\<rparr>"
  have slot0: "field itable3 0 128 = inode_bytes (finalized ?root3)"
    unfolding bl(2) using field_patched_same [of 0 "inode_bytes (finalized ?root3)" itable2] bl(1)
    by simp
  have lk: "links ?root3 = links ?root + 1"
    using cases2 by auto
  have sz: "size_bytes ?root3 = size_bytes root2"
    by simp
  have dr: "direct ?root3 = direct ?root"
    using cases2 by auto
  have final: "(e < n \<and> entry_inode_no ?region off e = 0
          \<and> (\<forall>j<e. entry_inode_no ?region off j \<noteq> 0)
          \<and> size_bytes ?root3 = size_bytes ?root)
       \<or> ((\<forall>j<n. entry_inode_no ?region off j \<noteq> 0)
          \<and> e = n
          \<and> size_bytes ?root3 = size_bytes ?root + 64)"
    using cases2 unfolding sz by blast
  have fl': "\<forall>j<f. bit_at (inode_bitmap m) j"
    using fl by blast
  have oth: "\<forall>j<64. j \<noteq> e \<longrightarrow>
      field dregion2 (off + j * 64) 64 = field ?region (off + j * 64) 64"
    using others by blast
  show ?thesis
    unfolding sel
    by (intro exI [of _ f] exI [of _ e] exI [of _ ?root3] conjI)
      (fact fc fb fl' fset e64 entry oth slot0 lk dr final)+
qed

section \<open>Where an insert puts the new entry\<close>

lemma inode_no_dirent_of: "inode_no (dirent_of bs) = rd32 bs 0"
  by (simp add: dirent_of_def)

lemma image_root:
  assumes "valid_superblock (image_superblock img)"
    and "length img = unat (total_blocks (image_superblock img)) * 4096"
  shows "image_inode_slot img 0 = field (inode_table (loaded img)) 0 128"
    and "image_inode img 0 = root_of (inode_table (loaded img))"
proof -
  note ll = loaded_lengths [OF assms]
  note ri = image_regions [OF assms]
  note vb = valid_superblock_bounds [OF assms(1)]
  have t0: "0 * 128 + 128 \<le> length (inode_table (loaded img))"
    unfolding ll(3) using vb(5) by simp
  show "image_inode_slot img 0 = field (inode_table (loaded img)) 0 128"
    using ri(3) [OF t0] by simp
  then show "image_inode img 0 = root_of (inode_table (loaded img))"
    by (simp add: image_inode_def root_of_def)
qed

lemma image_entries:
  assumes vp: "valid_superblock (image_superblock img)"
    "length img = unat (total_blocks (image_superblock img)) * 4096"
    and m: "m = loaded img"
    and off: "off = image_root_block img * 4096"
    and rin: "image_root_block img < unat (data_region_blocks (image_superblock img))"
  shows "off + 4096 \<le> length (data_region m)"
    and "\<And>i. i < 64 \<Longrightarrow> image_dirent img i = dirent_of (field (data_region m) (off + i * 64) 64)"
    and "\<And>i. i < 64 \<Longrightarrow> inode_no (image_dirent img i) = entry_inode_no (data_region m) off i"
proof -
  note ll = loaded_lengths [OF vp, folded m]
  note ri = image_regions [OF vp, folded m]
  show blkin: "off + 4096 \<le> length (data_region m)"
    unfolding off ll(4) using rin by simp
  then have b: "image_root_block img * 4096 + 4096 \<le> length (data_region m)"
    by (simp only: off)
  show d: "image_dirent img i = dirent_of (field (data_region m) (off + i * 64) 64)"
    if "i < 64" for i
  proof -
    have "field (field (data_region m) off 4096) (i * 64) 64
        = field (data_region m) (off + i * 64) 64"
      using that blkin by (intro field_field) simp_all
    then show ?thesis
      unfolding image_dirent_def ri(4) [OF b] by (simp only: off)
  qed
  show "inode_no (image_dirent img i) = entry_inode_no (data_region m) off i" if "i < 64" for i
  proof -
    have "rd32 (field (data_region m) (off + i * 64) 64) 0
        = rd32 (data_region m) (off + i * 64 + 0)"
      using that blkin by (intro rd32_field) simp_all
    then show ?thesis
      unfolding d [OF that] inode_no_dirent_of by (simp add: entry_inode_no_def)
  qed
qed

text \<open>
  Claim C9. Let \<open>n\<close> be the number of entries of the root directory of a valid image (the
  size of the root inode divided by 64) whose directory block is marked in the data
  bitmap. A run of the adder that writes an output image has put the new entry (the number
  of the newly allocated inode, type 1, the file name cut to 57 bytes) at an index \<open>e\<close>
  below 64 and has left every other entry of the block as it was. Either \<open>e\<close> is the first
  index below \<open>n\<close> whose entry has inode number 0, and the size of the root inode is
  unchanged; or no entry below \<open>n\<close> has inode number 0, \<open>e = n\<close>, and the size of the root
  inode has grown by 64. In both cases the root inode of the output carries the CRC-32 of
  its first 120 bytes. When no entry below \<open>n\<close> is free and \<open>n\<close> has reached 64, the run
  fails and writes no output.
\<close>

theorem new_entry_in_first_free_slot:
  assumes "valid_image img"
    and "bit_at (image_data_bitmap img) (image_root_block img)"
    and "n = unat (size_bytes (image_inode img 0) div 64)"
  shows "(\<forall>out. mkfs_adder (Some img) file file_name now can_create = Inr out \<longrightarrow>
      (\<exists>e f. e < 64
        \<and> inode_no (image_dirent out e) = of_nat (f + 1)
        \<and> inode_no (image_dirent out e) \<noteq> 0
        \<and> type (image_dirent out e) = 1
        \<and> name (image_dirent out e) = stored_name file_name
        \<and> \<not> bit_at (image_inode_bitmap img) f \<and> bit_at (image_inode_bitmap out) f
        \<and> (\<forall>j<64. j \<noteq> e \<longrightarrow> image_dirent out j = image_dirent img j)
        \<and> inode_crc (image_inode out 0)
            = ucast (crc32_reference (take 120 (image_inode_slot out 0)))
        \<and> links (image_inode out 0) = links (image_inode img 0) + 1
        \<and> ((e < n \<and> inode_no (image_dirent img e) = 0
              \<and> (\<forall>j<e. inode_no (image_dirent img j) \<noteq> 0)
              \<and> size_bytes (image_inode out 0) = size_bytes (image_inode img 0))
           \<or> ((\<forall>j<n. inode_no (image_dirent img j) \<noteq> 0) \<and> e = n
              \<and> size_bytes (image_inode out 0) = size_bytes (image_inode img 0) + 64))))
    \<and> ((\<forall>j<n. inode_no (image_dirent img j) \<noteq> 0) \<and> 64 \<le> n \<longrightarrow>
        (\<exists>err. mkfs_adder (Some img) file file_name now can_create = Inl err))"
proof -
  let ?m = "loaded img"
  let ?root = "root_of (inode_table ?m)"
  define off where "off = image_root_block img * 4096"
  note vp = valid_image_parts [OF assms(1)]
  note vl = valid_image_loaded [OF assms(1)]
  note ri = image_regions [OF vp]
  note vb = valid_superblock_bounds [OF vp(1)]
  have sm: "sb ?m = image_superblock img"
    by simp
  have rbk: "image_root_block img
      = unat (direct ?root ! 0) - unat (data_region_start (sb ?m))"
    unfolding image_root_block_def vl(11) sm ..
  have rin: "image_root_block img < unat (data_region_blocks (image_superblock img))"
    unfolding rbk using vl(1,7,8) by (simp add: valid_superblock_def)
  note ie = image_entries [OF vp refl off_def rin]
  have rbit: "bit_at (data_bitmap ?m) (unat (direct ?root ! 0) - unat (data_region_start (sb ?m)))"
    using assms(2) unfolding ri(2) rbk .
  have off': "off = (unat (direct ?root ! 0) - unat (data_region_start (sb ?m))) * 4096"
    unfolding off_def rbk ..
  have n: "n = entry_count_of ?root"
    unfolding assms(3) vl(11) entry_count_of_def ..
  have n64: "n \<le> 64"
  proof -
    have "unat (size_bytes ?root div 64) = unat (size_bytes ?root) div 64"
      by (simp add: unat_div)
    then show ?thesis
      using vl(9) by (simp add: n entry_count_of_def)
  qed
  have main: "\<exists>e f. e < 64
        \<and> inode_no (image_dirent out e) = of_nat (f + 1)
        \<and> inode_no (image_dirent out e) \<noteq> 0
        \<and> type (image_dirent out e) = 1
        \<and> name (image_dirent out e) = stored_name file_name
        \<and> \<not> bit_at (image_inode_bitmap img) f \<and> bit_at (image_inode_bitmap out) f
        \<and> (\<forall>j<64. j \<noteq> e \<longrightarrow> image_dirent out j = image_dirent img j)
        \<and> inode_crc (image_inode out 0)
            = ucast (crc32_reference (take 120 (image_inode_slot out 0)))
        \<and> links (image_inode out 0) = links (image_inode img 0) + 1
        \<and> ((e < n \<and> inode_no (image_dirent img e) = 0
              \<and> (\<forall>j<e. inode_no (image_dirent img j) \<noteq> 0)
              \<and> size_bytes (image_inode out 0) = size_bytes (image_inode img 0))
           \<or> ((\<forall>j<n. inode_no (image_dirent img j) \<noteq> 0) \<and> e = n
              \<and> size_bytes (image_inode out 0) = size_bytes (image_inode img 0) + 64))"
    if run: "mkfs_adder (Some img) file file_name now can_create = Inr out" for out
  proof -
    from mkfs_adder_success [OF assms(1) run] obtain m' where
      ins: "insert_file ?m file file_name now = Inr m'"
      and lo: "loaded out = m'"
      and so: "image_superblock out = image_superblock img"
      and lno: "length out = length img"
      by blast
    have vpo: "valid_superblock (image_superblock out)"
      "length out = unat (total_blocks (image_superblock out)) * 4096"
      using vp by (simp_all add: so lno)
    note ro = image_regions [OF vpo, unfolded lo]
    note rt = image_root [OF vpo, unfolded lo]
    from insert_file_slot [OF ins vl(1-9) rbit off' n] obtain f e root' where
      fc: "f < unat (inode_count (sb ?m))"
      and fb: "\<not> bit_at (inode_bitmap ?m) f"
      and fs: "bit_at (inode_bitmap m') f"
      and e64: "e < 64"
      and entry: "field (data_region m') (off + e * 64) 64
        = dirent_bytes (new_dirent (field (data_region ?m) (off + e * 64) 64) (int f + 1) file_name)"
      and others: "\<forall>j<64. j \<noteq> e \<longrightarrow>
          field (data_region m') (off + j * 64) 64 = field (data_region ?m) (off + j * 64) 64"
      and slot0: "field (inode_table m') 0 128 = inode_bytes (finalized root')"
      and lk: "links root' = links ?root + 1"
      and dr: "direct root' = direct ?root"
      and cases: "(e < n \<and> entry_inode_no (data_region ?m) off e = 0
          \<and> (\<forall>j<e. entry_inode_no (data_region ?m) off j \<noteq> 0)
          \<and> size_bytes root' = size_bytes ?root)
       \<or> ((\<forall>j<n. entry_inode_no (data_region ?m) off j \<noteq> 0)
          \<and> e = n
          \<and> size_bytes root' = size_bytes ?root + 64)"
      by blast
    have d12: "direct12 (direct root') = direct root'"
      unfolding dr by (rule direct12_id) simp
    have "direct12 (direct (finalized root')) = direct (finalized root')"
      using d12 by simp
    then have "(finalized root')\<lparr>direct := direct12 (direct (finalized root'))\<rparr> = finalized root'"
      by simp
    then have ino0: "image_inode out 0 = finalized root'"
      unfolding rt(2) root_of_def slot0 inode_of_bytes .
    have rbo: "image_root_block out = image_root_block img"
      unfolding image_root_block_def ino0 vl(11) so by (simp add: dr)
    have rino: "image_root_block out < unat (data_region_blocks (image_superblock out))"
      unfolding rbo so by (rule rin)
    have offo: "off = image_root_block out * 4096"
      unfolding rbo by (rule off_def)
    note oe = image_entries [OF vpo lo [symmetric] offo rino]
    have de: "image_dirent out e
        = new_dirent (field (data_region ?m) (off + e * 64) 64) (int f + 1) file_name"
      unfolding oe(2) [OF e64] entry by (rule dirent_of_new_dirent)
    have f32: "f < 32768"
      using fc vl(10) vl(4) vb(3) by simp
    have c1: "inode_no (image_dirent out e) = of_nat (f + 1)"
      unfolding de by simp
    have c2: "inode_no (image_dirent out e) \<noteq> 0"
    proof -
      have "unat (of_nat (f + 1) :: u32) = f + 1"
        using f32 by (intro unat_of_nat_u32) simp
      then have "(of_nat (f + 1) :: u32) \<noteq> 0"
        by (metis add_is_0 one_neq_zero unat_0)
      then show ?thesis
        unfolding c1 .
    qed
    have c3: "type (image_dirent out e) = 1" and c4: "name (image_dirent out e) = stored_name file_name"
      unfolding de by simp_all
    have c5: "\<not> bit_at (image_inode_bitmap img) f"
      unfolding ri(1) by (rule fb)
    have c6: "bit_at (image_inode_bitmap out) f"
      unfolding ro(1) by (rule fs)
    have c7: "\<forall>j<64. j \<noteq> e \<longrightarrow> image_dirent out j = image_dirent img j"
    proof (intro allI impI)
      fix j :: nat assume j: "j < 64" "j \<noteq> e"
      show "image_dirent out j = image_dirent img j"
        unfolding oe(2) [OF j(1)] ie(2) [OF j(1)] using others j by simp
    qed
    have c8: "inode_crc (image_inode out 0)
        = ucast (crc32_reference (take 120 (image_inode_slot out 0)))"
      unfolding ino0 rt(1) slot0 by (rule finalized_reference)
    have c9: "links (image_inode out 0) = links (image_inode img 0) + 1"
      unfolding ino0 vl(11) by (simp add: lk)
    have sz: "size_bytes (image_inode out 0) = size_bytes root'"
      unfolding ino0 by simp
    have c10: "(e < n \<and> inode_no (image_dirent img e) = 0
              \<and> (\<forall>j<e. inode_no (image_dirent img j) \<noteq> 0)
              \<and> size_bytes (image_inode out 0) = size_bytes (image_inode img 0))
           \<or> ((\<forall>j<n. inode_no (image_dirent img j) \<noteq> 0) \<and> e = n
              \<and> size_bytes (image_inode out 0) = size_bytes (image_inode img 0) + 64)"
      using cases
    proof
      assume a: "e < n \<and> entry_inode_no (data_region ?m) off e = 0
          \<and> (\<forall>j<e. entry_inode_no (data_region ?m) off j \<noteq> 0)
          \<and> size_bytes root' = size_bytes ?root"
      have "inode_no (image_dirent img e) = 0"
        using a ie(3) [OF e64] by simp
      moreover have "\<forall>j<e. inode_no (image_dirent img j) \<noteq> 0"
      proof (intro allI impI)
        fix j assume j: "j < e"
        then have "j < 64"
          using e64 by simp
        from ie(3) [OF this] a j show "inode_no (image_dirent img j) \<noteq> 0"
          by simp
      qed
      moreover have "size_bytes (image_inode out 0) = size_bytes (image_inode img 0)"
        unfolding sz vl(11) using a by simp
      ultimately show ?thesis
        using a by blast
    next
      assume a: "(\<forall>j<n. entry_inode_no (data_region ?m) off j \<noteq> 0)
          \<and> e = n
          \<and> size_bytes root' = size_bytes ?root + 64"
      have "\<forall>j<n. inode_no (image_dirent img j) \<noteq> 0"
      proof (intro allI impI)
        fix j assume j: "j < n"
        then have "j < 64"
          using n64 by simp
        from ie(3) [OF this] a j show "inode_no (image_dirent img j) \<noteq> 0"
          by simp
      qed
      moreover have "size_bytes (image_inode out 0) = size_bytes (image_inode img 0) + 64"
        unfolding sz vl(11) using a by simp
      ultimately show ?thesis
        using a by blast
    qed
    show ?thesis
      by (intro exI [of _ e] exI [of _ f] conjI) (fact e64 c1 c2 c3 c4 c5 c6 c7 c8 c9 c10)+
  qed
  have full: "\<exists>err. mkfs_adder (Some img) file file_name now can_create = Inl err"
    if f: "(\<forall>j<n. inode_no (image_dirent img j) \<noteq> 0) \<and> 64 \<le> n"
  proof (cases "mkfs_adder (Some img) file file_name now can_create")
    case (Inl err)
    then show ?thesis
      by blast
  next
    case (Inr out)
    from main [OF Inr] obtain e where e: "e < 64"
      and c: "(e < n \<and> inode_no (image_dirent img e) = 0)
           \<or> ((\<forall>j<n. inode_no (image_dirent img j) \<noteq> 0) \<and> e = n)"
      by blast
    from c f e show ?thesis
      by auto
  qed
  show ?thesis
    using main full by blast
qed

section \<open>An insert that reuses a freed entry\<close>

lemma packed_laid_out: "packed m a d n \<Longrightarrow> laid_out m a d n"
  by (simp add: packed_def laid_out_def)

lemma insert_file_reuse:
  assumes p: "laid_out m a d n"
    and a: "a < unat (inode_count (sb m))" "a * 128 + 128 \<le> length (inode_table m)"
    and S: "1 \<le> length bytes" "length bytes \<le> 49152"
    and dd: "d + (length bytes + 4095) div 4096 \<le> unat (data_region_blocks (sb m))"
    and i: "i < n" "entry_inode_no (data_region m) 0 i = 0"
      "\<And>j. j < i \<Longrightarrow> entry_inode_no (data_region m) 0 j \<noteq> 0"
  shows "\<exists>m'. insert_file m (Some bytes) file_name now = Inr m'"
proof -
  let ?S = "length bytes"
  let ?nb = "(?S + 4095) div 4096"
  let ?fs = "of_nat ?S :: u64"
  let ?table = "inode_table m"
  let ?region = "data_region m"
  let ?root = "root_of ?table"
  from p have vs: "valid_superblock (sb m)"
    and ia: "dense (inode_bitmap m) a" and id: "dense (data_bitmap m) d"
    and lt: "length ?table = unat (inode_table_blocks (sb m)) * 4096"
    and lr: "length ?region = unat (data_region_blocks (sb m)) * 4096"
    and a1: "1 \<le> a" and d1: "1 \<le> d"
    and rd: "direct ?root ! 0 = ucast (data_region_start (sb m))"
    and rs: "size_bytes ?root = of_nat (n * 64)"
    and n64: "n \<le> 64"
    and ic: "unat (inode_count (sb m)) * 128 \<le> length ?table"
    by (simp_all add: laid_out_def)
  note vb = valid_superblock_bounds [OF vs]
  note nbs = needed_blocks_small [OF S(2)]
  have nb12: "?nb \<le> 12" and nb1: "1 \<le> ?nb"
    using S by simp_all
  have a32: "a < 32768"
    using a(2) lt vb(3) by simp
  note ffi = dense_first_free(2) [OF ia a32 a(1)]
  have fin: "int a + 1 \<noteq> - 1"
    by simp
  from alloc_data_blocks_dense [of "data_bitmap m" d ?nb 0 "sb m" "replicate 12 0"] id dd vb(2)
  obtain blocks' bitmap' where
    al: "alloc_data_blocks (sb m) ?nb 0 (replicate 12 0) (data_bitmap m) = Inr (blocks', bitmap')"
    and db: "dense bitmap' (d + ?nb)"
    and bl: "\<forall>j. 0 \<le> j \<and> j < ?nb \<and> j < length (replicate 12 (0 :: u32)) \<longrightarrow>
          blocks' ! j = ucast (data_region_start (sb m) + of_nat (d + (j - 0)))"
    by auto
  have bo: "block_offset (sb m) blocks' j = (d + j) * 4096" if "j < ?nb" for j
  proof (rule block_offset_of)
    show "blocks' ! j = ucast (data_region_start (sb m) + of_nat (d + j))"
      using bl that nb12 by simp
    show "unat (data_region_start (sb m)) + (d + j) < 2 ^ 32"
      using that dd vb(1,2) by simp
  qed
  have ufs: "unat ?fs = ?S"
    using S(2) by (intro unat_of_nat_u64) simp
  have fr: "fread1 \<lparr>contents = bytes, pos = 0\<rparr> (unat ?fs)
      = Some (bytes, \<lparr>contents = bytes, pos = ?S\<rparr>)"
  proof -
    have "bytes \<noteq> []"
      using S(1) by auto
    then show ?thesis
      using fread1_Some [of ?S 0 bytes] by (simp add: ufs field_all)
  qed
  have "\<exists>region'. write_file_blocks (sb m) ?fs bytes blocks' ?nb 0 ?region = Inr region'"
  proof (rule write_file_blocks_runs)
    fix j assume j: "0 \<le> j" "j < ?nb"
    note cs = copy_size_bounds [OF S(2) j(2)]
    have "(d + j) * 4096 + 4096 \<le> length ?region"
      using j(2) dd lr by simp
    then show "j * 4096 + copy_size ?fs ?nb j \<le> ?S
        \<and> block_offset (sb m) blocks' j + copy_size ?fs ?nb j \<le> length ?region"
      using cs bo [OF j(2)] by simp
  qed
  then obtain dregion1 where
    wf: "write_file_blocks (sb m) ?fs bytes blocks' ?nb 0 ?region = Inr dregion1"
    by blast
  from write_file_blocks_result [OF wf]
  have l1: "length dregion1 = length ?region"
    and fr1: "\<And>p. p < length ?region \<Longrightarrow>
          (\<forall>j. 0 \<le> j \<and> j < ?nb \<longrightarrow>
             p < block_offset (sb m) blocks' j
             \<or> block_offset (sb m) blocks' j + copy_size ?fs ?nb j \<le> p) \<Longrightarrow>
          dregion1 ! p = ?region ! p"
    by simp_all
  have r4096: "4096 \<le> length ?region"
    using lr vb(4) by simp
  have low: "dregion1 ! p = ?region ! p" if "p < 4096" for p
  proof (rule fr1)
    show "p < length ?region"
      using that r4096 by simp
    show "\<forall>j. 0 \<le> j \<and> j < ?nb \<longrightarrow>
             p < block_offset (sb m) blocks' j
             \<or> block_offset (sb m) blocks' j + copy_size ?fs ?nb j \<le> p"
      using that d1 by (simp add: bo)
  qed
  have flow: "field dregion1 off k = field ?region off k" if "off + k \<le> 4096" for off k
    using that r4096 l1 by (intro field_cong_nth low) simp_all
  let ?ino = "new_inode (field ?table (a * 128) 128) ?fs now ?nb blocks'"
  let ?itable1 = "patched ?table (a * 128) (inode_bytes ?ino)"
  note nio = new_inode_offset_next [OF a32]
  have ci: "create_inode ?table (int a + 1) ?fs now ?nb blocks' = Inr ?itable1"
    using a(2) by (simp add: create_inode_unfold nio)
  from dense_set_next [OF ia a32] obtain ibitmap where
    sbit: "set_bit_at (inode_bitmap m) (int a) = Inr ibitmap" and di: "dense ibitmap (Suc a)"
    by blast
  let ?m1 = "m\<lparr> inode_bitmap := ibitmap, data_bitmap := bitmap',
                inode_table := ?itable1, data_region := dregion1 \<rparr>"
  have t128: "128 \<le> length ?table"
    using a(2) by simp
  have lt1: "length ?itable1 = length ?table"
    using a(2) by (intro length_patched) simp
  have r1: "root_of ?itable1 = ?root"
    using a(2) a1 by (intro root_of_patched_other) simp_all
  have ec: "entry_count_of ?root = n"
    using rs n64 by (rule entry_count_of_size)
  have ro: "root_entries_offset (sb m) ?root = 0"
    using rd vb(1) by (intro root_entries_offset_at_start) simp_all
  have en1: "entry_inode_no dregion1 0 j = entry_inode_no ?region 0 j" if "j < 64" for j
  proof -
    have "field dregion1 (j * 64) 4 = field ?region (j * 64) 4"
      using that by (intro flow) simp
    then show ?thesis
      by (simp add: entry_inode_no_def rd32_def)
  qed
  have run: "insert_file m (Some bytes) file_name now =
    and_then (find_root_slot ?m1) (\<lambda>(free_entry, root_off, itable2).
      and_then (write_dirent dregion1 root_off free_entry (int a + 1) file_name) (\<lambda>dregion2.
      and_then (bump_root_links itable2) (\<lambda>itable3.
        Inr (m\<lparr> inode_bitmap := ibitmap, data_bitmap := bitmap',
                inode_table := itable3, data_region := dregion2 \<rparr>))))"
    using ffi fin nbs al fr wf ci sbit
    by (intro insert_file_run [where file_fp = "\<lparr>contents = bytes, pos = ?S\<rparr>"]) simp_all
  have sel1: "inode_table ?m1 = ?itable1" "data_region ?m1 = dregion1" "sb ?m1 = sb m"
    by simp_all
  have i64: "i < 64"
    using i(1) n64 by simp
  have frs: "find_root_slot ?m1 = Inr (int i, root_entries_offset (sb ?m1)
      (root_of (inode_table ?m1)), inode_table ?m1)"
  proof (rule find_root_slot_reuse)
    show "128 \<le> length (inode_table ?m1)"
      unfolding sel1 lt1 by (rule t128)
    show "i < entry_count_of (root_of (inode_table ?m1))"
      unfolding sel1 r1 ec by (rule i(1))
    show "i < 2 ^ 31"
      using i64 by simp
    have "i * 64 + 4 \<le> 4096"
      using i64 by simp
    then show "root_entries_offset (sb ?m1) (root_of (inode_table ?m1)) + i * 64 + 4
        \<le> length (data_region ?m1)"
      unfolding sel1 r1 ro using r4096 l1 by simp
    show "entry_inode_no (data_region ?m1)
        (root_entries_offset (sb ?m1) (root_of (inode_table ?m1))) i = 0"
      unfolding sel1 r1 ro en1 [OF i64] by (rule i(2))
    show "entry_inode_no (data_region ?m1)
        (root_entries_offset (sb ?m1) (root_of (inode_table ?m1))) j \<noteq> 0" if "j < i" for j
    proof -
      have "j < 64"
        using that i64 by simp
      then show ?thesis
        unfolding sel1 r1 ro en1 [OF \<open>j < 64\<close>] using i(3) [OF that] by simp
    qed
  qed
  have frs': "find_root_slot ?m1 = Inr (int i, 0, ?itable1)"
    using frs unfolding sel1 r1 ro .
  have "i * 64 + 64 \<le> 4096"
    using i64 by simp
  then have "0 + nat (int i) * 64 + 64 \<le> length dregion1"
    using r4096 l1 by simp
  then obtain dregion2 where
    wd: "write_dirent dregion1 0 (int i) (int a + 1) file_name = Inr dregion2"
    using write_dirent_unfold [of "int i" 0 dregion1 "int a + 1" file_name] by simp
  have "128 \<le> length ?itable1"
    unfolding lt1 by (rule t128)
  then obtain itable3 where br: "bump_root_links ?itable1 = Inr itable3"
    by (simp add: bump_root_links_unfold)
  have "insert_file m (Some bytes) file_name now
      = Inr (m\<lparr> inode_bitmap := ibitmap, data_bitmap := bitmap',
                inode_table := itable3, data_region := dregion2 \<rparr>)"
    unfolding run frs' by (simp add: wd br)
  then show ?thesis
    by blast
qed

lemma laid_out_image:
  assumes "laid_out m a d n"
  shows "valid_image (persist m)"
    and "image_superblock (persist m) = sb m"
    and "loaded (persist m) = m"
    and "image_inode_bitmap (persist m) = inode_bitmap m"
    and "image_data_bitmap (persist m) = data_bitmap m"
    and "\<And>j. j * 128 + 128 \<le> length (inode_table m) \<Longrightarrow>
      image_inode (persist m) j = inode_of (field (inode_table m) (j * 128) 128)"
    and "image_inode (persist m) 0 = root_of (inode_table m)"
    and "image_root_block (persist m) = 0"
    and "\<And>i. i < 64 \<Longrightarrow> image_dirent (persist m) i = dirent_of (field (data_region m) (i * 64) 64)"
proof -
  from assms have vs: "valid_superblock (sb m)"
    and ia: "dense (inode_bitmap m) a" and id: "dense (data_bitmap m) d"
    and lt: "length (inode_table m) = unat (inode_table_blocks (sb m)) * 4096"
    and lr: "length (data_region m) = unat (data_region_blocks (sb m)) * 4096"
    and a1: "1 \<le> a"
    and rd: "direct (root_of (inode_table m)) ! 0 = ucast (data_region_start (sb m))"
    and rs: "size_bytes (root_of (inode_table m)) = of_nat (n * 64)"
    and n64: "n \<le> 64"
    and ic: "unat (inode_count (sb m)) * 128 \<le> length (inode_table m)"
    by (simp_all add: laid_out_def)
  have lb: "length (inode_bitmap m) = 4096" "length (data_bitmap m) = 4096"
    using ia id by (simp_all add: dense_def)
  note vb = valid_superblock_bounds [OF vs]
  note lp = loaded_persist [OF vs lb lt lr]
  show s: "image_superblock (persist m) = sb m" and l: "loaded (persist m) = m"
    by (rule lp)+
  have vs': "valid_superblock (image_superblock (persist m))"
    and len: "length (persist m) = unat (total_blocks (image_superblock (persist m))) * 4096"
    using vs lp(3) by (simp_all add: s)
  note ir = image_regions [OF vs' len, unfolded l]
  show ib: "image_inode_bitmap (persist m) = inode_bitmap m"
    and "image_data_bitmap (persist m) = data_bitmap m"
    by (rule ir)+
  show ino: "image_inode (persist m) j = inode_of (field (inode_table m) (j * 128) 128)"
    if "j * 128 + 128 \<le> length (inode_table m)" for j
    using ir(3) [OF that] by (simp add: image_inode_def)
  have t: "0 * 128 + 128 \<le> length (inode_table m)"
    using lt vb(5) by simp
  show r: "image_inode (persist m) 0 = root_of (inode_table m)"
    using ino [OF t] by (simp add: root_of_def)
  have ud: "unat (direct (root_of (inode_table m)) ! 0) = unat (data_region_start (sb m))"
    using vb(1) by (simp add: rd unat_ucast_u64_u32)
  show rb: "image_root_block (persist m) = 0"
    by (simp add: image_root_block_def r s ud)
  have b0: "0 * 4096 + 4096 \<le> length (data_region m)"
    using lr vb(4) by simp
  have blk: "image_data_block (persist m) 0 = field (data_region m) 0 4096"
    using ir(4) [OF b0] by simp
  show "image_dirent (persist m) i = dirent_of (field (data_region m) (i * 64) 64)" if "i < 64" for i
  proof -
    have "field (field (data_region m) 0 4096) (i * 64) 64 = field (data_region m) (0 + i * 64) 64"
      using that b0 by (intro field_field) simp_all
    then show ?thesis
      by (simp add: image_dirent_def rb blk)
  qed
  have "bit_at (inode_bitmap m) 0"
    using ia a1 by (simp add: dense_def)
  moreover have "unat (size_bytes (root_of (inode_table m))) \<le> 4096"
  proof -
    have "unat (of_nat (n * 64) :: u64) = n * 64"
      using n64 by (intro unat_of_nat_u64) simp
    then show ?thesis
      using n64 by (simp add: rs)
  qed
  moreover have "unat (data_region_start (sb m)) < unat (total_blocks (sb m))"
    using vs vb(4) by (simp add: valid_superblock_def)
  moreover have "unat (inode_count (sb m)) * 128 \<le> unat (inode_table_blocks (sb m)) * 4096"
    using ic lt by (simp only:)
  ultimately show "valid_image (persist m)"
    unfolding valid_image_def using vs lp(3) by (simp add: s ib r ud)
qed

lemma mkfs_adder_laid_out:
  assumes "laid_out m a d n"
  shows "mkfs_adder (Some (persist m)) file file_name now can_create =
    and_then (insert_file m file file_name now) (\<lambda>m'.
      if \<not> can_create then Inl CreateOutputFailed else Inr (persist m'))"
proof -
  note pi = laid_out_image [OF assms]
  note vp = valid_image_parts [OF pi(1)]
  have "load_image (persist m) = Inr m"
    using load_image_valid [OF vp] by (simp add: pi(3))
  then show ?thesis
    by (simp add: mkfs_adder_def)
qed

lemma image_entry_number:
  assumes "laid_out m a d n" "i < 64"
  shows "inode_no (image_dirent (persist m) i) = entry_inode_no (data_region m) 0 i"
proof -
  from assms(1) have vs: "valid_superblock (sb m)"
    and lr: "length (data_region m) = unat (data_region_blocks (sb m)) * 4096"
    by (simp_all add: laid_out_def)
  note vb = valid_superblock_bounds [OF vs]
  have "i * 64 + 64 \<le> 4096"
    using assms(2) by simp
  then have "i * 64 + 64 \<le> length (data_region m)"
    using lr vb(4) by simp
  then have "rd32 (field (data_region m) (i * 64) 64) 0 = rd32 (data_region m) (i * 64 + 0)"
    by (intro rd32_field) simp_all
  then show ?thesis
    unfolding laid_out_image(9) [OF assms] inode_no_dirent_of by (simp add: entry_inode_no_def)
qed

lemma laid_out_entry_count:
  assumes "laid_out m a d n"
  shows "unat (size_bytes (image_inode (persist m) 0) div 64) = n"
    and "bit_at (image_data_bitmap (persist m)) (image_root_block (persist m))"
proof -
  from assms have rs: "size_bytes (root_of (inode_table m)) = of_nat (n * 64)"
    and n64: "n \<le> 64" and id: "dense (data_bitmap m) d" and d1: "1 \<le> d"
    by (simp_all add: laid_out_def)
  show "unat (size_bytes (image_inode (persist m) 0) div 64) = n"
    unfolding laid_out_image(7) [OF assms]
    using entry_count_of_size [OF rs n64] by (simp add: entry_count_of_def)
  show "bit_at (image_data_bitmap (persist m)) (image_root_block (persist m))"
    unfolding laid_out_image(5,8) [OF assms] using id d1 by (simp add: dense_def)
qed

lemma packed_entries:
  assumes "packed m a d n" "j < n"
  shows "inode_no (image_dirent (persist m) j) \<noteq> 0"
proof -
  from assms have "entry_inode_no (data_region m) 0 j \<noteq> 0" and "n \<le> 64"
    by (simp_all add: packed_def)
  then show ?thesis
    using image_entry_number [OF packed_laid_out [OF assms(1)], of j] assms(2) by simp
qed

lemma fresh_image_slots:
  fixes size_kib inodes :: u64
  assumes "180 \<le> size_kib" "size_kib \<le> 4096" "size_kib mod 4 = 0"
    and "128 \<le> inodes" "inodes \<le> 512"
    and "3976 \<le> length beyond"
    and "img = fresh_image size_kib inodes now beyond"
  shows "valid_image img"
    and "bit_at (image_data_bitmap img) (image_root_block img)"
    and "unat (size_bytes (image_inode img 0) div 64) = 2"
    and "inode_no (image_dirent img 0) \<noteq> 0" "inode_no (image_dirent img 1) \<noteq> 0"
proof -
  from fresh_image_packed [OF assms(1-6), of "[]" now] obtain s where
    f: "fresh_image size_kib inodes now beyond = persist (fresh_regions s now)"
    and p: "packed (fresh_regions s now) 1 1 2"
    by blast
  have img: "img = persist (fresh_regions s now)"
    using assms(7) f by simp
  note l = packed_laid_out [OF p]
  show "valid_image img"
    unfolding img using p by (rule packed_image(1))
  show "bit_at (image_data_bitmap img) (image_root_block img)"
    unfolding img using l by (rule laid_out_entry_count(2))
  show "unat (size_bytes (image_inode img 0) div 64) = 2"
    unfolding img using l by (rule laid_out_entry_count(1))
  show "inode_no (image_dirent img 0) \<noteq> 0" "inode_no (image_dirent img 1) \<noteq> 0"
    unfolding img using p by (rule packed_entries, simp)+
qed

lemma freed_image_slots:
  fixes size_kib inodes :: u64
  assumes "180 \<le> size_kib" "size_kib \<le> 4096" "size_kib mod 4 = 0"
    and "128 \<le> inodes" "inodes \<le> 512"
    and "3976 \<le> length beyond"
    and "img = with_freed_entry (fresh_image size_kib inodes now beyond)"
  shows "valid_image img"
    and "bit_at (image_data_bitmap img) (image_root_block img)"
    and "unat (size_bytes (image_inode img 0) div 64) = 2"
    and "inode_no (image_dirent img 0) \<noteq> 0" "inode_no (image_dirent img 1) = 0"
    and "1 \<le> length bytes \<Longrightarrow> length bytes \<le> 49152 \<Longrightarrow>
      \<exists>out. mkfs_adder (Some img) (Some bytes) file_name t True = Inr out"
proof -
  from fresh_image_packed [OF assms(1-6), of "[]" now] obtain s where
    f: "fresh_image size_kib inodes now beyond = persist (fresh_regions s now)"
    and p: "packed (fresh_regions s now) 1 1 2"
    and ic: "inode_count s = inodes"
    and tl: "unat inodes * 128 \<le> length (inode_table (fresh_regions s now))"
    and drb: "26 \<le> unat (data_region_blocks s)"
    by blast
  let ?base = "fresh_regions s now"
  let ?reg = "data_region ?base"
  let ?m = "?base\<lparr>data_region := patched ?reg 64 (replicate 64 0)\<rparr>"
  have img: "img = persist ?m"
    unfolding assms(7) with_freed_entry_def f packed_image(3) [OF p] ..
  have sm: "sb ?base = s"
    by (simp add: fresh_regions_def)
  from p have "valid_superblock (sb ?base)"
    and "length ?reg = unat (data_region_blocks (sb ?base)) * 4096"
    unfolding packed_def by blast+
  then have vs: "valid_superblock s"
    and lr: "length ?reg = unat (data_region_blocks s) * 4096"
    unfolding sm .
  note vb = valid_superblock_bounds [OF vs]
  have r128: "64 + length (replicate 64 (0 :: u8)) \<le> length ?reg"
    using lr vb(4) by simp
  have lp: "length (patched ?reg 64 (replicate 64 0)) = length ?reg"
    using r128 by (rule length_patched)
  have l: "laid_out ?m 1 1 2"
    using packed_laid_out [OF p] lp by (simp add: laid_out_def)
  have e0: "entry_inode_no (data_region ?m) 0 0 \<noteq> 0"
  proof -
    have "field (patched ?reg 64 (replicate 64 0)) 0 4 = field ?reg 0 4"
      using r128 by (intro field_patched_outside) simp_all
    moreover have "entry_inode_no ?reg 0 0 \<noteq> 0"
      using p by (simp add: packed_def)
    ultimately show ?thesis
      by (simp add: entry_inode_no_def rd32_def)
  qed
  have e1: "entry_inode_no (data_region ?m) 0 1 = 0"
  proof -
    have "field (patched ?reg 64 (replicate 64 0)) 64 (length (replicate 64 (0 :: u8)))
        = replicate 64 0"
      using r128 by (rule field_patched_same)
    then have "field (patched ?reg 64 (replicate 64 0)) 64 64 = replicate 64 0"
      by simp
    moreover have "field (field (patched ?reg 64 (replicate 64 0)) 64 64) 0 4
        = field (patched ?reg 64 (replicate 64 0)) (64 + 0) 4"
      using r128 lp by (intro field_field) simp_all
    ultimately have "field (patched ?reg 64 (replicate 64 0)) 64 4 = field (replicate 64 0) 0 4"
      by simp
    then show ?thesis
      by (simp add: entry_inode_no_def rd32_def field_replicate)
  qed
  show "valid_image img"
    unfolding img using l by (rule laid_out_image(1))
  show "bit_at (image_data_bitmap img) (image_root_block img)"
    unfolding img using l by (rule laid_out_entry_count(2))
  show "unat (size_bytes (image_inode img 0) div 64) = 2"
    unfolding img using l by (rule laid_out_entry_count(1))
  show "inode_no (image_dirent img 0) \<noteq> 0"
    unfolding img using image_entry_number [OF l, of 0] e0 by simp
  show "inode_no (image_dirent img 1) = 0"
    unfolding img using image_entry_number [OF l, of 1] e1 by simp
  show "\<exists>out. mkfs_adder (Some img) (Some bytes) file_name t True = Inr out"
    if S: "1 \<le> length bytes" "length bytes \<le> 49152"
  proof -
    have ui: "128 \<le> unat inodes"
      using assms(4) by (simp add: word_le_nat_alt)
    have a: "1 < unat (inode_count (sb ?m))" "1 * 128 + 128 \<le> length (inode_table ?m)"
      using ui tl by (simp_all add: sm ic)
    have "(length bytes + 4095) div 4096 \<le> 12"
      using S(2) by simp
    then have dd: "1 + (length bytes + 4095) div 4096 \<le> unat (data_region_blocks (sb ?m))"
      using drb by (simp add: sm)
    have i: "(1 :: nat) < 2" "entry_inode_no (data_region ?m) 0 1 = 0"
      "\<And>j. j < 1 \<Longrightarrow> entry_inode_no (data_region ?m) 0 j \<noteq> 0"
      using e0 e1 by simp_all
    from insert_file_reuse [OF l a S dd i, of file_name t] obtain m' where
      "insert_file ?m (Some bytes) file_name t = Inr m'"
      by blast
    then show ?thesis
      unfolding img by (simp add: mkfs_adder_laid_out [OF l])
  qed
qed

lemma filled_image_slots:
  fixes size_kib inodes :: u64
  assumes "180 \<le> size_kib" "size_kib \<le> 4096" "size_kib mod 4 = 0"
    and "128 \<le> inodes" "inodes \<le> 512"
    and "3976 \<le> length beyond"
    and "64 \<le> unat (data_region_blocks
      (image_superblock (fresh_image size_kib inodes now beyond)))"
    and "length reqs = 62"
    and "\<And>file_name bytes t. (file_name, bytes, t) \<in> set reqs \<Longrightarrow>
      1 \<le> length bytes \<and> length bytes \<le> 4096"
  shows "\<exists>img. insert_all (fresh_image size_kib inodes now beyond) reqs = Inr img
    \<and> valid_image img
    \<and> bit_at (image_data_bitmap img) (image_root_block img)
    \<and> unat (size_bytes (image_inode img 0) div 64) = 64
    \<and> (\<forall>j<64. inode_no (image_dirent img j) \<noteq> 0)"
proof -
  from fresh_image_packed [OF assms(1-6), of "[]" now] obtain s where
    f: "fresh_image size_kib inodes now beyond = persist (fresh_regions s now)"
    and p: "packed (fresh_regions s now) 1 1 2"
    and ic: "inode_count s = inodes"
    and tl: "unat inodes * 128 \<le> length (inode_table (fresh_regions s now))"
    by blast
  let ?m = "fresh_regions s now"
  have sm: "sb ?m = s"
    by (simp add: fresh_regions_def)
  have ui: "128 \<le> unat inodes"
    using assms(4) by (simp add: word_le_nat_alt)
  have drb: "64 \<le> unat (data_region_blocks s)"
    using assms(7) by (simp add: f packed_image(2) [OF p] sm)
  have "\<exists>m'. insert_all (persist ?m) reqs = Inr (persist m')
    \<and> packed m' (1 + length reqs) (1 + length reqs) (2 + length reqs)
    \<and> sb m' = sb ?m \<and> length (inode_table m') = length (inode_table ?m)"
  proof (rule insert_all_packed [OF p])
    show "1 \<le> length bytes' \<and> length bytes' \<le> 4096"
      if "(file_name', bytes', now') \<in> set reqs" for file_name' bytes' now'
      using assms(9) that by blast
    show "2 + length reqs \<le> 64"
      by (simp add: assms(8))
    show "1 + length reqs \<le> unat (inode_count (sb ?m))"
      using ui by (simp add: assms(8) sm ic)
    show "(1 + length reqs) * 128 \<le> length (inode_table ?m)"
      using ui tl by (simp add: assms(8))
    show "1 + length reqs \<le> unat (data_region_blocks (sb ?m))"
      using drb by (simp add: assms(8) sm)
  qed
  then obtain m' where
    ia: "insert_all (persist ?m) reqs = Inr (persist m')"
    and p': "packed m' 63 63 64"
    by (auto simp add: assms(8))
  note l = packed_laid_out [OF p']
  have "\<forall>j<64. inode_no (image_dirent (persist m') j) \<noteq> 0"
    using packed_entries [OF p'] by blast
  then show ?thesis
    using ia packed_image(1) [OF p'] laid_out_entry_count [OF l] unfolding f by blast
qed

theorem new_entry_in_first_free_slot_witness:
  "(\<exists>out. mkfs_adder (Some (fresh_image 180 128 0 (replicate 3976 0))) (Some [0x78]) [0x61] 7 True
        = Inr out
      \<and> inode_no (image_dirent out 2) \<noteq> 0 \<and> type (image_dirent out 2) = 1
      \<and> name (image_dirent out 2) = stored_name [0x61]
      \<and> image_dirent out 0 = image_dirent (fresh_image 180 128 0 (replicate 3976 0)) 0
      \<and> image_dirent out 1 = image_dirent (fresh_image 180 128 0 (replicate 3976 0)) 1
      \<and> size_bytes (image_inode out 0)
          = size_bytes (image_inode (fresh_image 180 128 0 (replicate 3976 0)) 0) + 64)
   \<and> (\<exists>out. mkfs_adder (Some (with_freed_entry (fresh_image 180 128 0 (replicate 3976 0))))
          (Some [0x78]) [0x61] 7 True = Inr out
      \<and> inode_no (image_dirent (with_freed_entry (fresh_image 180 128 0 (replicate 3976 0))) 1) = 0
      \<and> inode_no (image_dirent out 1) \<noteq> 0 \<and> type (image_dirent out 1) = 1
      \<and> name (image_dirent out 1) = stored_name [0x61]
      \<and> image_dirent out 0
          = image_dirent (with_freed_entry (fresh_image 180 128 0 (replicate 3976 0))) 0
      \<and> size_bytes (image_inode out 0)
          = size_bytes (image_inode (with_freed_entry (fresh_image 180 128 0 (replicate 3976 0))) 0))
   \<and> (\<exists>img err. insert_all (fresh_image 400 128 0 (replicate 3976 0))
          (replicate 62 ([0x61], [0x78], 0)) = Inr img
      \<and> mkfs_adder (Some img) (Some [0x78]) [0x61] 7 True = Inl err)"
proof -
  let ?F = "fresh_image 180 128 0 (replicate 3976 0)"
  let ?H = "with_freed_entry ?F"
  have b: "180 \<le> (180 :: u64)" "(180 :: u64) \<le> 4096" "(180 :: u64) mod 4 = 0"
    "128 \<le> (128 :: u64)" "(128 :: u64) \<le> 512" "3976 \<le> length (replicate 3976 (0 :: u8))"
    by simp_all
  have S: "1 \<le> length [0x78 :: u8]" "length [0x78 :: u8] \<le> 49152"
    by simp_all
  text \<open>A new image: no entry is free, the new entry is appended at index 2.\<close>
  note fs = fresh_image_slots [OF b refl, where now = 0]
  from fresh_image_accepts(2) [OF b S, where now = 0 and file_name = "[0x61]" and t = 7]
  obtain out where
    run: "mkfs_adder (Some ?F) (Some [0x78]) [0x61] 7 True = Inr out"
    by blast
  note t = new_entry_in_first_free_slot [OF fs(1,2) fs(3) [symmetric],
      of "Some [0x78]" "[0x61]" 7 True, THEN conjunct1, rule_format, OF run]
  then obtain e where e: "e < 64"
    and ne: "inode_no (image_dirent out e) \<noteq> 0" "type (image_dirent out e) = 1"
      "name (image_dirent out e) = stored_name [0x61]"
    and oth: "\<forall>j<64. j \<noteq> e \<longrightarrow> image_dirent out j = image_dirent ?F j"
    and c: "(e < 2 \<and> inode_no (image_dirent ?F e) = 0
              \<and> size_bytes (image_inode out 0) = size_bytes (image_inode ?F 0))
           \<or> (e = 2 \<and> size_bytes (image_inode out 0) = size_bytes (image_inode ?F 0) + 64)"
    by blast
  have "\<not> (e < 2 \<and> inode_no (image_dirent ?F e) = 0)"
  proof
    assume a: "e < 2 \<and> inode_no (image_dirent ?F e) = 0"
    then have "e = 0 \<or> e = 1"
      by auto
    with a fs(4,5) show False
      by auto
  qed
  with c have e2: "e = 2" and sz: "size_bytes (image_inode out 0) = size_bytes (image_inode ?F 0) + 64"
    by blast+
  have o01: "image_dirent out 0 = image_dirent ?F 0" "image_dirent out 1 = image_dirent ?F 1"
    using oth e2 by simp_all
  have first: "\<exists>out. mkfs_adder (Some ?F) (Some [0x78]) [0x61] 7 True = Inr out
      \<and> inode_no (image_dirent out 2) \<noteq> 0 \<and> type (image_dirent out 2) = 1
      \<and> name (image_dirent out 2) = stored_name [0x61]
      \<and> image_dirent out 0 = image_dirent ?F 0
      \<and> image_dirent out 1 = image_dirent ?F 1
      \<and> size_bytes (image_inode out 0) = size_bytes (image_inode ?F 0) + 64"
    using run ne [unfolded e2] o01 sz by blast
  text \<open>The same image with entry 1 freed: the new entry takes index 1.\<close>
  note hs = freed_image_slots [OF b refl, where now = 0]
  from hs(6) [OF S, where file_name = "[0x61]" and t = 7] obtain out' where
    run': "mkfs_adder (Some ?H) (Some [0x78]) [0x61] 7 True = Inr out'"
    by blast
  note t' = new_entry_in_first_free_slot [OF hs(1,2) hs(3) [symmetric],
      of "Some [0x78]" "[0x61]" 7 True, THEN conjunct1, rule_format, OF run']
  then obtain e' where e': "e' < 64"
    and ne': "inode_no (image_dirent out' e') \<noteq> 0" "type (image_dirent out' e') = 1"
      "name (image_dirent out' e') = stored_name [0x61]"
    and oth': "\<forall>j<64. j \<noteq> e' \<longrightarrow> image_dirent out' j = image_dirent ?H j"
    and c': "(e' < 2 \<and> inode_no (image_dirent ?H e') = 0
              \<and> size_bytes (image_inode out' 0) = size_bytes (image_inode ?H 0))
           \<or> ((\<forall>j<2. inode_no (image_dirent ?H j) \<noteq> 0) \<and> e' = 2)"
    by blast
  have "\<not> (\<forall>j<2. inode_no (image_dirent ?H j) \<noteq> 0)"
  proof
    assume "\<forall>j<2. inode_no (image_dirent ?H j) \<noteq> 0"
    then have "inode_no (image_dirent ?H 1) \<noteq> 0"
      by simp
    with hs(5) show False
      by simp
  qed
  with c' have a': "e' < 2" "inode_no (image_dirent ?H e') = 0"
    and sz': "size_bytes (image_inode out' 0) = size_bytes (image_inode ?H 0)"
    by blast+
  have e1: "e' = 1"
  proof -
    from a'(1) have "e' = 0 \<or> e' = 1"
      by auto
    with a'(2) hs(4) show ?thesis
      by auto
  qed
  have o0: "image_dirent out' 0 = image_dirent ?H 0"
    using oth' e1 by simp
  have second: "\<exists>out. mkfs_adder (Some ?H) (Some [0x78]) [0x61] 7 True = Inr out
      \<and> inode_no (image_dirent ?H 1) = 0
      \<and> inode_no (image_dirent out 1) \<noteq> 0 \<and> type (image_dirent out 1) = 1
      \<and> name (image_dirent out 1) = stored_name [0x61]
      \<and> image_dirent out 0 = image_dirent ?H 0
      \<and> size_bytes (image_inode out 0) = size_bytes (image_inode ?H 0)"
    using run' hs(5) ne' [unfolded e1] o0 sz' by blast
  text \<open>A full root directory: the run fails.\<close>
  let ?G = "fresh_image 400 128 0 (replicate 3976 0)"
  have b4: "180 \<le> (400 :: u64)" "(400 :: u64) \<le> 4096" "(400 :: u64) mod 4 = 0"
    by simp_all
  have d: "64 \<le> unat (data_region_blocks (image_superblock ?G))"
    by (simp add: fresh_image_data_blocks)
  have "\<exists>img. insert_all ?G (replicate 62 ([0x61], [0x78], 0)) = Inr img
    \<and> valid_image img
    \<and> bit_at (image_data_bitmap img) (image_root_block img)
    \<and> unat (size_bytes (image_inode img 0) div 64) = 64
    \<and> (\<forall>j<64. inode_no (image_dirent img j) \<noteq> 0)"
    by (rule filled_image_slots [OF b4 b(4-6) d]) simp_all
  then obtain img where ia: "insert_all ?G (replicate 62 ([0x61], [0x78], 0)) = Inr img"
    and v: "valid_image img"
    and rbit: "bit_at (image_data_bitmap img) (image_root_block img)"
    and n: "unat (size_bytes (image_inode img 0) div 64) = 64"
    and full: "\<forall>j<64. inode_no (image_dirent img j) \<noteq> 0"
    by blast
  from new_entry_in_first_free_slot [OF v rbit n [symmetric],
      of "Some [0x78]" "[0x61]" 7 True, THEN conjunct2] full
  have "\<exists>err. mkfs_adder (Some img) (Some [0x78]) [0x61] 7 True = Inl err"
    by simp
  with ia have third: "\<exists>img err. insert_all ?G (replicate 62 ([0x61], [0x78], 0)) = Inr img
      \<and> mkfs_adder (Some img) (Some [0x78]) [0x61] 7 True = Inl err"
    by blast
  show ?thesis
    using first second third by (intro conjI)
qed

end
